(* ===== verification/Collections.thy ===== *)
theory Collections
  imports Prelude "HOL-Library.AList"
begin

section \<open>Rust collections\<close>

text \<open>
  \<open>BTreeMap\<close> and \<open>BTreeSet\<close> are lists in key order: insertion keeps the order, a map
  insertion replaces the value, a set insertion keeps the element already present. The
  set takes the ordering key as an argument, because \<open>SignedSpend\<close> orders on fewer fields
  than it compares. \<open>HashMap\<close> is an association list with distinct keys in an arbitrary
  order (\<open>AList\<close> of the library); \<open>retain\<close> is a filter.
\<close>

subsection \<open>\<open>BTreeMap\<close>\<close>

type_synonym ('k, 'v) btree_map = "('k \<times> 'v) list"

fun bmap_insert :: "'k::linorder \<Rightarrow> 'v \<Rightarrow> ('k, 'v) btree_map \<Rightarrow> ('k, 'v) btree_map" where
  "bmap_insert k v [] = [(k, v)]"
| "bmap_insert k v ((k', v') # m) =
     (if k < k' then (k, v) # (k', v') # m
      else if k = k' then (k, v) # m
      else (k', v') # bmap_insert k v m)"

definition bmap_inv :: "('k::linorder, 'v) btree_map \<Rightarrow> bool" where
  "bmap_inv m \<longleftrightarrow> sorted_wrt (<) (map fst m)"

lemma bmap_insert_get [simp]: "map_of (bmap_insert k v m) = (map_of m)(k \<mapsto> v)"
  by (induction k v m rule: bmap_insert.induct) (auto simp: fun_eq_iff)

lemma bmap_insert_keys [simp]: "set (map fst (bmap_insert k v m)) = insert k (set (map fst m))"
  by (induction k v m rule: bmap_insert.induct) auto

lemma bmap_insert_keys' [simp]: "fst ` set (bmap_insert k v m) = insert k (fst ` set m)"
  using bmap_insert_keys [of k v m] by simp

lemma bmap_insert_inv: "bmap_inv m \<Longrightarrow> bmap_inv (bmap_insert k v m)"
proof (induction k v m rule: bmap_insert.induct)
  case (1 k v)
  then show ?case by (simp add: bmap_inv_def)
next
  case (2 k v k' v' m)
  then show ?case by (auto simp: bmap_inv_def)
qed

lemma bmap_insert_twice [simp]: "bmap_insert k v (bmap_insert k v m) = bmap_insert k v m"
  by (induction k v m rule: bmap_insert.induct) auto

lemma bmap_insert_fresh_mset:
  "k \<notin> fst ` set m \<Longrightarrow> mset (bmap_insert k v m) = add_mset (k, v) (mset m)"
  by (induction k v m rule: bmap_insert.induct) auto

lemma bmap_inv_Nil [simp]: "bmap_inv []"
  by (simp add: bmap_inv_def)

lemma bmap_inv_distinct: "bmap_inv m \<Longrightarrow> distinct (map fst m)"
  by (simp add: bmap_inv_def strict_sorted_iff)

subsection \<open>\<open>BTreeSet\<close>\<close>

fun bset_insert :: "('a \<Rightarrow> 'k::linorder) \<Rightarrow> 'a \<Rightarrow> 'a list \<Rightarrow> 'a list" where
  "bset_insert key x [] = [x]"
| "bset_insert key x (y # ys) =
     (if key x < key y then x # y # ys
      else if key x = key y then y # ys
      else y # bset_insert key x ys)"

text \<open>\<open>BTreeSet::from_iter\<close> and \<open>extend\<close>.\<close>

definition bset_extend :: "('a \<Rightarrow> 'k::linorder) \<Rightarrow> 'a list \<Rightarrow> 'a list \<Rightarrow> 'a list" where
  "bset_extend key s xs = fold (bset_insert key) xs s"

definition bset_of :: "('a \<Rightarrow> 'k::linorder) \<Rightarrow> 'a list \<Rightarrow> 'a list" where
  "bset_of key xs = bset_extend key [] xs"

definition bset_inv :: "('a \<Rightarrow> 'k::linorder) \<Rightarrow> 'a list \<Rightarrow> bool" where
  "bset_inv key s \<longleftrightarrow> sorted_wrt (<) (map key s)"

lemma bset_insert_keys: "key ` set (bset_insert key x s) = insert (key x) (key ` set s)"
  by (induction key x s rule: bset_insert.induct) auto

lemma bset_insert_inv: "bset_inv key s \<Longrightarrow> bset_inv key (bset_insert key x s)"
proof (induction s)
  case Nil
  then show ?case by (simp add: bset_inv_def)
next
  case (Cons y ys)
  have "key ` set (bset_insert key x ys) = insert (key x) (key ` set ys)"
    by (rule bset_insert_keys)
  then have "\<forall>k \<in> key ` set (bset_insert key x ys). k = key x \<or> k \<in> key ` set ys" by blast
  then have *: "\<forall>z \<in> set (bset_insert key x ys). key z = key x \<or> key z \<in> key ` set ys"
    by blast
  show ?case
  proof (cases "key x < key y")
    case True
    then show ?thesis using Cons.prems by (auto simp: bset_inv_def)
  next
    case False
    then show ?thesis using Cons * by (auto simp: bset_inv_def)
  qed
qed

lemma bset_insert_subset: "set (bset_insert key x s) \<subseteq> insert x (set s)"
  by (induction key x s rule: bset_insert.induct) auto

lemma bset_insert_superset: "set s \<subseteq> set (bset_insert key x s)"
  by (induction key x s rule: bset_insert.induct) auto

lemma bset_insert_fresh:
  "key x \<notin> key ` set s \<Longrightarrow> mset (bset_insert key x s) = add_mset x (mset s)"
  by (induction key x s rule: bset_insert.induct) auto

lemma bset_extend_keys: "key ` set (bset_extend key s xs) = key ` set s \<union> key ` set xs"
  by (induction xs arbitrary: s) (auto simp: bset_extend_def bset_insert_keys)

lemma bset_extend_inv: "bset_inv key s \<Longrightarrow> bset_inv key (bset_extend key s xs)"
  by (induction xs arbitrary: s) (auto simp: bset_extend_def bset_insert_inv)

lemma bset_extend_subset: "set (bset_extend key s xs) \<subseteq> set s \<union> set xs"
proof (induction xs arbitrary: s)
  case Nil
  then show ?case by (simp add: bset_extend_def)
next
  case (Cons x xs)
  have "set (bset_extend key (bset_insert key x s) xs) \<subseteq> set (bset_insert key x s) \<union> set xs"
    by (rule Cons.IH)
  with bset_insert_subset [of key x s] show ?case by (auto simp: bset_extend_def)
qed

lemma bset_inv_Nil [simp]: "bset_inv key []"
  by (simp add: bset_inv_def)

lemma bset_of_inv [simp]: "bset_inv key (bset_of key xs)"
  by (simp add: bset_of_def bset_extend_inv)

lemma bset_of_keys: "key ` set (bset_of key xs) = key ` set xs"
  by (simp add: bset_of_def bset_extend_keys)

lemma bset_of_subset: "set (bset_of key xs) \<subseteq> set xs"
  using bset_extend_subset [of key "[]" xs] by (simp add: bset_of_def)

lemma bset_extend_inj:
  assumes "inj_on key (set s \<union> set xs)"
  shows "set (bset_extend key s xs) = set s \<union> set xs"
proof (rule antisym)
  show "set (bset_extend key s xs) \<subseteq> set s \<union> set xs" by (rule bset_extend_subset)
  show "set s \<union> set xs \<subseteq> set (bset_extend key s xs)"
  proof
    fix x assume x: "x \<in> set s \<union> set xs"
    then have "key x \<in> key ` (set s \<union> set xs)" by (rule imageI)
    then have "key x \<in> key ` set (bset_extend key s xs)"
      unfolding bset_extend_keys image_Un .
    then obtain y where "key x = key y" and y: "y \<in> set (bset_extend key s xs)" by (rule imageE)
    moreover have "y \<in> set s \<union> set xs" using bset_extend_subset y by (rule subsetD)
    ultimately have "x = y" using assms x by (auto dest: inj_onD)
    with y show "x \<in> set (bset_extend key s xs)" by simp
  qed
qed

lemma bset_of_inj: "inj_on key (set xs) \<Longrightarrow> set (bset_of key xs) = set xs"
  by (simp add: bset_of_def bset_extend_inj)

lemma bset_inv_distinct: "bset_inv key s \<Longrightarrow> distinct s"
  by (simp add: bset_inv_def strict_sorted_iff distinct_map)

lemma bset_of_mset:
  assumes "distinct (map key xs)"
  shows "mset (bset_of key xs) = mset xs"
proof -
  have "inj_on key (set xs)" and "distinct xs" using assms by (simp_all add: distinct_map)
  then show ?thesis
    using bset_of_inj [of key xs] bset_inv_distinct [OF bset_of_inv, of key xs]
    by (simp add: set_eq_iff_mset_eq_distinct [symmetric])
qed

text \<open>Two sets in order with the same elements are the same list.\<close>

lemma bset_inv_unique:
  assumes "bset_inv key s" and "bset_inv key t" and "set s = set t"
  shows "s = t"
  using assms
proof (induction s arbitrary: t)
  case Nil
  then show ?case by simp
next
  case (Cons x s)
  then obtain y u where t: "t = y # u" by (cases t) auto
  have xy: "x = y"
  proof (rule ccontr)
    assume "x \<noteq> y"
    with Cons.prems(3) t have "x \<in> set u" and "y \<in> set s" by auto
    with Cons.prems(1,2) t have "key y < key x" and "key x < key y"
      by (auto simp: bset_inv_def)
    then show False by simp
  qed
  have "x \<notin> set s" and "y \<notin> set u"
    using Cons.prems(1,2) t by (auto simp: bset_inv_def)
  then have "set s = set u" using Cons.prems(3) t xy by auto
  then have "s = u" using Cons.prems(1,2) t by (intro Cons.IH) (auto simp: bset_inv_def)
  with xy t show ?case by simp
qed

subsection \<open>Joining replicas\<close>

text \<open>A state that stands for a set of elements, whose join stands for the union: what a
  replica gives by merging. Joining is then a semilattice, and a fold of joins depends only
  on the elements that were delivered.\<close>

locale replicated_set =
  fixes inv :: "'s \<Rightarrow> bool" and elems :: "'s \<Rightarrow> 'e set" and join :: "'s \<Rightarrow> 's \<Rightarrow> 's"
  assumes join_inv: "inv s \<Longrightarrow> inv (join s t)"
    and elems_join: "elems (join s t) = elems s \<union> elems t"
    and elems_inject: "inv s \<Longrightarrow> inv t \<Longrightarrow> elems s = elems t \<Longrightarrow> s = t"
begin

lemma join_commute: "inv s \<Longrightarrow> inv t \<Longrightarrow> join s t = join t s"
  by (rule elems_inject) (auto simp: join_inv elems_join)

lemma join_assoc: "inv s \<Longrightarrow> join (join s t) u = join s (join t u)"
  by (rule elems_inject) (auto simp: join_inv elems_join)

lemma join_idem: "inv s \<Longrightarrow> join s s = s"
  by (rule elems_inject) (auto simp: join_inv elems_join)

lemma join_absorb: "inv s \<Longrightarrow> elems t \<subseteq> elems s \<Longrightarrow> join s t = s"
  by (rule elems_inject) (auto simp: join_inv elems_join)

lemma fold_join_inv: "inv s \<Longrightarrow> inv (fold (\<lambda>t s. join s t) ts s)"
  by (induction ts arbitrary: s) (simp_all add: join_inv)

lemma fold_join_elems: "elems (fold (\<lambda>t s. join s t) ts s) = elems s \<union> \<Union> (elems ` set ts)"
  by (induction ts arbitrary: s) (auto simp: elems_join)

lemma fold_join_eq:
  assumes "inv s" and "\<Union> (elems ` set ts) = \<Union> (elems ` set us)"
  shows "fold (\<lambda>t s. join s t) ts s = fold (\<lambda>t s. join s t) us s"
  by (rule elems_inject) (simp_all add: fold_join_inv fold_join_elems assms)

end

lemma bset_replicated_set:
  assumes "inj key"
  shows "replicated_set (bset_inv key) set (bset_extend key)"
proof
  show "bset_inv key (bset_extend key s t)" if "bset_inv key s" for s t
    by (rule bset_extend_inv [OF that])
  show "set (bset_extend key s t) = set s \<union> set t" for s t
    by (rule bset_extend_inj) (rule inj_on_subset [OF assms subset_UNIV])
  show "s = t" if "bset_inv key s" "bset_inv key t" "set s = set t" for s t
    by (rule bset_inv_unique [OF that])
qed

text \<open>A \<open>BTreeSet\<close> ordered by all of the element.\<close>

interpretation ordered_sets: replicated_set "bset_inv id" set "bset_extend id"
  by (rule bset_replicated_set) simp

subsection \<open>\<open>HashMap\<close>\<close>

type_synonym ('k, 'v) hash_map = "('k \<times> 'v) list"

definition hmap_inv :: "('k, 'v) hash_map \<Rightarrow> bool" where
  "hmap_inv m \<longleftrightarrow> distinct (map fst m)"

definition hmap_contains :: "('k, 'v) hash_map \<Rightarrow> 'k \<Rightarrow> bool" where
  "hmap_contains m k \<longleftrightarrow> map_of m k \<noteq> None"

definition hmap_retain :: "('k \<Rightarrow> 'v \<Rightarrow> bool) \<Rightarrow> ('k, 'v) hash_map \<Rightarrow> ('k, 'v) hash_map" where
  "hmap_retain p m = filter (\<lambda>(k, v). p k v) m"

lemma hmap_inv_Nil [simp]: "hmap_inv []"
  by (simp add: hmap_inv_def)

lemma hmap_inv_update [simp]: "hmap_inv m \<Longrightarrow> hmap_inv (AList.update k v m)"
  by (simp add: hmap_inv_def distinct_update)

lemma hmap_inv_delete [simp]: "hmap_inv m \<Longrightarrow> hmap_inv (AList.delete k m)"
  by (simp add: hmap_inv_def distinct_delete)

lemma hmap_inv_retain [simp]: "hmap_inv m \<Longrightarrow> hmap_inv (hmap_retain p m)"
  by (induction m) (auto simp: hmap_inv_def hmap_retain_def)

lemma hmap_contains_iff: "hmap_contains m k \<longleftrightarrow> k \<in> fst ` set m"
  unfolding hmap_contains_def map_of_eq_None_iff by simp

lemma hmap_retain_get:
  "hmap_inv m \<Longrightarrow> map_of (hmap_retain p m) k
     = (case map_of m k of None \<Rightarrow> None | Some v \<Rightarrow> if p k v then Some v else None)"
proof (induction m)
  case Nil
  then show ?case by (simp add: hmap_retain_def)
next
  case (Cons a m)
  obtain k' v where a: "a = (k', v)" by (cases a)
  have "k' \<notin> fst ` set m" using Cons.prems a by (simp add: hmap_inv_def)
  then have "map_of m k' = None" by (simp add: map_of_eq_None_iff)
  moreover have "hmap_inv m" using Cons.prems by (simp add: hmap_inv_def)
  ultimately show ?case
    using Cons.IH a by (cases "k = k'") (simp_all add: hmap_retain_def)
qed

lemma hmap_retain_set: "set (hmap_retain p m) = {(k, v) \<in> set m. p k v}"
  by (auto simp: hmap_retain_def)

lemma hmap_retain_length: "length (hmap_retain p m) \<le> length m"
  by (simp add: hmap_retain_def)

lemma hmap_update_length:
  "length (AList.update k v m) = (if k \<in> fst ` set m then length m else Suc (length m))"
  by (induction m) auto

lemma keys_update [simp]: "fst ` set (AList.update k v m) = insert k (fst ` set m)"
  by (induction m) auto

lemma keys_delete [simp]: "fst ` set (AList.delete k m) = fst ` set m - {k}"
  by (induction m) auto

lemma delete_length: "k \<in> fst ` set m \<Longrightarrow> length (AList.delete k m) < length m"
proof (induction m)
  case (Cons a m)
  then show ?case
    using length_delete_le [of k m] by (cases "fst a = k") simp_all
qed simp

lemma set_update_subset: "set (AList.update k v m) \<subseteq> insert (k, v) (set m)"
  by (induction m) auto

lemma set_delete_subset: "set (AList.delete k m) \<subseteq> set m"
  by (induction m) auto

lemma fold_update_inv:
  "hmap_inv m \<Longrightarrow> hmap_inv (fold (\<lambda>(k, v). AList.update k v) kvs m)"
  by (induction kvs arbitrary: m) auto

lemma fold_update_set:
  "set (fold (\<lambda>(k, v). AList.update k v) kvs m) \<subseteq> set kvs \<union> set m"
proof (induction kvs arbitrary: m)
  case (Cons a kvs)
  then show ?case
    using set_update_subset [of "fst a" "snd a" m] by (cases a) fastforce
qed simp

subsection \<open>Calls that wait for an answer\<close>

text \<open>The callers that the entries of a map hold.\<close>

definition callers_of :: "('v \<Rightarrow> 'c list) \<Rightarrow> ('k, 'v) hash_map \<Rightarrow> 'c list" where
  "callers_of f m = concat (map (\<lambda>e. f (snd e)) m)"

lemma callers_of_Nil [simp]: "callers_of f [] = []"
  by (simp add: callers_of_def)

lemma callers_delete:
  assumes "hmap_inv m" and "map_of m k = Some v"
  shows "mset (callers_of f m) = mset (f v) + mset (callers_of f (AList.delete k m))"
  using assms
proof (induction m)
  case (Cons e m)
  show ?case
  proof (cases "fst e = k")
    case True
    then have "k \<notin> fst ` set m" using Cons.prems(1) by (auto simp: hmap_inv_def)
    then have "AList.delete k m = m" by (simp add: delete_id)
    then show ?thesis using True Cons.prems(2) by (cases e) (simp add: callers_of_def)
  next
    case False
    then show ?thesis
      using Cons by (cases e) (simp add: callers_of_def hmap_inv_def)
  qed
qed simp

lemma callers_insert:
  "map_of m k = None \<Longrightarrow> mset (callers_of f (AList.update k v m)) = mset (f v) + mset (callers_of f m)"
  by (induction m) (auto simp: callers_of_def split: if_splits)

lemma callers_update:
  "map_of m k = Some v \<Longrightarrow>
     mset (callers_of f (AList.update k v' m)) + mset (f v) = mset (f v') + mset (callers_of f m)"
  by (induction m) (auto simp: callers_of_def split: if_splits)

text \<open>A component that keeps callers until it answers them. A step asks with fresh identifiers,
  and no caller is lost or served twice by a step; then none is in a run whose identifiers
  differ.\<close>

locale answered_calls =
  fixes inv :: "'s \<Rightarrow> bool" and step :: "'e \<Rightarrow> 's \<Rightarrow> 's"
    and waiting :: "'s \<Rightarrow> 'c multiset" and served :: "'s \<Rightarrow> 'c multiset"
    and asks :: "'e \<Rightarrow> 'c multiset" and ids :: "'e \<Rightarrow> 'i list" and busy :: "'s \<Rightarrow> 'i set"
  assumes inv_step: "inv s \<Longrightarrow> inv (step e s)"
    and busy_step: "inv s \<Longrightarrow> busy (step e s) \<subseteq> busy s \<union> set (ids e)"
    and calls_step: "inv s \<Longrightarrow> distinct (ids e) \<Longrightarrow> set (ids e) \<inter> busy s = {}
          \<Longrightarrow> served (step e s) + waiting (step e s) = served s + waiting s + asks e"
begin

lemma calls_run:
  assumes "inv s" and "distinct (concat (map ids es))" and "set (concat (map ids es)) \<inter> busy s = {}"
  shows "served (fold step es s) + waiting (fold step es s) = served s + waiting s + sum_mset (mset (map asks es))"
  using assms
proof (induction es arbitrary: s)
  case (Cons e es)
  have "set (concat (map ids es)) \<inter> busy (step e s) = {}"
    using Cons.prems busy_step [OF Cons.prems(1), of e] by auto
  then have "served (fold step es (step e s)) + waiting (fold step es (step e s))
      = served (step e s) + waiting (step e s) + sum_mset (mset (map asks es))"
    using Cons.prems by (intro Cons.IH inv_step) auto
  also have "served (step e s) + waiting (step e s) = served s + waiting s + asks e"
    using Cons.prems by (intro calls_step) auto
  finally show ?case by (simp add: ac_simps)
qed simp

lemma inv_run: "inv s \<Longrightarrow> inv (fold step es s)"
  by (induction es arbitrary: s) (simp_all add: inv_step)

end

end
