(* ===== verification/Decimal.thy ===== *)
theory Decimal
  imports Prelude
begin

section \<open>Decimal strings: \<open>str::parse\<close>, integer formatting, trimming and splitting\<close>

text \<open>
  What the token types use of Rust's string library: parsing an unsigned integer
  (an optional leading plus, then at least one digit, every step checked for overflow),
  printing one, zero padding, \<open>trim_end_matches('0')\<close> and \<open>splitn(2, '.')\<close>. The lemmas
  relate parsing to the exact decimal value and prove that printing and parsing agree.
\<close>

subsection \<open>Digits\<close>

definition char_code :: "char \<Rightarrow> nat" where
  "char_code c = of_char c"

definition to_digit :: "char \<Rightarrow> nat option" where
  "to_digit c = (let n = char_code c in if 48 \<le> n \<and> n \<le> 57 then Some (n - 48) else None)"

definition digit_char :: "nat \<Rightarrow> char" where
  "digit_char d = char_of (48 + d)"

abbreviation zero_char :: char where
  "zero_char \<equiv> CHR ''0''"

lemma to_digit_digit_char [simp]: "d < 10 \<Longrightarrow> to_digit (digit_char d) = Some d"
  by (simp add: to_digit_def digit_char_def char_code_def Let_def)

lemma to_digit_bound: "to_digit c = Some d \<Longrightarrow> d < 10"
  by (auto simp: to_digit_def Let_def split: if_splits)

lemma to_digit_zero_char [simp]: "to_digit zero_char = Some 0"
  by (simp add: to_digit_def char_code_def)

lemma to_digit_zeroD: "to_digit c = Some 0 \<Longrightarrow> c = zero_char"
proof -
  assume "to_digit c = Some 0"
  then have "of_char c = (48 :: nat)"
    by (auto simp: to_digit_def char_code_def Let_def split: if_splits)
  then have "char_of (of_char c :: nat) = char_of (48 :: nat)" by simp
  moreover have "char_of (48 :: nat) = zero_char" by code_simp
  ultimately show "c = zero_char" by simp
qed

lemma to_digit_dot [simp]: "to_digit CHR ''.'' = None"
  by (simp add: to_digit_def char_code_def)

lemma to_digit_plus [simp]: "to_digit CHR ''+'' = None"
  by (simp add: to_digit_def char_code_def)

subsection \<open>Exact decimal value\<close>

definition all_digits :: "string \<Rightarrow> bool" where
  "all_digits s \<longleftrightarrow> list_all (\<lambda>c. to_digit c \<noteq> None) s"

definition digit_of :: "char \<Rightarrow> nat" where
  "digit_of c = (case to_digit c of None \<Rightarrow> 0 | Some d \<Rightarrow> d)"

fun dec_val :: "nat \<Rightarrow> string \<Rightarrow> nat" where
  "dec_val acc [] = acc"
| "dec_val acc (c # cs) = dec_val (acc * 10 + digit_of c) cs"

lemma all_digits_simps [simp]:
  "all_digits []"
  "all_digits (c # s) \<longleftrightarrow> to_digit c \<noteq> None \<and> all_digits s"
  "all_digits (s @ t) \<longleftrightarrow> all_digits s \<and> all_digits t"
  by (simp_all add: all_digits_def)

lemma dec_val_append: "dec_val acc (s @ t) = dec_val (dec_val acc s) t"
  by (induction s arbitrary: acc) auto

lemma dec_val_acc: "dec_val acc s = acc * 10 ^ length s + dec_val 0 s"
proof (induction s arbitrary: acc)
  case Nil
  then show ?case by simp
next
  case (Cons c s)
  have "dec_val acc (c # s) = (acc * 10 + digit_of c) * 10 ^ length s + dec_val 0 s"
    using Cons.IH [of "acc * 10 + digit_of c"] by simp
  moreover have "dec_val 0 (c # s) = digit_of c * 10 ^ length s + dec_val 0 s"
    using Cons.IH [of "digit_of c"] by simp
  ultimately show ?case by (simp add: algebra_simps)
qed

lemma dec_val_ge_acc: "acc \<le> dec_val acc s"
  by (subst dec_val_acc) (simp add: trans_le_add1)

lemma dec_val_replicate_zero: "dec_val acc (replicate k zero_char) = acc * 10 ^ k"
  by (induction k arbitrary: acc) (simp_all add: digit_of_def algebra_simps)

lemma digit_of_less [simp]: "digit_of c < 10"
  by (auto simp: digit_of_def split: option.splits dest: to_digit_bound)

lemma dec_val_bound: "dec_val 0 s < 10 ^ length s"
proof (induction s rule: rev_induct)
  case Nil
  then show ?case by simp
next
  case (snoc c s)
  have "digit_of c < 10" by (rule digit_of_less)
  with snoc.IH have "dec_val 0 s * 10 + digit_of c < 10 ^ length s * 10" by linarith
  then show ?case by (simp add: dec_val_append)
qed


subsection \<open>Parsing\<close>

text \<open>
  \<open>u64::from_str\<close>: an empty string and a lone sign are errors, a leading plus is
  skipped, a minus is not a digit, and the accumulator is checked at every step.
\<close>

fun parse_digits :: "'a::len word \<Rightarrow> string \<Rightarrow> 'a word option" where
  "parse_digits acc [] = Some acc"
| "parse_digits acc (c # cs) =
     (case to_digit c of
        None \<Rightarrow> None
      | Some d \<Rightarrow>
          (case checked_mul acc 10 of
             None \<Rightarrow> None
           | Some m \<Rightarrow>
               (case checked_add m (of_nat d) of
                  None \<Rightarrow> None
                | Some a \<Rightarrow> parse_digits a cs)))"

definition parse_uint :: "string \<Rightarrow> 'a::len word option" where
  "parse_uint s =
     (case s of
        [] \<Rightarrow> None
      | c # cs \<Rightarrow>
          if c = CHR ''+'' then (if cs = [] then None else parse_digits 0 cs)
          else parse_digits 0 s)"

lemma parse_digits_Some_iff:
  "parse_digits (acc :: u64) s = Some v \<longleftrightarrow>
     all_digits s \<and> unat v = dec_val (unat acc) s"
proof (induction s arbitrary: acc)
  case Nil
  then show ?case by (auto simp: word_unat_eq_iff)
next
  case (Cons c s)
  show ?case
  proof (cases "to_digit c")
    case None
    then show ?thesis by simp
  next
    case d: (Some d)
    then have "d < 10" by (rule to_digit_bound)
    then have ud: "unat (of_nat d :: u64) = d"
      by (simp add: unat_of_nat)
    have dv: "digit_of c = d" using d by (simp add: digit_of_def)
    show ?thesis
    proof (cases "unat acc * 10 + d < 2 ^ 64")
      case True
      then have mul: "checked_mul acc 10 = Some (acc * 10)"
        by (simp add: checked_mul_def)
      from True have um: "unat (acc * 10) = unat acc * 10"
        by (subst unat_mult_exact) simp_all
      from True um ud have add: "checked_add (acc * 10) (of_nat d) = Some (acc * 10 + of_nat d)"
        by (simp add: checked_add_def)
      have "unat (acc * 10 + of_nat d) = unat acc * 10 + d"
        using True um ud by (subst unat_add_exact) simp_all
      with d dv mul add show ?thesis by (simp add: Cons.IH)
    next
      case False
      have "parse_digits acc (c # s) = None"
      proof (cases "checked_mul acc 10")
        case None
        with d show ?thesis by simp
      next
        case (Some m)
        then have "unat m = unat acc * 10"
          by (auto simp: checked_mul_def unat_mult_exact split: if_splits)
        with False ud have "checked_add m (of_nat d) = None"
          by (simp add: checked_add_None_iff)
        with d Some show ?thesis by simp
      qed
      moreover have "unat v \<noteq> dec_val (unat acc) (c # s)"
      proof -
        have "unat v < 2 ^ LENGTH(64)" by (rule unsigned_less)
        then have "unat v < 2 ^ 64" by simp
        moreover have "unat acc * 10 + d \<le> dec_val (unat acc) (c # s)"
          using dec_val_ge_acc [of "unat acc * 10 + d" s] dv by simp
        ultimately show ?thesis using False by linarith
      qed
      ultimately show ?thesis by simp
    qed
  qed
qed

lemma parse_uint_digits:
  assumes "s \<noteq> []" and "all_digits s" and "dec_val 0 s < 2 ^ 64"
  shows "parse_uint s = Some (of_nat (dec_val 0 s) :: u64)"
proof -
  have "unat (of_nat (dec_val 0 s) :: u64) = dec_val 0 s"
    using assms(3) by (simp add: unat_of_nat)
  then have "parse_digits (0 :: u64) s = Some (of_nat (dec_val 0 s))"
    using assms(2) by (simp add: parse_digits_Some_iff)
  moreover obtain c cs where "s = c # cs" using assms(1) by (cases s) auto
  ultimately show ?thesis using assms(2)
    by (auto simp: parse_uint_def)
qed

subsection \<open>Printing\<close>

fun show_nat :: "nat \<Rightarrow> string" where
  "show_nat n = (if n < 10 then [digit_char n] else show_nat (n div 10) @ [digit_char (n mod 10)])"

declare show_nat.simps [simp del]

text \<open>\<open>{n:0w}\<close>: pad with zeros on the left to width \<open>w\<close>.\<close>

definition pad_zero :: "nat \<Rightarrow> string \<Rightarrow> string" where
  "pad_zero w s = replicate (w - length s) zero_char @ s"

lemma show_nat_facts:
  "show_nat n \<noteq> [] \<and> all_digits (show_nat n) \<and> dec_val 0 (show_nat n) = n"
proof (induction n rule: show_nat.induct)
  case (1 n)
  show ?case
  proof (cases "n < 10")
    case True
    then show ?thesis
      by (subst (1 2 3) show_nat.simps) (simp add: digit_of_def)
  next
    case False
    with 1 show ?thesis
      by (subst (1 2 3) show_nat.simps) (simp add: dec_val_append digit_of_def)
  qed
qed

lemmas show_nat_nonempty [simp] = show_nat_facts [THEN conjunct1]
lemmas show_nat_digits [simp] = show_nat_facts [THEN conjunct2, THEN conjunct1]
lemmas show_nat_val [simp] = show_nat_facts [THEN conjunct2, THEN conjunct2]

lemma show_nat_length: "0 < w \<Longrightarrow> n < 10 ^ w \<Longrightarrow> length (show_nat n) \<le> w"
proof (induction n arbitrary: w rule: show_nat.induct)
  case (1 n)
  show ?case
  proof (cases "n < 10")
    case True
    with 1 show ?thesis by (subst show_nat.simps) simp
  next
    case False
    with "1.prems" obtain w' where w: "w = Suc w'" and "0 < w'"
      by (cases w; cases "w - 1") auto
    with "1.prems" have "n div 10 < 10 ^ w'" by (simp add: div_less_iff_less_mult algebra_simps)
    with "1.IH" False \<open>0 < w'\<close> have "length (show_nat (n div 10)) \<le> w'" by simp
    with False w show ?thesis by (subst show_nat.simps) simp
  qed
qed

lemma all_digits_replicate [simp]: "all_digits (replicate k zero_char)"
  by (induction k) auto

lemma pad_zero_digits [simp]: "all_digits (pad_zero w s) \<longleftrightarrow> all_digits s"
  by (simp add: pad_zero_def)

lemma pad_zero_val [simp]: "dec_val 0 (pad_zero w s) = dec_val 0 s"
  by (simp add: pad_zero_def dec_val_append dec_val_replicate_zero)

lemma pad_zero_length: "length (pad_zero w s) = max w (length s)"
  by (simp add: pad_zero_def)

subsection \<open>Trimming and splitting\<close>

definition trim_end_zeros :: "string \<Rightarrow> string" where
  "trim_end_zeros s = rev (dropWhile (\<lambda>c. c = zero_char) (rev s))"

definition split_dot :: "string \<Rightarrow> string \<times> string option" where
  "split_dot s =
     (takeWhile (\<lambda>c. c \<noteq> CHR ''.'') s,
      (case dropWhile (\<lambda>c. c \<noteq> CHR ''.'') s of [] \<Rightarrow> None | _ # t \<Rightarrow> Some t))"

lemma trim_end_zeros_decomp:
  "s = trim_end_zeros s @ replicate (length s - length (trim_end_zeros s)) zero_char"
proof -
  let ?tw = "takeWhile (\<lambda>c. c = zero_char) (rev s)"
  have "rev s = ?tw @ dropWhile (\<lambda>c. c = zero_char) (rev s)" by simp
  then have s: "s = trim_end_zeros s @ rev ?tw"
    unfolding trim_end_zeros_def by (metis rev_append rev_rev_ident)
  have "\<forall>c \<in> set ?tw. c = zero_char" by (auto dest: set_takeWhileD)
  then have "?tw = replicate (length ?tw) zero_char" by (simp add: replicate_eqI)
  then have "rev ?tw = replicate (length ?tw) zero_char" by (metis rev_replicate)
  moreover have "length s - length (trim_end_zeros s) = length ?tw"
    using arg_cong [OF s, of length] by simp
  ultimately show ?thesis using s by simp
qed

lemma split_dot_join:
  assumes "all_digits a"
  shows "split_dot (a @ CHR ''.'' # b) = (a, Some b)"
proof -
  have "\<forall>c \<in> set a. c \<noteq> CHR ''.''"
    using assms by (auto simp: all_digits_def list_all_iff)
  then show ?thesis by (simp add: split_dot_def)
qed

end
