(* ===== verification/Nano_Tokens.thy ===== *)
theory Nano_Tokens
  imports Decimal
begin

section \<open>Token amounts (sn\_transfers/src/cashnotes/nano.rs) and transfer errors\<close>

text \<open>
  \<open>NanoTokens\<close> is a newtype over \<open>u64\<close>; it is kept at its width here, so that the
  unchecked addition at the end of \<open>from_str\<close> wraps as it does in a release build.
  The theory proves that printing and parsing are inverse, what a successful parse
  means, where the parser leaves the documented format, and the exactness of the checked
  operations. The error type of the whole transfers crate is here as well: a message
  built with \<open>format!\<close> is its template with the list of its arguments.
\<close>

datatype nano_tokens = NanoTokens (as_nano: u64)

instantiation nano_tokens :: linorder
begin

definition less_eq_nano_tokens :: "nano_tokens \<Rightarrow> nano_tokens \<Rightarrow> bool" where
  "a \<le> b \<longleftrightarrow> as_nano a \<le> as_nano b"

definition less_nano_tokens :: "nano_tokens \<Rightarrow> nano_tokens \<Rightarrow> bool" where
  "a < b \<longleftrightarrow> as_nano a < as_nano b"

instance
  by standard (auto simp: less_eq_nano_tokens_def less_nano_tokens_def nano_tokens.expand)

end

subsection \<open>Errors (sn\_transfers/src/error.rs)\<close>

datatype 'pk fmt_arg = ArgKey 'pk | ArgNum u64

datatype 'pk message = Message string "'pk fmt_arg list"

datatype 'pk transfer_error =
    LossOfNanoPrecision
  | ExcessiveNanoValue
  | FailedToParseNanoToken "'pk message"
  | InvalidSpendValue 'pk
  | InvalidParentSpend "'pk message"
  | DoubleSpentParent
  | InvalidSpendSignature 'pk
  | MainSecretKeyDoesNotMatchMainPubkey
  | MainPubkeyMismatch
  | HexDeserializationFailed "'pk message"
  | HexSerializationFailed "'pk message"
  | CashNoteMissingAncestors
  | SpendsDoNotMatchInputs
  | NumericOverflow
  | NotEnoughBalance nano_tokens nano_tokens
  | CashNoteRedemptionSerialisationFailed
  | CashNoteRedemptionDecryptionFailed
  | CashNoteRedemptionEncryptionFailed
  | TransactionSerialization "'pk message"
  | InvalidUnsignedTransaction "'pk message"
  | ZeroOutputs
  | TransferSerializationFailed
  | TransferDeserializationFailed
  | Blsttc "'pk message"
  | UserNameDecryptFailed
  | InvalidDecryptionKey
  | DiscordNameCipherTooBig

subsection \<open>Constants and constructors\<close>

definition TOKEN_TO_RAW_POWER_OF_10_CONVERSION :: u32 where
  "TOKEN_TO_RAW_POWER_OF_10_CONVERSION = 9"

definition TOKEN_TO_RAW_CONVERSION :: u64 where
  "TOKEN_TO_RAW_CONVERSION = 1000000000"

definition nano_zero :: nano_tokens where
  "nano_zero = NanoTokens 0"

definition nano_is_zero :: "nano_tokens \<Rightarrow> bool" where
  "nano_is_zero t \<longleftrightarrow> as_nano t = 0"

definition nano_checked_add :: "nano_tokens \<Rightarrow> nano_tokens \<Rightarrow> nano_tokens option" where
  "nano_checked_add a b = map_option NanoTokens (checked_add (as_nano a) (as_nano b))"

definition nano_checked_sub :: "nano_tokens \<Rightarrow> nano_tokens \<Rightarrow> nano_tokens option" where
  "nano_checked_sub a b = map_option NanoTokens (checked_sub (as_nano a) (as_nano b))"

subsection \<open>\<open>FromStr\<close> and \<open>Display\<close>\<close>

definition from_str_units :: "string \<Rightarrow> ('pk transfer_error, u64) result" where
  "from_str_units s =
     and_then
       (ok_or (parse_uint s)
          (FailedToParseNanoToken (Message ''Can't parse token units'' [])))
       (\<lambda>units. ok_or (checked_mul units TOKEN_TO_RAW_CONVERSION) ExcessiveNanoValue)"

definition from_str_remainder :: "string option \<Rightarrow> ('pk transfer_error, u64) result" where
  "from_str_remainder rest =
     (let remainder_str = trim_end_zeros (case rest of None \<Rightarrow> [] | Some s \<Rightarrow> s)
      in if remainder_str = [] then Ok 0
         else and_then
                (ok_or (parse_uint remainder_str)
                   (FailedToParseNanoToken (Message ''Can't parse token remainder'' [])))
                (\<lambda>parsed_remainder.
                   and_then
                     (ok_or (checked_sub TOKEN_TO_RAW_POWER_OF_10_CONVERSION
                               (of_nat (length remainder_str)))
                        LossOfNanoPrecision)
                     (\<lambda>remainder_conversion.
                        Ok (parsed_remainder * 10 ^ unat remainder_conversion))))"

definition nano_from_str :: "string \<Rightarrow> ('pk transfer_error, nano_tokens) result" where
  "nano_from_str value_str =
     (case split_dot value_str of
        (units_str, rest) \<Rightarrow>
          and_then (from_str_units units_str) (\<lambda>converted_units.
          and_then (from_str_remainder rest) (\<lambda>remainder.
          Ok (NanoTokens (converted_units + remainder)))))"

definition nano_display :: "nano_tokens \<Rightarrow> string" where
  "nano_display t =
     (let unit = as_nano t div TOKEN_TO_RAW_CONVERSION;
          remainder = as_nano t mod TOKEN_TO_RAW_CONVERSION
      in show_nat (unat unit) @ CHR ''.'' # pad_zero 9 (show_nat (unat remainder)))"

subsection \<open>Helper lemmas\<close>

lemmas nano_conversion_defs =
  TOKEN_TO_RAW_POWER_OF_10_CONVERSION_def TOKEN_TO_RAW_CONVERSION_def

lemma nano_checked_add_Some_iff:
  "nano_checked_add a b = Some c \<longleftrightarrow> unat (as_nano c) = unat (as_nano a) + unat (as_nano b)"
  by (cases c) (auto simp: nano_checked_add_def checked_add_Some_iff)

lemma nano_checked_sub_Some_iff:
  "nano_checked_sub a b = Some c \<longleftrightarrow> unat (as_nano a) = unat (as_nano b) + unat (as_nano c)"
  by (cases c) (auto simp: nano_checked_sub_def checked_sub_Some_iff)

lemma u64_le_bound: "unat (x :: u64) < 2 ^ 64"
proof -
  have "unat x < 2 ^ LENGTH(64)" by (rule unsigned_less)
  then show ?thesis by simp
qed

lemma from_str_units_digits:
  assumes "u \<noteq> []" and "all_digits u" and "dec_val 0 u * 10 ^ 9 < 2 ^ 64"
  shows "from_str_units u = Ok (of_nat (dec_val 0 u * 10 ^ 9))"
proof -
  have small: "dec_val 0 u < 2 ^ 64" using assms(3) by simp
  then have p: "parse_uint u = Some (of_nat (dec_val 0 u) :: u64)"
    by (rule parse_uint_digits [OF assms(1,2)])
  have "unat (of_nat (dec_val 0 u) :: u64) = dec_val 0 u"
    using small by (simp add: unat_of_nat)
  then have "checked_mul (of_nat (dec_val 0 u)) TOKEN_TO_RAW_CONVERSION
      = Some (of_nat (dec_val 0 u) * TOKEN_TO_RAW_CONVERSION)"
    using assms(3) by (simp add: checked_mul_def nano_conversion_defs)
  with p show ?thesis by (simp add: from_str_units_def nano_conversion_defs)
qed

lemma from_str_units_overflow:
  assumes "u \<noteq> []" and "all_digits u" and "dec_val 0 u < 2 ^ 64"
    and "2 ^ 64 \<le> dec_val 0 u * 10 ^ 9"
  shows "from_str_units u = Err ExcessiveNanoValue"
proof -
  have p: "parse_uint u = Some (of_nat (dec_val 0 u) :: u64)"
    by (rule parse_uint_digits [OF assms(1,2,3)])
  have "unat (of_nat (dec_val 0 u) :: u64) = dec_val 0 u"
    using assms(3) by (simp add: unat_of_nat)
  then have "checked_mul (of_nat (dec_val 0 u)) TOKEN_TO_RAW_CONVERSION = None"
    using assms(4) by (simp add: checked_mul_def nano_conversion_defs)
  with p show ?thesis by (simp add: from_str_units_def)
qed

text \<open>
  A fraction of at most nine significant digits denotes its numerator scaled to nine
  digits; the trailing zeros that were trimmed do not change the value.
\<close>

lemma trimmed_value:
  "dec_val 0 f * 10 ^ length (trim_end_zeros f) = dec_val 0 (trim_end_zeros f) * 10 ^ length f"
proof -
  let ?t = "trim_end_zeros f" and ?k = "length f - length (trim_end_zeros f)"
  have f: "f = ?t @ replicate ?k zero_char" by (rule trim_end_zeros_decomp)
  have "length f = ?k + length ?t" using arg_cong [OF f, of length] by simp
  then have "(10 :: nat) ^ length f = 10 ^ ?k * 10 ^ length ?t" by (metis power_add)
  moreover have "dec_val 0 f = dec_val 0 ?t * 10 ^ ?k"
    using arg_cong [OF f, of "dec_val 0"] by (simp add: dec_val_append dec_val_replicate_zero)
  ultimately show ?thesis by simp
qed

lemma trim_end_zeros_digits: "all_digits f \<Longrightarrow> all_digits (trim_end_zeros f)"
  using trim_end_zeros_decomp [of f] by (metis all_digits_simps(3))

lemma from_str_remainder_digits:
  assumes "all_digits f" and len: "length (trim_end_zeros f) \<le> 9"
  shows "from_str_remainder (Some f) = Ok (of_nat (dec_val 0 f * 10 ^ 9 div 10 ^ length f))"
proof -
  let ?t = "trim_end_zeros f"
  have scale: "dec_val 0 f * 10 ^ 9 div 10 ^ length f = dec_val 0 ?t * 10 ^ (9 - length ?t)"
  proof -
    have "dec_val 0 f * 10 ^ 9 = dec_val 0 f * 10 ^ length ?t * 10 ^ (9 - length ?t)"
      using len by (simp add: mult.assoc power_add [symmetric])
    also have "\<dots> = dec_val 0 ?t * 10 ^ (9 - length ?t) * 10 ^ length f"
      by (simp add: trimmed_value)
    finally show ?thesis by simp
  qed
  show ?thesis
  proof (cases "?t = []")
    case True
    then show ?thesis using scale by (simp add: from_str_remainder_def)
  next
    case False
    have "dec_val 0 ?t < 10 ^ length ?t" by (rule dec_val_bound)
    also have "\<dots> \<le> 10 ^ 9" using len by (rule power_increasing) simp
    finally have "dec_val 0 ?t < 2 ^ 64" by simp
    then have p: "parse_uint ?t = Some (of_nat (dec_val 0 ?t) :: u64)"
      by (rule parse_uint_digits [OF False trim_end_zeros_digits [OF assms(1)]])
    have ul: "unat (of_nat (length ?t) :: u32) = length ?t"
      using len by (simp add: unat_of_nat)
    then have le: "(of_nat (length ?t) :: u32) \<le> 9"
      using len by (simp add: word_le_nat_alt)
    then have sub: "checked_sub TOKEN_TO_RAW_POWER_OF_10_CONVERSION (of_nat (length ?t))
        = Some (9 - of_nat (length ?t))"
      by (simp add: checked_sub_def nano_conversion_defs)
    have "unat (9 - of_nat (length ?t) :: u32) = 9 - length ?t"
      using le ul by (simp add: unat_sub)
    with p sub False scale show ?thesis
      by (simp add: from_str_remainder_def Let_def)
  qed
qed

lemma nano_from_str_join:
  assumes "all_digits u" and "(from_str_units u :: ('pk transfer_error, u64) result) = Ok a"
    and "(from_str_remainder (Some f) :: ('pk transfer_error, u64) result) = Ok b"
  shows "(nano_from_str (u @ CHR ''.'' # f) :: ('pk transfer_error, nano_tokens) result)
    = Ok (NanoTokens (a + b))"
  using assms by (simp add: nano_from_str_def split_dot_join)

lemmas digit_eval = digit_of_def to_digit_def char_code_def

lemmas nano_eval = nano_from_str_def split_dot_def from_str_units_def from_str_remainder_def
  trim_end_zeros_def parse_uint_def checked_mul_def checked_add_def checked_sub_def
  nano_conversion_defs

subsection \<open>Properties\<close>

text \<open>C28: Printing and parsing are inverse: \<open>NanoTokens::from_str\<close> reads every string that
  \<open>Display\<close> writes back to the same amount, for all \<open>2^64\<close> amounts.
\<close>

theorem nano_from_str_display:
  "nano_from_str (nano_display t) = (Ok t :: ('pk transfer_error, nano_tokens) result)"
proof -
  let ?n = "unat (as_nano t)"
  let ?u = "show_nat (?n div 10 ^ 9)" and ?f = "pad_zero 9 (show_nat (?n mod 10 ^ 9))"
  have disp: "nano_display t = ?u @ CHR ''.'' # ?f"
    by (simp add: nano_display_def nano_conversion_defs Let_def unat_div unat_mod)
  have "?n div 10 ^ 9 * 10 ^ 9 \<le> ?n" by simp
  with u64_le_bound [of "as_nano t"] have "?n div 10 ^ 9 * 10 ^ 9 < 2 ^ 64" by linarith
  then have units: "from_str_units ?u
      = (Ok (of_nat (?n div 10 ^ 9 * 10 ^ 9)) :: ('pk transfer_error, u64) result)"
    by (simp add: from_str_units_digits)
  have "length (show_nat (?n mod 10 ^ 9)) \<le> 9" by (rule show_nat_length) simp_all
  then have lf: "length ?f = 9" by (simp add: pad_zero_length)
  moreover have "length (trim_end_zeros ?f) \<le> length ?f"
    using arg_cong [OF trim_end_zeros_decomp [of ?f], of length] by simp
  ultimately have "length (trim_end_zeros ?f) \<le> 9" by simp
  then have "from_str_remainder (Some ?f)
      = (Ok (of_nat (dec_val 0 ?f * 10 ^ 9 div 10 ^ length ?f)) :: ('pk transfer_error, u64) result)"
    by (intro from_str_remainder_digits) simp_all
  then have rem: "from_str_remainder (Some ?f)
      = (Ok (of_nat (?n mod 10 ^ 9)) :: ('pk transfer_error, u64) result)"
    using lf by simp
  have "(of_nat (?n div 10 ^ 9 * 10 ^ 9) + of_nat (?n mod 10 ^ 9) :: u64) = of_nat ?n"
    by (metis div_mult_mod_eq of_nat_add)
  also have "\<dots> = as_nano t" by simp
  finally have "nano_from_str (?u @ CHR ''.'' # ?f)
      = (Ok (NanoTokens (as_nano t)) :: ('pk transfer_error, nano_tokens) result)"
    using nano_from_str_join [OF show_nat_digits units rem] by (simp only:)
  then show ?thesis by (simp only: disp nano_tokens.collapse)
qed

text \<open>Meaning of a well-formed amount: for digit strings \<open>u\<close> and \<open>f\<close> with at most nine
  significant fractional digits and a whole part that fits, \<open>from_str\<close> returns
  \<open>u * 10^9\<close> plus the fraction scaled to nine digits, reduced modulo \<open>2^64\<close>.
\<close>

theorem nano_from_str_value:
  assumes "u \<noteq> []" and "all_digits u" and "all_digits f"
    and "length (trim_end_zeros f) \<le> 9" and "dec_val 0 u * 10 ^ 9 < 2 ^ 64"
  shows "nano_from_str (u @ CHR ''.'' # f)
    = Ok (NanoTokens (of_nat (dec_val 0 u * 10 ^ 9 + dec_val 0 f * 10 ^ 9 div 10 ^ length f)))"
proof -
  show ?thesis
    using nano_from_str_join [OF assms(2) from_str_units_digits [OF assms(1,2,5)]
        from_str_remainder_digits [OF assms(3,4)]]
    by (simp only: of_nat_add)
qed

text \<open>Witness for C2: the amount \<open>1.25\<close>.\<close>

theorem nano_from_str_value_witness:
  "nano_from_str (''1'' @ CHR ''.'' # ''25'')
     = (Ok (NanoTokens 1250000000) :: (nat transfer_error, nano_tokens) result)"
proof -
  have "length (trim_end_zeros ''25'') \<le> 9" by (simp add: trim_end_zeros_def)
  moreover have "all_digits ''1''" and "all_digits ''25''" by (simp_all add: digit_eval)
  moreover have "dec_val 0 ''1'' * 10 ^ 9 < 2 ^ 64" by (simp add: digit_eval)
  ultimately have "nano_from_str (''1'' @ CHR ''.'' # ''25'') = (Ok (NanoTokens (of_nat
      (dec_val 0 ''1'' * 10 ^ 9 + dec_val 0 ''25'' * 10 ^ 9 div 10 ^ length ''25'')))
      :: (nat transfer_error, nano_tokens) result)"
    by (intro nano_from_str_value) simp_all
  then show ?thesis by (simp add: digit_eval)
qed

text \<open>The parser accepts amounts above \<open>u64::MAX\<close> nanos: the final unchecked addition
  wraps, so \<open>18446744073.999999999\<close> becomes \<open>0.290448383\<close>; and a plus sign in the
  fraction is consumed as a digit position, so \<open>0.+5\<close> reads as \<open>0.05\<close>.
\<close>

theorem nano_from_str_wraps:
  "nano_from_str ''18446744073.999999999''
     = (Ok (NanoTokens 290448383) :: (nat transfer_error, nano_tokens) result)
   \<and> nano_from_str ''0.+5''
     = (Ok (NanoTokens 50000000) :: (nat transfer_error, nano_tokens) result)"
  by (simp add: nano_eval digit_eval Let_def del: dropWhile_eq_Nil_conv)

text \<open>Exactness of the checked operations: \<open>checked_add\<close> returns exactly the sum when it
  fits in 64 bits and nothing otherwise, and \<open>checked_sub\<close> undoes it.
\<close>

theorem nano_checked_arith:
  "(nano_checked_add a b = Some c \<longleftrightarrow> unat (as_nano c) = unat (as_nano a) + unat (as_nano b))
   \<and> (nano_checked_add a b = None \<longleftrightarrow> 2 ^ 64 \<le> unat (as_nano a) + unat (as_nano b))
   \<and> (nano_checked_add a b = Some c \<longleftrightarrow> nano_checked_sub c a = Some b)"
  by (auto simp: nano_checked_add_Some_iff nano_checked_sub_Some_iff)
    (simp_all add: nano_checked_add_def checked_add_None_iff)

end
