(* ===== verification/Keys.thy ===== *)
theory Keys
  imports Collections Nano_Tokens
begin

unbundle bit_operations_syntax

section \<open>Keys, hashes and spend reasons (sn\_transfers/src/cashnotes)\<close>

text \<open>
  The BLS library and the SHA3 hash are not part of the repository: they are the record
  \<open>bls_ops\<close> of the functions the code calls, an argument of every definition that uses
  them. A public key, a secret key and a signature are the word of the width of their
  canonical byte encoding (48, 32 and 96 bytes, most significant byte first), as are the
  fixed arrays \<open>[u8; 32]\<close> of hashes, names and derivation indexes; the order of the words is
  then the lexicographic order of the bytes. \<open>bls_correct\<close> names what the code relies on: a
  signature made with a key verifies under its public key, and deriving a child commutes
  with taking the public key. \<open>UniquePubkey\<close>, \<open>MainPubkey\<close>, \<open>DerivedSecretKey\<close> and
  \<open>MainSecretKey\<close> are newtypes over those keys and are written as synonyms.
\<close>

type_synonym bytes = "u8 list"
type_synonym public_key = "384 word"
type_synonym secret_key = "256 word"
type_synonym signature = "768 word"
type_synonym unique_pubkey = public_key
type_synonym main_pubkey = public_key
type_synonym derived_secret_key = secret_key
type_synonym main_secret_key = secret_key
type_synonym derivation_index = "256 word"
type_synonym xor_name = "256 word"
type_synonym hash_value = "256 word"

record bls_ops =
  sk_public_key :: "secret_key \<Rightarrow> public_key"
  sk_derive_child :: "secret_key \<Rightarrow> derivation_index \<Rightarrow> secret_key"
  pk_derive_child :: "public_key \<Rightarrow> derivation_index \<Rightarrow> public_key"
  sk_sign :: "secret_key \<Rightarrow> bytes \<Rightarrow> signature"
  pk_verify :: "public_key \<Rightarrow> signature \<Rightarrow> bytes \<Rightarrow> bool"
  sha3_256 :: "bytes \<Rightarrow> hash_value"

definition bls_correct :: "bls_ops \<Rightarrow> bool" where
  "bls_correct B \<longleftrightarrow>
     (\<forall>sk m. pk_verify B (sk_public_key B sk) (sk_sign B sk m) m)
     \<and> (\<forall>sk i. sk_public_key B (sk_derive_child B sk i) = pk_derive_child B (sk_public_key B sk) i)"

subsection \<open>Bytes of fixed-width values and of string literals\<close>

definition be_bytes :: "'a::len word \<Rightarrow> bytes" where
  "be_bytes w = map (\<lambda>i. ucast (drop_bit (8 * i) w)) (rev [0..<LENGTH('a) div 8])"

definition str_bytes :: "string \<Rightarrow> bytes" where
  "str_bytes s = map of_char s"

lemma be_bytes_length [simp]: "length (be_bytes (w :: 'a::len word)) = LENGTH('a) div 8"
  by (simp add: be_bytes_def)

lemma be_bytes_inj:
  assumes "8 dvd LENGTH('a::len)"
  shows "be_bytes (v :: 'a word) = be_bytes w \<longleftrightarrow> v = w"
proof
  assume "be_bytes v = be_bytes w"
  then have eq: "map (\<lambda>i. ucast (drop_bit (8 * i) v) :: u8) [0..<LENGTH('a) div 8]
      = map (\<lambda>i. ucast (drop_bit (8 * i) w)) [0..<LENGTH('a) div 8]"
    by (simp add: be_bytes_def rev_map [symmetric])
  have "bit v n = bit w n" if n: "n < LENGTH('a)" for n
  proof -
    have i: "n div 8 < LENGTH('a) div 8" using n assms by (auto elim!: dvdE)
    with eq have "(ucast (drop_bit (8 * (n div 8)) v) :: u8) = ucast (drop_bit (8 * (n div 8)) w)"
      by simp
    then have "bit (ucast (drop_bit (8 * (n div 8)) v) :: u8) (n mod 8)
        = bit (ucast (drop_bit (8 * (n div 8)) w) :: u8) (n mod 8)" by simp
    then show ?thesis by (simp add: bit_ucast_iff bit_drop_bit_eq)
  qed
  then show "v = w" by (intro bit_word_eqI) simp
qed simp

lemma bls_sign_verifies:
  "bls_correct B \<Longrightarrow> pk_verify B (sk_public_key B sk) (sk_sign B sk m) m"
  by (simp add: bls_correct_def)

lemma bls_derive_commutes:
  "bls_correct B \<Longrightarrow>
     sk_public_key B (sk_derive_child B sk i) = pk_derive_child B (sk_public_key B sk) i"
  by (simp add: bls_correct_def)

subsection \<open>unique\_keys.rs\<close>

definition new_unique_pubkey :: "bls_ops \<Rightarrow> main_pubkey \<Rightarrow> derivation_index \<Rightarrow> unique_pubkey" where
  "new_unique_pubkey B pk index = pk_derive_child B pk index"

definition main_pubkey_of :: "bls_ops \<Rightarrow> main_secret_key \<Rightarrow> main_pubkey" where
  "main_pubkey_of B sk = sk_public_key B sk"

definition derive_key :: "bls_ops \<Rightarrow> main_secret_key \<Rightarrow> derivation_index \<Rightarrow> derived_secret_key" where
  "derive_key B sk index = sk_derive_child B sk index"

definition derived_unique_pubkey :: "bls_ops \<Rightarrow> derived_secret_key \<Rightarrow> unique_pubkey" where
  "derived_unique_pubkey B sk = sk_public_key B sk"

text \<open>The owner's derived secret key belongs to the key a payer derives from the public one.\<close>

lemma derived_key_matches:
  "bls_correct B \<Longrightarrow>
     derived_unique_pubkey B (derive_key B sk i) = new_unique_pubkey B (main_pubkey_of B sk) i"
  by (simp add: derived_unique_pubkey_def derive_key_def new_unique_pubkey_def
      main_pubkey_of_def bls_derive_commutes)

subsection \<open>spend\_reason.rs and hash.rs\<close>

record discord_name_cipher =
  cipher_len :: u8
  cipher :: bytes

datatype spend_reason =
    NoReason
  | NetworkData xor_name
  | Custom "512 word"
  | BetaRewardTracking discord_name_cipher

definition hash_default :: hash_value where
  "hash_default = 0"

definition hash_hash :: "bls_ops \<Rightarrow> bytes \<Rightarrow> hash_value" where
  "hash_hash B input = sha3_256 B input"

fun spend_reason_hash :: "bls_ops \<Rightarrow> spend_reason \<Rightarrow> hash_value" where
  "spend_reason_hash B NoReason = hash_default"
| "spend_reason_hash B (NetworkData xor_name) = hash_hash B (be_bytes xor_name)"
| "spend_reason_hash B (Custom bs) = hash_hash B (be_bytes bs)"
| "spend_reason_hash B (BetaRewardTracking c) = hash_hash B (cipher c)"

text \<open>\<open>to_ne_bytes\<close> on a little-endian target.\<close>

definition nano_to_bytes :: "nano_tokens \<Rightarrow> bytes" where
  "nano_to_bytes t = rev (be_bytes (as_nano t))"

lemma nano_to_bytes_length [simp]: "length (nano_to_bytes t) = 8"
  by (simp add: nano_to_bytes_def)

lemma nano_to_bytes_inj [simp]: "nano_to_bytes s = nano_to_bytes t \<longleftrightarrow> s = t"
  by (cases s; cases t) (simp add: nano_to_bytes_def be_bytes_inj)

subsection \<open>An instance of the library's interface\<close>

text \<open>A signature scheme without security that satisfies \<open>bls_correct\<close>: the public key is
  the secret key and a child is the exclusive or with the index. It shows that the
  hypotheses on the library can hold, and is evaluated in the examples.\<close>

definition xor_bls :: bls_ops where
  "xor_bls = \<lparr> sk_public_key = ucast,
               sk_derive_child = (\<lambda>sk i. sk XOR i),
               pk_derive_child = (\<lambda>pk i. pk XOR ucast i),
               sk_sign = (\<lambda>sk m. ucast sk),
               pk_verify = (\<lambda>pk sig m. ucast sig = pk),
               sha3_256 = (\<lambda>m. fold (\<lambda>b h. h * 257 + ucast b + 1) m 0) \<rparr>"

lemma xor_bls_simps [simp]:
  "sk_public_key xor_bls sk = ucast sk"
  "sk_derive_child xor_bls sk i = sk XOR i"
  "pk_derive_child xor_bls pk i = pk XOR ucast i"
  "sk_sign xor_bls sk m = ucast sk"
  "pk_verify xor_bls pk sig m \<longleftrightarrow> ucast sig = pk"
  by (simp_all add: xor_bls_def)

lemma xor_bls_correct [simp]: "bls_correct xor_bls"
  unfolding bls_correct_def xor_bls_simps
  by (auto intro!: bit_word_eqI simp: bit_ucast_iff bit_xor_iff)

end
