(* ===== verification/Spends.thy ===== *)
theory Spends
  imports Keys "HOL-Library.Product_Lexorder"
begin

section \<open>Spends and cash notes (signed\_spend.rs, cashnote.rs)\<close>

text \<open>
  \<open>Spend\<close>, \<open>SignedSpend\<close> and \<open>CashNote\<close> with all their operations. The sums over amounts are
  on \<open>u64\<close> and wrap, as the unchecked \<open>+=\<close> and \<open>sum()\<close> of the source do in a release build.
  A \<open>BTreeSet<SignedSpend>\<close> is a list ordered by the pair of the key and the signature: the
  order of a \<open>Spend\<close> is the order of its key only.
\<close>

record spend =
  sp_unique_pubkey :: unique_pubkey
  sp_reason :: spend_reason
  sp_ancestors :: "unique_pubkey list"
  sp_descendants :: "(unique_pubkey, nano_tokens) btree_map"
  sp_royalties :: "derivation_index list"

record signed_spend =
  ss_spend :: spend
  derived_key_sig :: signature

record cash_note =
  parent_spends :: "signed_spend list"
  cn_main_pubkey :: main_pubkey
  cn_derivation_index :: derivation_index

type_synonym t_error = "unique_pubkey transfer_error"

subsection \<open>\<open>Spend\<close>\<close>

definition to_bytes_for_signing :: "bls_ops \<Rightarrow> spend \<Rightarrow> bytes" where
  "to_bytes_for_signing B s =
     be_bytes (sp_unique_pubkey s)
     @ be_bytes (spend_reason_hash B (sp_reason s))
     @ str_bytes ''ancestors''
     @ concat (map be_bytes (sp_ancestors s))
     @ str_bytes ''descendants''
     @ concat (map (\<lambda>(descendant, amount). be_bytes descendant @ nano_to_bytes amount)
                 (sp_descendants s))
     @ str_bytes ''royalties''
     @ concat (map be_bytes (sp_royalties s))"

definition spend_hash :: "bls_ops \<Rightarrow> spend \<Rightarrow> hash_value" where
  "spend_hash B s = hash_hash B (to_bytes_for_signing B s)"

definition spend_amount :: "spend \<Rightarrow> nano_tokens" where
  "spend_amount s = NanoTokens (sum_list (map (\<lambda>(_, amount). as_nano amount) (sp_descendants s)))"

definition get_output_amount :: "spend \<Rightarrow> unique_pubkey \<Rightarrow> nano_tokens option" where
  "get_output_amount s target = map_of (sp_descendants s) target"

text \<open>The result is a \<open>BTreeSet\<close> of triples; every key occurs once in it, so the order of the
  triples is the order of the keys, which is the order of the descendants.\<close>

definition network_royalties ::
    "bls_ops \<Rightarrow> main_pubkey \<Rightarrow> spend \<Rightarrow> (unique_pubkey \<times> nano_tokens \<times> derivation_index) list" where
  "network_royalties B network_royalties_pk s =
     (let roy_pks = fold (\<lambda>di. bmap_insert (new_unique_pubkey B network_royalties_pk di) di)
                      (sp_royalties s) []
      in List.map_filter
           (\<lambda>(pk, amount). map_option (\<lambda>di. (pk, amount, di)) (map_of roy_pks pk))
           (sp_descendants s))"

subsection \<open>\<open>SignedSpend\<close>\<close>

definition ss_unique_pubkey :: "signed_spend \<Rightarrow> unique_pubkey" where
  "ss_unique_pubkey s = sp_unique_pubkey (ss_spend s)"

definition ss_amount :: "signed_spend \<Rightarrow> nano_tokens" where
  "ss_amount s = spend_amount (ss_spend s)"

definition signed_spend_key :: "signed_spend \<Rightarrow> unique_pubkey \<times> signature" where
  "signed_spend_key s = (ss_unique_pubkey s, derived_key_sig s)"

definition signed_spend_sign :: "bls_ops \<Rightarrow> spend \<Rightarrow> derived_secret_key \<Rightarrow> signed_spend" where
  "signed_spend_sign B s sk =
     \<lparr> ss_spend = s, derived_key_sig = sk_sign B sk (to_bytes_for_signing B s) \<rparr>"

definition signed_spend_to_bytes :: "bls_ops \<Rightarrow> signed_spend \<Rightarrow> bytes" where
  "signed_spend_to_bytes B s =
     to_bytes_for_signing B (ss_spend s) @ be_bytes (derived_key_sig s)"

definition signed_spend_verify :: "bls_ops \<Rightarrow> signed_spend \<Rightarrow> (t_error, unit) result" where
  "signed_spend_verify B s =
     (if pk_verify B (ss_unique_pubkey s) (derived_key_sig s) (to_bytes_for_signing B (ss_spend s))
      then Ok () else Err (InvalidSpendSignature (ss_unique_pubkey s)))"

definition parents_by_key :: "signed_spend list \<Rightarrow> (unique_pubkey, signed_spend list) btree_map" where
  "parents_by_key parents =
     fold (\<lambda>s m. bmap_insert (ss_unique_pubkey s)
                   (case_option [] id (map_of m (ss_unique_pubkey s)) @ [s]) m)
       parents []"

fun sum_parents ::
    "unique_pubkey \<Rightarrow> (unique_pubkey, signed_spend list) btree_map \<Rightarrow> u64 \<Rightarrow> (t_error, u64) result" where
  "sum_parents unique_key [] total_inputs = Ok total_inputs"
| "sum_parents unique_key ((_, spends) # rest) total_inputs =
     (if length spends > 1 then Err DoubleSpentParent
      else case spends of
             [] \<Rightarrow> sum_parents unique_key rest total_inputs
           | parent # _ \<Rightarrow>
               (case get_output_amount (ss_spend parent) unique_key of
                  Some amount \<Rightarrow> sum_parents unique_key rest (total_inputs + as_nano amount)
                | None \<Rightarrow>
                    Err (InvalidParentSpend
                      (Message ''Parent spend doesn't contain self spend as one of its output''
                         [ArgKey (ss_unique_pubkey parent), ArgKey unique_key]))))"

definition verify_parent_spends ::
    "signed_spend \<Rightarrow> signed_spend list \<Rightarrow> (t_error, unit) result" where
  "verify_parent_spends s parents =
     and_then (sum_parents (ss_unique_pubkey s) (parents_by_key parents) 0) (\<lambda>total_inputs.
       let total_outputs = as_nano (ss_amount s)
       in if total_outputs \<noteq> total_inputs
          then Err (InvalidParentSpend
                 (Message ''Parents total input value doesn't match Spend's value''
                    [ArgNum total_inputs, ArgNum total_outputs]))
          else Ok ())"

subsection \<open>\<open>CashNote\<close>\<close>

definition cn_unique_pubkey :: "bls_ops \<Rightarrow> cash_note \<Rightarrow> unique_pubkey" where
  "cn_unique_pubkey B cn = new_unique_pubkey B (cn_main_pubkey cn) (cn_derivation_index cn)"

definition cn_derived_key ::
    "bls_ops \<Rightarrow> cash_note \<Rightarrow> main_secret_key \<Rightarrow> (t_error, derived_secret_key) result" where
  "cn_derived_key B cn main_key =
     (if main_pubkey_of B main_key \<noteq> cn_main_pubkey cn
      then Err MainSecretKeyDoesNotMatchMainPubkey
      else Ok (derive_key B main_key (cn_derivation_index cn)))"

definition cn_derived_pubkey ::
    "bls_ops \<Rightarrow> cash_note \<Rightarrow> main_pubkey \<Rightarrow> (t_error, unique_pubkey) result" where
  "cn_derived_pubkey B cn main_pubkey =
     (if main_pubkey \<noteq> cn_main_pubkey cn
      then Err MainPubkeyMismatch
      else Ok (new_unique_pubkey B main_pubkey (cn_derivation_index cn)))"

definition output_amount_or_zero :: "unique_pubkey \<Rightarrow> signed_spend \<Rightarrow> u64" where
  "output_amount_or_zero key p =
     as_nano (case get_output_amount (ss_spend p) key of Some a \<Rightarrow> a | None \<Rightarrow> nano_zero)"

definition cn_value :: "bls_ops \<Rightarrow> cash_note \<Rightarrow> nano_tokens" where
  "cn_value B cn =
     NanoTokens (fold (\<lambda>p total_amount. total_amount
                         + output_amount_or_zero (cn_unique_pubkey B cn) p)
                   (parent_spends cn) 0)"

definition cn_hash :: "bls_ops \<Rightarrow> cash_note \<Rightarrow> hash_value" where
  "cn_hash B cn =
     sha3_256 B (be_bytes (cn_main_pubkey cn) @ be_bytes (cn_derivation_index cn)
       @ concat (map (signed_spend_to_bytes B) (parent_spends cn)))"

definition cn_verify :: "bls_ops \<Rightarrow> cash_note \<Rightarrow> (t_error, unit) result" where
  "cn_verify B cn =
     (if parent_spends cn = [] then Err CashNoteMissingAncestors
      else if \<not> list_all (\<lambda>p. get_output_amount (ss_spend p) (cn_unique_pubkey B cn) \<noteq> None)
                 (parent_spends cn)
      then Err (InvalidParentSpend
             (Message ''Parent spends refered in CashNote do not refer to its pubkey as an output''
                [ArgKey (cn_unique_pubkey B cn)]))
      else Ok ())"

subsection \<open>Grouping the parents by key\<close>

lemma parents_by_key_snoc:
  "parents_by_key (ps @ [s]) =
     bmap_insert (ss_unique_pubkey s)
       (case_option [] id (map_of (parents_by_key ps) (ss_unique_pubkey s)) @ [s])
       (parents_by_key ps)"
  by (simp add: parents_by_key_def)

lemma parents_by_key_inv: "bmap_inv (parents_by_key ps)"
  by (induction ps rule: rev_induct)
    (simp_all add: parents_by_key_snoc bmap_insert_inv parents_by_key_def [of "[]"])

lemma parents_by_key_get:
  "map_of (parents_by_key ps) k =
     (if k \<in> ss_unique_pubkey ` set ps
      then Some (filter (\<lambda>s. ss_unique_pubkey s = k) ps) else None)"
proof (induction ps rule: rev_induct)
  case Nil
  then show ?case by (simp add: parents_by_key_def)
next
  case (snoc s ps)
  have "filter (\<lambda>s'. ss_unique_pubkey s' = k) ps = []" if "k \<notin> ss_unique_pubkey ` set ps"
    using that by (auto simp: filter_empty_conv)
  with snoc show ?case by (auto simp: parents_by_key_snoc)
qed

lemma bmap_insert_push_concat:
  assumes "bmap_inv m"
  shows "mset (concat (map snd (bmap_insert k (case_option [] id (map_of m k) @ [s]) m)))
     = add_mset s (mset (concat (map snd m)))"
  using assms
proof (induction m)
  case Nil
  then show ?case by simp
next
  case (Cons a m)
  obtain k' v where a: "a = (k', v)" by (cases a)
  have inv: "bmap_inv m" and less: "\<forall>x \<in> fst ` set m. k' < x"
    using Cons.prems a by (auto simp: bmap_inv_def)
  consider "k < k'" | "k = k'" | "k' < k" by (rule linorder_cases)
  then show ?case
  proof cases
    case 1
    then have "k \<notin> fst ` set m" using less by auto
    then have "map_of m k = None" by (simp add: map_of_eq_None_iff)
    then show ?thesis using a 1 by auto
  next
    case 2
    then show ?thesis using a by simp
  next
    case 3
    then have "\<not> k < k'" and "k \<noteq> k'" by auto
    then show ?thesis using Cons.IH [OF inv] a by simp
  qed
qed

lemma parents_by_key_concat: "mset (concat (map snd (parents_by_key ps))) = mset ps"
proof (induction ps rule: rev_induct)
  case Nil
  then show ?case by (simp add: parents_by_key_def)
next
  case (snoc s ps)
  have "mset (concat (map snd (parents_by_key (ps @ [s]))))
      = add_mset s (mset (concat (map snd (parents_by_key ps))))"
    unfolding parents_by_key_snoc by (rule bmap_insert_push_concat [OF parents_by_key_inv])
  with snoc show ?case by simp
qed

lemma parents_by_key_group:
  assumes "(k, ss) \<in> set (parents_by_key ps)"
  shows "ss = filter (\<lambda>s. ss_unique_pubkey s = k) ps" and "ss \<noteq> []"
proof -
  have "map_of (parents_by_key ps) k = Some ss"
    using assms bmap_inv_distinct [OF parents_by_key_inv] by (simp add: map_of_eq_Some_iff)
  then have k: "k \<in> ss_unique_pubkey ` set ps"
    and ss: "ss = filter (\<lambda>s. ss_unique_pubkey s = k) ps"
    by (simp_all add: parents_by_key_get split: if_splits)
  show "ss = filter (\<lambda>s. ss_unique_pubkey s = k) ps" by (rule ss)
  show "ss \<noteq> []" using k ss by (auto simp: filter_empty_conv)
qed

lemma filter_le_one_iff_distinct:
  "(\<forall>k. length (filter (\<lambda>x. f x = k) xs) \<le> 1) \<longleftrightarrow> distinct (map f xs)"
proof (induction xs)
  case Nil
  then show ?case by simp
next
  case (Cons x xs)
  have fresh: "length (filter (\<lambda>y. f y = f x) (x # xs)) \<le> 1 \<longleftrightarrow> f x \<notin> f ` set xs"
    by (auto simp: filter_empty_conv image_iff)
  show ?case
  proof
    assume le: "\<forall>k. length (filter (\<lambda>y. f y = k) (x # xs)) \<le> 1"
    then have "f x \<notin> f ` set xs" using fresh by blast
    moreover have "length (filter (\<lambda>y. f y = k) xs) \<le> 1" for k
      using le [rule_format, of k] by (simp split: if_splits)
    ultimately show "distinct (map f (x # xs))" using Cons.IH by simp
  next
    assume d: "distinct (map f (x # xs))"
    then have le: "\<forall>k. length (filter (\<lambda>y. f y = k) xs) \<le> 1" and "f x \<notin> f ` set xs"
      using Cons.IH by simp_all
    then have "length (filter (\<lambda>y. f y = f x) (x # xs)) \<le> 1" using fresh by blast
    then show "\<forall>k. length (filter (\<lambda>y. f y = k) (x # xs)) \<le> 1"
      using le by auto
  qed
qed

lemma parents_by_key_single_iff:
  "(\<forall>(k, ss) \<in> set (parents_by_key ps). length ss \<le> 1) \<longleftrightarrow> distinct (map ss_unique_pubkey ps)"
  unfolding filter_le_one_iff_distinct [symmetric]
proof
  assume le: "\<forall>(k, ss) \<in> set (parents_by_key ps). length ss \<le> 1"
  show "\<forall>k. length (filter (\<lambda>s. ss_unique_pubkey s = k) ps) \<le> 1"
  proof
    fix k
    show "length (filter (\<lambda>s. ss_unique_pubkey s = k) ps) \<le> 1"
    proof (cases "k \<in> ss_unique_pubkey ` set ps")
      case True
      then have "map_of (parents_by_key ps) k = Some (filter (\<lambda>s. ss_unique_pubkey s = k) ps)"
        by (simp add: parents_by_key_get)
      then have "(k, filter (\<lambda>s. ss_unique_pubkey s = k) ps) \<in> set (parents_by_key ps)"
        by (rule map_of_SomeD)
      with le show ?thesis by auto
    next
      case False
      then have "filter (\<lambda>s. ss_unique_pubkey s = k) ps = []" by (auto simp: filter_empty_conv)
      then show ?thesis by simp
    qed
  qed
next
  assume "\<forall>k. length (filter (\<lambda>s. ss_unique_pubkey s = k) ps) \<le> 1"
  then show "\<forall>(k, ss) \<in> set (parents_by_key ps). length ss \<le> 1"
    using parents_by_key_group(1) by blast
qed

lemma sum_parents_ok_iff:
  "sum_parents key m acc = Ok t \<longleftrightarrow>
     (\<forall>(k, ss) \<in> set m. length ss \<le> 1
        \<and> (\<forall>p \<in> set ss. get_output_amount (ss_spend p) key \<noteq> None))
     \<and> t = acc + sum_list (map (output_amount_or_zero key) (concat (map snd m)))"
proof (induction key m acc rule: sum_parents.induct)
  case (1 unique_key total_inputs)
  then show ?case by auto
next
  case (2 unique_key k spends rest total_inputs)
  consider "spends = []" | p where "spends = [p]" | "length spends > 1"
    by (cases spends rule: remdups_adj.cases) auto
  then show ?case
  proof cases
    case 1
    then show ?thesis using "2.IH"(1) by auto
  next
    case 2
    then show ?thesis using "2.IH"(2)
      by (cases "get_output_amount (ss_spend p) unique_key")
        (auto simp: output_amount_or_zero_def add.assoc)
  next
    case 3
    then show ?thesis by auto
  qed
qed

lemma verify_parent_spends_ok_iff:
  "verify_parent_spends s ps = Ok () \<longleftrightarrow>
     distinct (map ss_unique_pubkey ps)
     \<and> list_all (\<lambda>p. get_output_amount (ss_spend p) (ss_unique_pubkey s) \<noteq> None) ps
     \<and> sum_list (map (output_amount_or_zero (ss_unique_pubkey s)) ps) = as_nano (ss_amount s)"
proof -
  let ?m = "parents_by_key ps" and ?key = "ss_unique_pubkey s"
  have sum: "sum_list (map (output_amount_or_zero ?key) (concat (map snd ?m)))
      = sum_list (map (output_amount_or_zero ?key) ps)"
    by (metis mset_map parents_by_key_concat sum_mset_sum_list)
  have "set (concat (map snd ?m)) = set ps"
    by (metis parents_by_key_concat set_mset_mset)
  then have all: "(\<forall>(k, ss) \<in> set ?m. \<forall>p \<in> set ss. get_output_amount (ss_spend p) ?key \<noteq> None)
      \<longleftrightarrow> (\<forall>p \<in> set ps. get_output_amount (ss_spend p) ?key \<noteq> None)"
    by fastforce
  have "verify_parent_spends s ps = Ok ()
      \<longleftrightarrow> sum_parents ?key ?m 0 = Ok (as_nano (ss_amount s))"
    by (cases "sum_parents ?key ?m 0") (auto simp: verify_parent_spends_def Let_def)
  also have "\<dots> \<longleftrightarrow> (\<forall>(k, ss) \<in> set ?m. length ss \<le> 1)
      \<and> (\<forall>(k, ss) \<in> set ?m. \<forall>p \<in> set ss. get_output_amount (ss_spend p) ?key \<noteq> None)
      \<and> as_nano (ss_amount s) = sum_list (map (output_amount_or_zero ?key) ps)"
    unfolding sum_parents_ok_iff sum by auto
  finally show ?thesis
    unfolding all parents_by_key_single_iff list_all_iff by metis
qed

subsection \<open>Exact totals\<close>

definition parents_total :: "unique_pubkey \<Rightarrow> signed_spend list \<Rightarrow> nat" where
  "parents_total key ps = sum_list (map (\<lambda>p. unat (output_amount_or_zero key p)) ps)"

definition outputs_total :: "spend \<Rightarrow> nat" where
  "outputs_total s = sum_list (map (\<lambda>(_, amount). unat (as_nano amount)) (sp_descendants s))"

lemma unat_sum_list: "unat (sum_list ws) = sum_list (map unat ws) mod 2 ^ 64"
  for ws :: "u64 list"
  by (induction ws) (simp_all add: unat_word_ariths mod_simps)

lemma unat_spend_amount: "unat (as_nano (spend_amount s)) = outputs_total s mod 2 ^ 64"
  by (simp add: spend_amount_def outputs_total_def unat_sum_list comp_def case_prod_unfold)

lemma unat_parents_sum:
  "unat (sum_list (map (output_amount_or_zero key) ps)) = parents_total key ps mod 2 ^ 64"
  by (simp add: parents_total_def unat_sum_list comp_def)

lemma fold_add_sum: "fold (\<lambda>x t. t + f x) xs a = a + sum_list (map f xs)"
  for a :: u64
  by (induction xs arbitrary: a) (simp_all add: ac_simps)

lemma cn_value_sum:
  "as_nano (cn_value B cn)
     = sum_list (map (output_amount_or_zero (cn_unique_pubkey B cn)) (parent_spends cn))"
  by (simp add: cn_value_def fold_add_sum)

lemma unat_cn_value:
  "unat (as_nano (cn_value B cn))
     = parents_total (cn_unique_pubkey B cn) (parent_spends cn) mod 2 ^ 64"
  unfolding cn_value_sum by (rule unat_parents_sum)

subsection \<open>Properties\<close>

text \<open>C10: the check of a spend against its parents succeeds exactly when no two parents have
  the same key, every parent pays the spend, and the total the parents pay equals the total
  of the spend's outputs modulo the width of \<open>u64\<close>.\<close>

theorem verify_parent_spends_exact:
  "verify_parent_spends s ps = Ok () \<longleftrightarrow>
     distinct (map ss_unique_pubkey ps)
     \<and> list_all (\<lambda>p. get_output_amount (ss_spend p) (ss_unique_pubkey s) \<noteq> None) ps
     \<and> parents_total (ss_unique_pubkey s) ps mod 2 ^ 64 = outputs_total (ss_spend s) mod 2 ^ 64"
  unfolding verify_parent_spends_ok_iff
  by (simp only: word_unat_eq_iff unat_parents_sum ss_amount_def unat_spend_amount)

text \<open>The signed bytes determine the spend. For spends with as many ancestors, descendants
  and royalties, the bytes are equal exactly when the key, the hash of the reason and the
  three lists are, so that a signature for one cannot be moved to another.\<close>

theorem to_bytes_for_signing_inj:
  assumes "length (sp_ancestors s) = length (sp_ancestors t)"
    and "length (sp_descendants s) = length (sp_descendants t)"
    and "length (sp_royalties s) = length (sp_royalties t)"
  shows "to_bytes_for_signing B s = to_bytes_for_signing B t \<longleftrightarrow>
     sp_unique_pubkey s = sp_unique_pubkey t
     \<and> spend_reason_hash B (sp_reason s) = spend_reason_hash B (sp_reason t)
     \<and> sp_ancestors s = sp_ancestors t \<and> sp_descendants s = sp_descendants t
     \<and> sp_royalties s = sp_royalties t"
proof -
  let ?d = "\<lambda>(k :: unique_pubkey, a). be_bytes k @ nano_to_bytes a"
  have len: "length (concat (map f xs)) = length (concat (map f ys))"
    if "length xs = length ys" and "\<And>x. length (f x) = n"
    for f :: "'x \<Rightarrow> bytes" and xs ys and n
  proof -
    have "length (concat (map f zs)) = length zs * n" for zs
      using that(2) by (induction zs) simp_all
    with that(1) show ?thesis by simp
  qed
  have inj: "concat (map f xs) = concat (map f ys) \<longleftrightarrow> xs = ys"
    if "length xs = length ys" and "\<And>x. length (f x) = n" and "\<And>x y. f x = f y \<longleftrightarrow> x = y"
    for f :: "'x \<Rightarrow> bytes" and xs ys and n
  proof -
    have "concat (map f xs) = concat (map f ys) \<longleftrightarrow> map f xs = map f ys"
      by (rule concat_eq_concat_iff) (use that in \<open>auto simp: set_zip\<close>)
    also have "\<dots> \<longleftrightarrow> xs = ys"
      by (rule inj_map_eq_map) (simp add: inj_def that(3))
    finally show ?thesis .
  qed
  have dlen: "length (?d x) = 56" for x by (simp split: prod.split)
  have dinj: "?d x = ?d y \<longleftrightarrow> x = y" for x y
    by (simp add: be_bytes_inj split: prod.split)
  show ?thesis
    unfolding to_bytes_for_signing_def
    using len [OF assms(1), of be_bytes 48] len [OF assms(2), of ?d 56, OF dlen]
      inj [OF assms(1), of be_bytes 48] inj [OF assms(2), of ?d 56, OF dlen dinj]
      inj [OF assms(3), of be_bytes 32]
    by (simp add: be_bytes_inj)
qed

definition example_spend :: "nat \<Rightarrow> spend" where
  "example_spend n = \<lparr> sp_unique_pubkey = 5, sp_reason = NoReason, sp_ancestors = [3],
     sp_descendants = [(8, NanoTokens (of_nat n))], sp_royalties = [] \<rparr>"

theorem to_bytes_for_signing_inj_witness:
  "to_bytes_for_signing xor_bls (example_spend 1) \<noteq> to_bytes_for_signing xor_bls (example_spend 2)"
  using to_bytes_for_signing_inj [of "example_spend 1" "example_spend 2" xor_bls]
  by (simp add: example_spend_def)

end
