(* ===== verification/Transactions.thy ===== *)
theory Transactions
  imports Spends
begin

section \<open>Transactions (unsigned\_transaction.rs, signed\_transaction.rs)\<close>

text \<open>
  \<open>UnsignedTransaction::new\<close> distributes the value of the sorted inputs over the outputs. Its
  two nested loops are \<open>distribute_input\<close> (the \<open>while\<close>) and \<open>distribute_inputs\<close> (the \<open>for\<close>),
  over a cursor that holds \<open>current_output\<close>, the rest of the iterator and
  \<open>current_output_remaining_value\<close>. The random derivation index of the change is drawn at
  most once, since the loops end with it, and is the argument \<open>change_index\<close>.
  The loops are proved to refine a specification on natural numbers (\<open>give\<close>, \<open>give_all\<close>),
  from which the properties of the transaction follow.
\<close>

type_synonym recipient = "nano_tokens \<times> main_pubkey \<times> derivation_index \<times> bool"
type_synonym tx_output = "cash_note \<times> nano_tokens \<times> bool"
type_synonym donations = "(unique_pubkey, nano_tokens) btree_map"

record unsigned_transaction =
  output_cashnotes_without_spends :: "cash_note list"
  change_cashnote_without_spends :: "cash_note option"
  ut_spends :: "(spend \<times> derivation_index) list"

record signed_transaction =
  output_cashnotes :: "cash_note list"
  change_cashnote :: "cash_note option"
  st_spends :: "signed_spend list"

record out_cursor =
  current_output :: "tx_output option"
  current_output_remaining_value :: u64
  outputs_iter :: "tx_output list"

subsection \<open>\<open>UnsignedTransaction::new\<close>\<close>

fun next_output :: "tx_output list \<Rightarrow> out_cursor" where
  "next_output [] =
     \<lparr> current_output = None, current_output_remaining_value = 0, outputs_iter = [] \<rparr>"
| "next_output ((cn, amount, royalty) # rest) =
     \<lparr> current_output = Some (cn, amount, royalty),
       current_output_remaining_value = as_nano amount, outputs_iter = rest \<rparr>"

definition cursor_size :: "out_cursor \<Rightarrow> nat" where
  "cursor_size c = (case current_output c of None \<Rightarrow> 0 | Some _ \<Rightarrow> Suc (length (outputs_iter c)))"

lemma cursor_size_next [simp]: "cursor_size (next_output os) = length os"
  by (cases os rule: next_output.cases) (simp_all add: cursor_size_def)

function distribute_input ::
    "bls_ops \<Rightarrow> main_pubkey \<Rightarrow> derivation_index \<Rightarrow> u64 \<Rightarrow> out_cursor \<Rightarrow> donations
      \<Rightarrow> derivation_index list
      \<Rightarrow> out_cursor \<times> donations \<times> derivation_index list \<times> cash_note option" where
  "distribute_input B change_to change_index input_remaining_value c donate_to royalties =
     (if input_remaining_value > 0 then
        (case current_output c of
           Some (out, _, is_royalty) \<Rightarrow>
             (let amount_to_take = min input_remaining_value (current_output_remaining_value c);
                  remaining = current_output_remaining_value c - amount_to_take;
                  output_key = cn_unique_pubkey B out
              in distribute_input B change_to change_index
                   (input_remaining_value - amount_to_take)
                   (if remaining = 0 then next_output (outputs_iter c)
                    else c \<lparr> current_output_remaining_value := remaining \<rparr>)
                   (bmap_insert output_key (NanoTokens amount_to_take) donate_to)
                   (if is_royalty then royalties @ [cn_derivation_index out] else royalties))
         | None \<Rightarrow>
             (let change_key = new_unique_pubkey B change_to change_index;
                  change_amount = NanoTokens input_remaining_value
              in (c,
                  bmap_insert change_key change_amount
                    (bmap_insert change_key (NanoTokens input_remaining_value) donate_to),
                  royalties,
                  Some \<lparr> parent_spends = [], cn_main_pubkey = change_to,
                         cn_derivation_index = change_index \<rparr>)))
      else (c, donate_to, royalties, None))"
  by pat_completeness auto

termination
proof (relation "measures [\<lambda>(B, ct, ci, n, c, d, r). cursor_size c,
    \<lambda>(B, ct, ci, n, c, d, r). unat n]", goal_cases)
  case 1
  then show ?case by simp
next
  case (2 B ct ci n c d r a out b b' is_royalty amount_to_take remaining output_key)
  have size: "cursor_size c = Suc (length (outputs_iter c))"
    using 2 by (simp add: cursor_size_def)
  show ?case
  proof (cases "remaining = 0")
    case True
    then show ?thesis using size by simp
  next
    case False
    then have "amount_to_take = n"
      using 2 by (auto simp: min_def split: if_splits)
    then have "n - amount_to_take = 0" by simp
    then show ?thesis using 2 False by (simp add: cursor_size_def unat_gt_0)
  qed
qed

declare distribute_input.simps [simp del]

fun distribute_inputs ::
    "bls_ops \<Rightarrow> main_pubkey \<Rightarrow> derivation_index \<Rightarrow> spend_reason \<Rightarrow> cash_note list \<Rightarrow> out_cursor
      \<Rightarrow> (spend \<times> derivation_index) list \<times> cash_note option" where
  "distribute_inputs B change_to change_index reason [] c = ([], None)"
| "distribute_inputs B change_to change_index reason (input # inputs) c =
     (case distribute_input B change_to change_index (as_nano (cn_value B input)) c [] [] of
        (c', donate_to, royalties, change_cn) \<Rightarrow>
          (let s = \<lparr> sp_unique_pubkey = cn_unique_pubkey B input,
                     sp_reason = reason,
                     sp_ancestors = bset_of id (map ss_unique_pubkey (parent_spends input)),
                     sp_descendants = donate_to,
                     sp_royalties = royalties \<rparr>
           in case change_cn of
                Some cn \<Rightarrow> ([(s, cn_derivation_index input)], Some cn)
              | None \<Rightarrow>
                  (case distribute_inputs B change_to change_index reason inputs c' of
                     (spends, change) \<Rightarrow> ((s, cn_derivation_index input) # spends, change))))"

definition make_outputs :: "recipient list \<Rightarrow> tx_output list" where
  "make_outputs recipients =
     map (\<lambda>(amount, main_pk, derivation_index, is_royalty).
            (\<lparr> parent_spends = [], cn_main_pubkey = main_pk,
               cn_derivation_index = derivation_index \<rparr>, amount, is_royalty))
       recipients"

definition big_to_small :: "bls_ops \<Rightarrow> cash_note list \<Rightarrow> cash_note list" where
  "big_to_small B notes = sort_key (\<lambda>cn. - int (unat (as_nano (cn_value B cn)))) notes"

definition unsigned_new ::
    "bls_ops \<Rightarrow> derivation_index \<Rightarrow> cash_note list \<Rightarrow> recipient list \<Rightarrow> main_pubkey \<Rightarrow> spend_reason
      \<Rightarrow> (t_error, unsigned_transaction) result" where
  "unsigned_new B change_index available_cash_notes recipients change_to reason =
     and_then
       (ok_or (try_fold (\<lambda>total (amount, _). nano_checked_add total amount) nano_zero recipients)
          ExcessiveNanoValue)
       (\<lambda>total_output_amount.
          if total_output_amount = nano_zero
             \<or> list_ex (\<lambda>(amount, _). as_nano amount = 0) recipients
          then Err ZeroOutputs
          else and_then
            (ok_or (try_fold nano_checked_add nano_zero (map (cn_value B) available_cash_notes))
               ExcessiveNanoValue)
            (\<lambda>total_input_amount.
               if total_output_amount > total_input_amount
               then Err (NotEnoughBalance total_input_amount total_output_amount)
               else (let outs = make_outputs recipients
                     in case distribute_inputs B change_to change_index reason
                               (big_to_small B available_cash_notes) (next_output outs) of
                          (spends, change_cn) \<Rightarrow>
                            Ok \<lparr> output_cashnotes_without_spends = map fst outs,
                                 change_cashnote_without_spends = change_cn,
                                 ut_spends = spends \<rparr>)))"

subsection \<open>\<open>UnsignedTransaction::sign\<close> and \<open>SignedTransaction\<close>\<close>

definition attach_parents :: "bls_ops \<Rightarrow> signed_spend list \<Rightarrow> cash_note \<Rightarrow> cash_note" where
  "attach_parents B signed_spends cn =
     (let us = cn_unique_pubkey B cn
      in cn \<lparr> parent_spends :=
           bset_of signed_spend_key
             (filter (\<lambda>ss. list_ex (\<lambda>(k, _). k = us) (sp_descendants (ss_spend ss)))
                signed_spends) \<rparr>)"

definition unsigned_sign ::
    "bls_ops \<Rightarrow> unsigned_transaction \<Rightarrow> main_secret_key \<Rightarrow> (t_error, signed_transaction) result" where
  "unsigned_sign B tx sk =
     (let signed_spends =
            bset_of signed_spend_key
              (map (\<lambda>(s, derivation_index). signed_spend_sign B s (derive_key B sk derivation_index))
                 (ut_spends tx))
      in Ok \<lparr> output_cashnotes =
                map (attach_parents B signed_spends) (output_cashnotes_without_spends tx),
              change_cashnote =
                map_option (attach_parents B signed_spends) (change_cashnote_without_spends tx),
              st_spends = signed_spends \<rparr>)"

definition signed_new ::
    "bls_ops \<Rightarrow> derivation_index \<Rightarrow> cash_note list \<Rightarrow> recipient list \<Rightarrow> main_pubkey \<Rightarrow> spend_reason
      \<Rightarrow> main_secret_key \<Rightarrow> (t_error, signed_transaction) result" where
  "signed_new B change_index available_cash_notes recipients change_to reason main_key =
     and_then (unsigned_new B change_index available_cash_notes recipients change_to reason)
       (\<lambda>tx. unsigned_sign B tx main_key)"

definition signed_tx_verify :: "bls_ops \<Rightarrow> signed_transaction \<Rightarrow> (t_error, unit) result" where
  "signed_tx_verify B tx =
     and_then (try_for_each (cn_verify B) (output_cashnotes tx)) (\<lambda>_.
     and_then (case change_cashnote tx of Some cn \<Rightarrow> cn_verify B cn | None \<Rightarrow> Ok ()) (\<lambda>_.
     try_for_each (signed_spend_verify B) (st_spends tx)))"

subsection \<open>\<open>UnsignedTransaction::verify\<close>\<close>

definition tx_cash_notes :: "unsigned_transaction \<Rightarrow> cash_note list" where
  "tx_cash_notes tx =
     output_cashnotes_without_spends tx
     @ (case change_cashnote_without_spends tx of None \<Rightarrow> [] | Some cn \<Rightarrow> [cn])"

fun insert_all_unique ::
    "string \<Rightarrow> unique_pubkey list \<Rightarrow> unique_pubkey list \<Rightarrow> (t_error, unique_pubkey list) result" where
  "insert_all_unique msg [] seen = Ok seen"
| "insert_all_unique msg (u # us) seen =
     (if u \<in> set seen then Err (InvalidUnsignedTransaction (Message msg [ArgKey u]))
      else insert_all_unique msg us (bset_insert id u seen))"

definition amounts_by_unique_pubkey ::
    "(spend \<times> derivation_index) list \<Rightarrow> (unique_pubkey, u64) btree_map" where
  "amounts_by_unique_pubkey spends =
     fold (\<lambda>(s, _) m.
             fold (\<lambda>(k, v) m.
                     bmap_insert k
                       (case map_of m k of Some t \<Rightarrow> t + as_nano v | None \<Rightarrow> as_nano v) m)
               (sp_descendants s) m)
       spends []"

definition unsigned_verify :: "bls_ops \<Rightarrow> unsigned_transaction \<Rightarrow> (t_error, unit) result" where
  "unsigned_verify B tx =
     (let input_sum = sum_list (map (\<lambda>(s, _). as_nano (spend_amount s)) (ut_spends tx));
          output_sum = sum_list (map (\<lambda>cn. as_nano (cn_value B cn)) (tx_cash_notes tx))
      in if input_sum \<noteq> output_sum
         then Err (InvalidUnsignedTransaction
                (Message ''Unbalanced transaction: input sum != output sum''
                   [ArgNum input_sum, ArgNum output_sum]))
         else
           and_then (insert_all_unique
               ''Spends are not unique in this transaction, there are multiple spends for''
               (map (\<lambda>(s, _). sp_unique_pubkey s) (ut_spends tx)) []) (\<lambda>seen.
           and_then (insert_all_unique
               ''Cash note unique pubkeys are not unique in this transaction''
               (map (cn_unique_pubkey B) (tx_cash_notes tx)) seen) (\<lambda>_.
           try_for_each
             (\<lambda>cn. let u = cn_unique_pubkey B cn;
                       expected_amount =
                         (case map_of (amounts_by_unique_pubkey (ut_spends tx)) u of
                            Some a \<Rightarrow> a | None \<Rightarrow> 0);
                       amount = as_nano (cn_value B cn)
                   in if expected_amount \<noteq> amount
                      then Err (InvalidUnsignedTransaction
                             (Message ''Invalid amount for CashNote''
                                [ArgKey u, ArgNum expected_amount, ArgNum amount]))
                      else Ok ())
             (tx_cash_notes tx))))"

definition spent_unique_keys :: "unsigned_transaction \<Rightarrow> (unique_pubkey \<times> nano_tokens) list" where
  "spent_unique_keys tx =
     bset_of id (map (\<lambda>(s, _). (sp_unique_pubkey s, spend_amount s)) (ut_spends tx))"

definition output_unique_keys :: "unsigned_transaction \<Rightarrow> (unique_pubkey \<times> nano_tokens) list" where
  "output_unique_keys tx = bset_of id (concat (map (\<lambda>(s, _). sp_descendants s) (ut_spends tx)))"

subsection \<open>The specification of the distribution\<close>

type_synonym shares = "(unique_pubkey \<times> nat) list"

text \<open>What an input of value \<open>n\<close> gives to the open demands, the demands left, and what is
  left of the input.\<close>

fun give :: "nat \<Rightarrow> shares \<Rightarrow> shares \<times> shares \<times> nat" where
  "give n [] = ([], [], n)"
| "give n ((k, d) # ds) =
     (if n = 0 then ([], (k, d) # ds, 0)
      else if n < d then ([(k, n)], (k, d - n) # ds, 0)
      else (case give (n - d) ds of (g, ds', l) \<Rightarrow> ((k, d) # g, ds', l)))"

fun give_all :: "nat list \<Rightarrow> shares \<Rightarrow> (shares \<times> nat) list" where
  "give_all [] ds = []"
| "give_all (n # ns) ds =
     (case give n ds of (g, ds', l) \<Rightarrow> (g, l) # (if l > 0 then [] else give_all ns ds'))"

definition share :: "shares \<Rightarrow> unique_pubkey \<Rightarrow> nat" where
  "share ds k = (case map_of ds k of None \<Rightarrow> 0 | Some a \<Rightarrow> a)"

lemma share_Nil [simp]: "share [] k = 0"
  by (simp add: share_def)

lemma share_Cons [simp]: "share ((k', a) # ds) k = (if k = k' then a else share ds k)"
  by (simp add: share_def)

lemma share_notin [simp]: "k \<notin> fst ` set ds \<Longrightarrow> share ds k = 0"
  using map_of_eq_None_iff [of ds k] by (simp add: share_def)

lemma share_le_sum: "share ds k \<le> sum_list (map snd ds)"
  by (induction ds) auto

lemma give_zero: "give 0 ds = ([], ds, 0)"
  by (cases ds) auto

lemma give_sums:
  assumes "give n ds = (g, ds', l)"
  shows "sum_list (map snd g) + l = n"
    and "sum_list (map snd g) + sum_list (map snd ds') = sum_list (map snd ds)"
    and "l > 0 \<Longrightarrow> ds' = []"
  using assms
  by (induction n ds arbitrary: g ds' l rule: give.induct) (auto split: if_splits prod.splits)

lemma give_keys:
  assumes "give n ds = (g, ds', l)"
  shows "fst ` set g \<subseteq> fst ` set ds \<and> fst ` set ds' \<subseteq> fst ` set ds"
  using assms
proof (induction n ds arbitrary: g ds' l rule: give.induct)
  case (1 n)
  then show ?case by simp
next
  case (2 n k d ds)
  show ?case
  proof (cases "n = 0 \<or> n < d")
    case True
    then show ?thesis using "2.prems" by (auto split: if_splits)
  next
    case False
    obtain g1 ds1 l1 where g1: "give (n - d) ds = (g1, ds1, l1)" by (cases "give (n - d) ds")
    with False "2.prems"(1) have "g = (k, d) # g1" "ds' = ds1" by auto
    with "2.IH" [OF _ _ g1] False show ?thesis by auto
  qed
qed

lemma give_distinct:
  assumes "give n ds = (g, ds', l)" and "distinct (map fst ds)"
  shows "distinct (map fst g) \<and> distinct (map fst ds')
     \<and> (\<forall>k. share g k + share ds' k = share ds k)"
  using assms
proof (induction n ds arbitrary: g ds' l rule: give.induct)
  case (1 n)
  then show ?case by simp
next
  case (2 n k d ds)
  show ?case
  proof (cases "n = 0 \<or> n < d")
    case True
    then show ?thesis using "2.prems" by (auto split: if_splits)
  next
    case False
    obtain g1 ds1 l1 where g1: "give (n - d) ds = (g1, ds1, l1)" by (cases "give (n - d) ds")
    with False "2.prems"(1) have eqs: "g = (k, d) # g1" "ds' = ds1" "l = l1" by auto
    have "k \<notin> fst ` set g1" and "k \<notin> fst ` set ds1"
      using give_keys [OF g1] "2.prems"(2) by auto
    moreover have "distinct (map fst g1) \<and> distinct (map fst ds1)
        \<and> (\<forall>k. share g1 k + share ds1 k = share ds k)"
      using "2.IH" False g1 "2.prems"(2) by simp
    ultimately show ?thesis using eqs by auto
  qed
qed

text \<open>If the inputs suffice, the gifts to a key add up to its demand.\<close>

lemma give_all_share:
  assumes "distinct (map fst ds)" and "sum_list (map snd ds) \<le> sum_list ns"
  shows "sum_list (map (\<lambda>(g, l). share g k) (give_all ns ds)) = share ds k"
  using assms
proof (induction ns arbitrary: ds)
  case Nil
  then show ?case using share_le_sum [of ds k] by (simp del: sum_list_eq_0_iff)
next
  case (Cons n ns)
  obtain g ds' l where g: "give n ds = (g, ds', l)" by (cases "give n ds")
  note d = give_distinct [OF g Cons.prems(1)]
  show ?case
  proof (cases "l > 0")
    case True
    then have "ds' = []" using give_sums(3) [OF g] by simp
    then show ?thesis using True g d by simp
  next
    case False
    then have "sum_list (map snd ds') \<le> sum_list ns"
      using give_sums(1,2) [OF g] Cons.prems(2) by simp
    then show ?thesis using Cons.IH [of ds'] False g d by simp
  qed
qed

text \<open>Every used input is given away entirely.\<close>

lemma give_all_exhausts:
  "list_all2 (\<lambda>(g, l) n. sum_list (map snd g) + l = n) (give_all ns ds)
     (take (length (give_all ns ds)) ns)"
  by (induction ns ds rule: give_all.induct) (auto split: prod.splits dest: give_sums(1))

lemma give_all_length: "length (give_all ns ds) \<le> length ns"
  by (induction ns ds rule: give_all.induct) (auto split: prod.splits)

lemma give_all_Cons_mem:
  assumes "x \<in> set (give_all (n # ns) ds)"
  obtains g ds' l where "give n ds = (g, ds', l)"
    and "x = (g, l) \<or> x \<in> set (give_all ns ds')"
proof -
  obtain g ds' l where g: "give n ds = (g, ds', l)" by (cases "give n ds")
  moreover have "x = (g, l) \<or> x \<in> set (give_all ns ds')"
    using assms g by (simp split: if_splits)
  ultimately show ?thesis by (rule that)
qed

lemma give_all_shares:
  assumes "(g, l) \<in> set (give_all ns ds)"
  shows "fst ` set g \<subseteq> fst ` set ds \<and> (distinct (map fst ds) \<longrightarrow> distinct (map fst g))"
  using assms
proof (induction ns arbitrary: ds)
  case Nil
  then show ?case by simp
next
  case (Cons n ns)
  from Cons.prems obtain g' ds' l' where g: "give n ds = (g', ds', l')"
    and or: "(g, l) = (g', l') \<or> (g, l) \<in> set (give_all ns ds')" by (rule give_all_Cons_mem)
  from or show ?case
  proof
    assume "(g, l) = (g', l')"
    then show ?thesis using give_keys [OF g] give_distinct [OF g] by simp
  next
    assume "(g, l) \<in> set (give_all ns ds')"
    then have "fst ` set g \<subseteq> fst ` set ds' \<and> (distinct (map fst ds') \<longrightarrow> distinct (map fst g))"
      by (rule Cons.IH)
    moreover have "fst ` set ds' \<subseteq> fst ` set ds"
      and "distinct (map fst ds) \<longrightarrow> distinct (map fst ds')"
      using give_keys [OF g] give_distinct [OF g] by simp_all
    ultimately show ?thesis by (meson subset_trans)
  qed
qed

subsection \<open>The loops refine the specification\<close>

definition out_demand :: "bls_ops \<Rightarrow> tx_output \<Rightarrow> unique_pubkey \<times> nat" where
  "out_demand B = (\<lambda>(out, amount, _). (cn_unique_pubkey B out, unat (as_nano amount)))"

definition demands_of :: "bls_ops \<Rightarrow> out_cursor \<Rightarrow> shares" where
  "demands_of B c =
     (case current_output c of
        None \<Rightarrow> []
      | Some (out, _, _) \<Rightarrow>
          (cn_unique_pubkey B out, unat (current_output_remaining_value c))
          # map (out_demand B) (outputs_iter c))"

definition donate_all :: "shares \<Rightarrow> donations \<Rightarrow> donations" where
  "donate_all g d = fold (\<lambda>(k, a). bmap_insert k (NanoTokens (of_nat a))) g d"

definition with_change :: "unique_pubkey \<Rightarrow> nat \<Rightarrow> shares \<Rightarrow> shares" where
  "with_change k l g = g @ (if l > 0 then [(k, l)] else [])"

lemma demands_of_next [simp]: "demands_of B (next_output os) = map (out_demand B) os"
  by (cases os rule: next_output.cases) (simp_all add: demands_of_def out_demand_def)

lemma unat_min: "unat (min a b) = min (unat a) (unat b)" for a b :: u64
  by (simp add: min_def word_le_nat_alt)

lemma unat_minus_le: "b \<le> a \<Longrightarrow> unat (a - b) = unat a - unat b" for a b :: u64
  by (simp add: unat_sub)

lemma distribute_input_refines:
  assumes "distribute_input B ct ci n c d r = (c', d', r', ch)"
    and "give (unat n) (demands_of B c) = (g, ds', l)"
  shows "demands_of B c' = ds'
     \<and> d' = donate_all (with_change (new_unique_pubkey B ct ci) l g) d
     \<and> ch = (if l > 0 then Some \<lparr> parent_spends = [], cn_main_pubkey = ct,
                                    cn_derivation_index = ci \<rparr> else None)"
  using assms
proof (induction B ct ci n c d r arbitrary: c' d' r' ch g ds' l rule: distribute_input.induct)
  case (1 B ct ci n c d r)
  show ?case
  proof (cases "n = 0")
    case True
    then show ?thesis using "1.prems"
      by (simp add: distribute_input.simps give_zero with_change_def donate_all_def)
  next
    case n: False
    then have pos: "unat n \<noteq> 0" by (simp add: unat_eq_zero)
    show ?thesis
    proof (cases "current_output c")
      case None
      with n have "demands_of B c = []" and "unat n > 0"
        by (simp_all add: demands_of_def unat_gt_0)
      with None n "1.prems" show ?thesis
        by (auto simp: distribute_input.simps [of _ _ _ _ c] with_change_def donate_all_def
            word_neq_0_conv)
    next
      case (Some out3)
      obtain out a roy where out3: "out3 = (out, a, roy)" by (cases out3)
      let ?rem = "current_output_remaining_value c"
      let ?take = "min n ?rem"
      let ?c = "if ?rem - ?take = 0 then next_output (outputs_iter c)
        else c \<lparr> current_output_remaining_value := ?rem - ?take \<rparr>"
      have dem: "demands_of B c
          = (cn_unique_pubkey B out, unat ?rem) # map (out_demand B) (outputs_iter c)"
        using Some out3 by (simp add: demands_of_def)
      obtain g1 ds1 l1 where g1: "give (unat (n - ?take)) (demands_of B ?c) = (g1, ds1, l1)"
        by (cases "give (unat (n - ?take)) (demands_of B ?c)")
      have rec: "distribute_input B ct ci (n - ?take) ?c
          (bmap_insert (cn_unique_pubkey B out) (NanoTokens ?take) d)
          (if roy then r @ [cn_derivation_index out] else r) = (c', d', r', ch)"
        using "1.prems"(1) Some out3 n
        by (simp add: distribute_input.simps [of _ _ _ n] Let_def word_neq_0_conv)
      have g: "g = (cn_unique_pubkey B out, unat ?take) # g1 \<and> ds' = ds1 \<and> l = l1"
      proof (cases "n < ?rem")
        case True
        then have "?take = n" and "?rem - ?take \<noteq> 0" by auto
        moreover have "unat n < unat ?rem" using True by (simp add: word_less_nat_alt)
        moreover have "unat (?rem - n) = unat ?rem - unat n"
          using True by (simp add: unat_minus_le)
        ultimately show ?thesis
          using g1 "1.prems"(2) dem pos Some out3
          by (simp add: give_zero demands_of_def)
      next
        case False
        then have "?take = ?rem" by auto
        moreover have "\<not> unat n < unat ?rem" using False by (simp add: word_less_nat_alt)
        moreover have "unat (n - ?rem) = unat n - unat ?rem"
          using False by (simp add: unat_minus_le)
        ultimately show ?thesis
          using g1 "1.prems"(2) dem pos by simp
      qed
      have "demands_of B c' = ds1
          \<and> d' = donate_all (with_change (new_unique_pubkey B ct ci) l1 g1)
               (bmap_insert (cn_unique_pubkey B out) (NanoTokens ?take) d)
          \<and> ch = (if l1 > 0 then Some \<lparr> parent_spends = [], cn_main_pubkey = ct,
                                         cn_derivation_index = ci \<rparr> else None)"
        using "1.IH" [OF _ Some out3 [symmetric] refl refl refl refl] rec g1 n
        by (simp add: word_neq_0_conv)
      then show ?thesis using g by (simp add: with_change_def donate_all_def)
    qed
  qed
qed

definition spend_matches ::
    "bls_ops \<Rightarrow> spend_reason \<Rightarrow> unique_pubkey \<Rightarrow> spend \<times> derivation_index
      \<Rightarrow> cash_note \<times> shares \<times> nat \<Rightarrow> bool" where
  "spend_matches B reason change_key = (\<lambda>(s, di) (cn, g, l).
     sp_unique_pubkey s = cn_unique_pubkey B cn \<and> di = cn_derivation_index cn
     \<and> sp_reason s = reason
     \<and> sp_ancestors s = bset_of id (map ss_unique_pubkey (parent_spends cn))
     \<and> sp_descendants s = donate_all (with_change change_key l g) [])"

abbreviation note_value :: "bls_ops \<Rightarrow> cash_note \<Rightarrow> nat" where
  "note_value B cn \<equiv> unat (as_nano (cn_value B cn))"

abbreviation change_note :: "main_pubkey \<Rightarrow> derivation_index \<Rightarrow> cash_note" where
  "change_note ct ci \<equiv>
     \<lparr> parent_spends = [], cn_main_pubkey = ct, cn_derivation_index = ci \<rparr>"

lemma distribute_inputs_refines:
  assumes "distribute_inputs B ct ci reason inputs c = (spends, ch)"
    and "give_all (map (note_value B) inputs) (demands_of B c) = rs"
  shows "list_all2 (spend_matches B reason (new_unique_pubkey B ct ci)) spends
           (zip (take (length rs) inputs) rs)
     \<and> ch = (if \<exists>(g, l) \<in> set rs. l > 0 then Some (change_note ct ci) else None)"
  using assms
proof (induction inputs arbitrary: c spends ch rs)
  case Nil
  then show ?case by auto
next
  case (Cons input inputs)
  obtain c' d' r' ch1 where di: "distribute_input B ct ci (as_nano (cn_value B input)) c [] []
      = (c', d', r', ch1)"
    by (cases "distribute_input B ct ci (as_nano (cn_value B input)) c [] []")
  obtain g ds' l where g: "give (note_value B input) (demands_of B c) = (g, ds', l)"
    by (cases "give (note_value B input) (demands_of B c)")
  note ref = distribute_input_refines [OF di g]
  show ?case
  proof (cases "l > 0")
    case True
    then show ?thesis using Cons.prems ref di g by (auto simp: Let_def spend_matches_def)
  next
    case False
    obtain spends1 ch2 where rec: "distribute_inputs B ct ci reason inputs c' = (spends1, ch2)"
      by (cases "distribute_inputs B ct ci reason inputs c'")
    have "give_all (map (note_value B) inputs) (demands_of B c')
        = give_all (map (note_value B) inputs) ds'"
      using ref by simp
    note IH = Cons.IH [OF rec this]
    have rs: "rs = (g, 0) # give_all (map (note_value B) inputs) ds'"
      using Cons.prems(2) g False by simp
    have "ch1 = None" using ref False by simp
    then have ch: "ch = ch2" and spends: "spends =
        (\<lparr> sp_unique_pubkey = cn_unique_pubkey B input, sp_reason = reason,
           sp_ancestors = bset_of id (map ss_unique_pubkey (parent_spends input)),
           sp_descendants = d', sp_royalties = r' \<rparr>, cn_derivation_index input) # spends1"
      using Cons.prems(1) di rec by (simp_all add: Let_def)
    show ?thesis unfolding rs spends ch using IH ref False by (simp add: spend_matches_def)
  qed
qed

subsection \<open>What a map of donations holds\<close>

lemma donate_all_Cons:
  "donate_all ((k, a) # g) d = donate_all g (bmap_insert k (NanoTokens (of_nat a)) d)"
  by (simp add: donate_all_def)

lemma donate_all_get:
  "distinct (map fst g) \<Longrightarrow>
     map_of (donate_all g d) k =
       (case map_of g k of Some a \<Rightarrow> Some (NanoTokens (of_nat a)) | None \<Rightarrow> map_of d k)"
proof (induction g arbitrary: d)
  case Nil
  then show ?case by (simp add: donate_all_def)
next
  case (Cons x g)
  obtain k' a where x: "x = (k', a)" by (cases x)
  have "map_of g k' = None" using Cons.prems x by (simp add: map_of_eq_None_iff)
  then show ?case using Cons x by (simp add: donate_all_Cons split: option.split)
qed

lemma donate_all_mset:
  "distinct (map fst g) \<Longrightarrow> fst ` set g \<inter> fst ` set d = {} \<Longrightarrow>
     mset (donate_all g d) = image_mset (\<lambda>(k, a). (k, NanoTokens (of_nat a))) (mset g) + mset d"
proof (induction g arbitrary: d)
  case Nil
  then show ?case by (simp add: donate_all_def)
next
  case (Cons x g)
  obtain k a where x: "x = (k, a)" by (cases x)
  let ?d = "bmap_insert k (NanoTokens (of_nat a)) d"
  have "mset (donate_all g ?d)
      = image_mset (\<lambda>(k, a). (k, NanoTokens (of_nat a))) (mset g) + mset ?d"
    using Cons.prems x by (intro Cons.IH) auto
  moreover have "mset ?d = add_mset (k, NanoTokens (of_nat a)) (mset d)"
    using Cons.prems x by (intro bmap_insert_fresh_mset) auto
  ultimately show ?case using x by (simp add: donate_all_Cons)
qed

lemma donate_all_inv: "bmap_inv d \<Longrightarrow> bmap_inv (donate_all g d)"
proof (induction g arbitrary: d)
  case (Cons x g)
  then show ?case by (cases x) (simp add: donate_all_Cons bmap_insert_inv)
qed (simp add: donate_all_def)

lemma donate_all_keys: "fst ` set (donate_all g d) = fst ` set g \<union> fst ` set d"
proof (induction g arbitrary: d)
  case (Cons x g)
  then show ?case by (cases x) (simp add: donate_all_Cons)
qed (simp add: donate_all_def)

lemma member_snd_le_sum: "(k, a) \<in> set g \<Longrightarrow> a \<le> sum_list (map snd g)" for a :: nat
  by (induction g) auto

definition spend_pays :: "spend \<Rightarrow> unique_pubkey \<Rightarrow> nat" where
  "spend_pays s k = (case get_output_amount s k of None \<Rightarrow> 0 | Some a \<Rightarrow> unat (as_nano a))"

lemma spend_pays_donate_all:
  assumes "sp_descendants s = donate_all g []" and "distinct (map fst g)"
    and "sum_list (map snd g) < 2 ^ 64"
  shows "spend_pays s k = share g k"
proof (cases "map_of g k")
  case None
  then show ?thesis
    using assms by (simp add: spend_pays_def get_output_amount_def donate_all_get share_def)
next
  case (Some a)
  then have "a \<le> sum_list (map snd g)" by (intro member_snd_le_sum) (rule map_of_SomeD)
  then have "unat (of_nat a :: u64) = a" using assms(3) by (intro unat_of_nat_u64) linarith
  then show ?thesis
    using assms Some by (simp add: spend_pays_def get_output_amount_def donate_all_get share_def)
qed

lemma outputs_total_donate_all:
  assumes "sp_descendants s = donate_all g []" and "distinct (map fst g)"
    and "sum_list (map snd g) < 2 ^ 64"
  shows "outputs_total s = sum_list (map snd g)"
proof -
  let ?h = "\<lambda>(k, a). (k :: unique_pubkey, NanoTokens (of_nat a))"
  have fit: "unat (of_nat a :: u64) = a" if "(k, a) \<in> set g" for k a
    using member_snd_le_sum [OF that] assms(3) by (intro unat_of_nat_u64) linarith
  have "outputs_total s
      = sum_mset (image_mset (\<lambda>(_, amount). unat (as_nano amount)) (mset (sp_descendants s)))"
    by (simp add: outputs_total_def sum_mset_sum_list [symmetric])
  also have "mset (sp_descendants s) = image_mset ?h (mset g)"
    using donate_all_mset [of g "[]"] assms(1,2) by simp
  also have "sum_mset (image_mset (\<lambda>(_, amount). unat (as_nano amount)) (image_mset ?h (mset g)))
      = sum_list (map (\<lambda>(k, a). unat (of_nat a :: u64)) g)"
    by (simp add: image_mset.compositionality comp_def case_prod_unfold
        sum_mset_sum_list [symmetric])
  also have "\<dots> = sum_list (map snd g)"
    using fit by (intro arg_cong [where f = sum_list] map_cong) auto
  finally show ?thesis .
qed

subsection \<open>The outcome of \<open>new\<close>\<close>

definition recipients_total :: "recipient list \<Rightarrow> nat" where
  "recipients_total rs = sum_list (map (\<lambda>(amount, _). unat (as_nano amount)) rs)"

definition notes_total :: "bls_ops \<Rightarrow> cash_note list \<Rightarrow> nat" where
  "notes_total B notes = sum_list (map (note_value B) notes)"

definition recipient_key :: "bls_ops \<Rightarrow> recipient \<Rightarrow> unique_pubkey" where
  "recipient_key B = (\<lambda>(_, main_pk, di, _). new_unique_pubkey B main_pk di)"

lemma nano_try_fold:
  "try_fold (\<lambda>t x. nano_checked_add t (f x)) (NanoTokens s) xs
     = map_option NanoTokens (try_fold (\<lambda>t x. checked_add t (as_nano (f x))) s xs)"
  by (induction xs arbitrary: s) (simp_all add: nano_checked_add_def split: option.split)

lemma nano_try_fold_total:
  "try_fold (\<lambda>t x. nano_checked_add t (f x)) nano_zero xs =
     (let n = sum_list (map (\<lambda>x. unat (as_nano (f x))) xs)
      in if n < 2 ^ 64 then Some (NanoTokens (of_nat n)) else None)"
proof -
  let ?n = "sum_list (map (\<lambda>x. unat (as_nano (f x))) xs)"
  let ?t = "try_fold (\<lambda>t x. checked_add t (as_nano (f x))) (0 :: u64) xs"
  have "?t = (if ?n < 2 ^ 64 then Some (of_nat ?n) else None)"
  proof (cases "?n < 2 ^ 64")
    case True
    have "unat (of_nat ?n :: u64) = ?n" by (rule unat_of_nat_u64 [OF True])
    then have "?t = Some (of_nat ?n)" by (simp add: try_fold_checked_add_Some_iff)
    with True show ?thesis by simp
  next
    case False
    then have "?t = None" by (simp add: try_fold_checked_add_None_iff)
    with False show ?thesis by simp
  qed
  then show ?thesis by (simp add: nano_zero_def nano_try_fold Let_def)
qed

definition built_tx ::
    "bls_ops \<Rightarrow> derivation_index \<Rightarrow> cash_note list \<Rightarrow> recipient list \<Rightarrow> main_pubkey \<Rightarrow> spend_reason
      \<Rightarrow> unsigned_transaction" where
  "built_tx B ci notes rs ct reason =
     (case distribute_inputs B ct ci reason (big_to_small B notes) (next_output (make_outputs rs)) of
        (spends, change_cn) \<Rightarrow>
          \<lparr> output_cashnotes_without_spends = map fst (make_outputs rs),
            change_cashnote_without_spends = change_cn, ut_spends = spends \<rparr>)"

lemma recipients_total_pos:
  "rs \<noteq> [] \<Longrightarrow> \<not> list_ex (\<lambda>(amount, _). as_nano amount = 0) rs \<Longrightarrow> 0 < recipients_total rs"
  by (cases rs) (auto simp: recipients_total_def unat_gt_0)

lemma unsigned_new_eq:
  "unsigned_new B ci notes rs ct reason =
     (if 2 ^ 64 \<le> recipients_total rs then Err ExcessiveNanoValue
      else if rs = [] \<or> list_ex (\<lambda>(amount, _). as_nano amount = 0) rs then Err ZeroOutputs
      else if 2 ^ 64 \<le> notes_total B notes then Err ExcessiveNanoValue
      else if notes_total B notes < recipients_total rs
      then Err (NotEnoughBalance (NanoTokens (of_nat (notes_total B notes)))
                  (NanoTokens (of_nat (recipients_total rs))))
      else Ok (built_tx B ci notes rs ct reason))"
proof (cases "2 ^ 64 \<le> recipients_total rs")
  case True
  then show ?thesis
    using nano_try_fold_total [of fst rs]
    by (simp add: unsigned_new_def recipients_total_def case_prod_unfold Let_def)
next
  case False
  let ?out = "NanoTokens (of_nat (recipients_total rs))"
  have out: "try_fold (\<lambda>total (amount, _). nano_checked_add total amount) nano_zero rs = Some ?out"
    using False nano_try_fold_total [of fst rs]
    by (simp add: recipients_total_def case_prod_unfold Let_def)
  have out_unat: "unat (of_nat (recipients_total rs) :: u64) = recipients_total rs"
    using False by (intro unat_of_nat_u64) simp
  show ?thesis
  proof (cases "rs = [] \<or> list_ex (\<lambda>(amount, _). as_nano amount = 0) rs")
    case True
    then show ?thesis
      using False out by (auto simp: unsigned_new_def recipients_total_def nano_zero_def)
  next
    case nz: False
    then have "0 < recipients_total rs" using recipients_total_pos [of rs] by blast
    then have "?out \<noteq> nano_zero" using out_unat by (auto simp: nano_zero_def)
    moreover have "try_fold nano_checked_add nano_zero (map (cn_value B) notes)
        = (if notes_total B notes < 2 ^ 64
           then Some (NanoTokens (of_nat (notes_total B notes))) else None)"
      using nano_try_fold_total [of "\<lambda>x. x" "map (cn_value B) notes"]
      by (simp add: notes_total_def Let_def comp_def)
    moreover have "unat (of_nat (notes_total B notes) :: u64) = notes_total B notes"
      if "notes_total B notes < 2 ^ 64"
      by (rule unat_of_nat_u64 [OF that])
    ultimately show ?thesis
      using False nz out out_unat
      by (auto simp: unsigned_new_def Let_def built_tx_def not_le less_nano_tokens_def
          word_less_nat_alt split: prod.splits)
  qed
qed

lemma unsigned_new_OkD:
  assumes "unsigned_new B ci notes rs ct reason = Ok tx"
  shows "tx = built_tx B ci notes rs ct reason" and "0 < recipients_total rs"
    and "recipients_total rs \<le> notes_total B notes" and "notes_total B notes < 2 ^ 64"
  using assms recipients_total_pos [of rs] unfolding unsigned_new_eq
  by (auto split: if_splits)

subsection \<open>What the built transaction pays\<close>

definition tx_shares :: "bls_ops \<Rightarrow> cash_note list \<Rightarrow> recipient list \<Rightarrow> (shares \<times> nat) list" where
  "tx_shares B notes rs =
     give_all (map (note_value B) (big_to_small B notes)) (map (out_demand B) (make_outputs rs))"

definition used_notes :: "bls_ops \<Rightarrow> unsigned_transaction \<Rightarrow> cash_note list \<Rightarrow> cash_note list" where
  "used_notes B tx notes = take (length (ut_spends tx)) (big_to_small B notes)"

definition received :: "unique_pubkey \<Rightarrow> (spend \<times> derivation_index) list \<Rightarrow> nat" where
  "received k spends = sum_list (map (\<lambda>(s, _). spend_pays s k) spends)"

lemma demand_keys: "map fst (map (out_demand B) (make_outputs rs)) = map (recipient_key B) rs"
  by (auto simp: make_outputs_def out_demand_def recipient_key_def cn_unique_pubkey_def)

lemma demand_total: "sum_list (map snd (map (out_demand B) (make_outputs rs))) = recipients_total rs"
  unfolding recipients_total_def
  by (intro arg_cong [where f = sum_list])
    (auto simp: make_outputs_def out_demand_def)

lemma demand_share:
  "distinct (map (recipient_key B) rs) \<Longrightarrow> r \<in> set rs \<Longrightarrow>
     share (map (out_demand B) (make_outputs rs)) (recipient_key B r) = unat (as_nano (fst r))"
proof (induction rs)
  case (Cons x rs)
  obtain a pk di roy where x: "x = (a, pk, di, roy)" by (cases x)
  have "share (map (out_demand B) (make_outputs (x # rs))) k
      = (if k = recipient_key B x then unat (as_nano a)
         else share (map (out_demand B) (make_outputs rs)) k)" for k
    using x by (simp add: make_outputs_def out_demand_def recipient_key_def cn_unique_pubkey_def)
  moreover have "recipient_key B r \<noteq> recipient_key B x" if "r \<in> set rs"
    using Cons.prems(1) imageI [OF that, of "recipient_key B"] by auto
  ultimately show ?case using Cons x by auto
qed simp

lemma big_to_small_total: "sum_list (map (note_value B) (big_to_small B notes)) = notes_total B notes"
proof -
  have "mset (map (note_value B) (big_to_small B notes)) = mset (map (note_value B) notes)"
    by (simp add: big_to_small_def)
  then show ?thesis unfolding notes_total_def by (metis sum_mset_sum_list)
qed

lemma big_to_small_set [simp]: "set (big_to_small B notes) = set notes"
  by (simp add: big_to_small_def)

lemma built_tx_matches:
  "list_all2 (spend_matches B reason (new_unique_pubkey B ct ci))
     (ut_spends (built_tx B ci notes rs ct reason))
     (zip (take (length (tx_shares B notes rs)) (big_to_small B notes)) (tx_shares B notes rs))
   \<and> change_cashnote_without_spends (built_tx B ci notes rs ct reason)
     = (if \<exists>(g, l) \<in> set (tx_shares B notes rs). l > 0 then Some (change_note ct ci) else None)
   \<and> output_cashnotes_without_spends (built_tx B ci notes rs ct reason)
     = map fst (make_outputs rs)"
proof -
  obtain spends ch where d: "distribute_inputs B ct ci reason (big_to_small B notes)
      (next_output (make_outputs rs)) = (spends, ch)"
    by (cases "distribute_inputs B ct ci reason (big_to_small B notes)
        (next_output (make_outputs rs))")
  have "give_all (map (note_value B) (big_to_small B notes))
      (demands_of B (next_output (make_outputs rs))) = tx_shares B notes rs"
    by (simp add: tx_shares_def)
  from distribute_inputs_refines [OF d this] d show ?thesis by (simp add: built_tx_def)
qed

lemma tx_shares_length: "length (tx_shares B notes rs) \<le> length notes"
  using give_all_length [of "map (note_value B) (big_to_small B notes)"
      "map (out_demand B) (make_outputs rs)"]
  by (simp add: tx_shares_def big_to_small_def)

lemma built_tx_length:
  "length (ut_spends (built_tx B ci notes rs ct reason)) = length (tx_shares B notes rs)"
  using conjunct1 [OF built_tx_matches [of B reason ct ci "notes" rs]] tx_shares_length [of B "notes" rs]
  by (auto dest!: list_all2_lengthD simp: big_to_small_def)

text \<open>The shares of a used note: their keys are distinct, and they add up to its value.\<close>

lemma tx_shares_exhaust:
  "list_all2 (\<lambda>(g, l) cn. sum_list (map snd g) + l = note_value B cn) (tx_shares B notes rs)
     (take (length (tx_shares B notes rs)) (big_to_small B notes))"
  using give_all_exhausts [of "map (note_value B) (big_to_small B notes)"
      "map (out_demand B) (make_outputs rs)"]
  by (simp add: tx_shares_def [symmetric] take_map list_all2_map2 case_prod_unfold)

lemma tx_share_distinct:
  assumes "distinct (new_unique_pubkey B ct ci # map (recipient_key B) rs)"
    and "(g, l) \<in> set (tx_shares B notes rs)"
  shows "distinct (map fst (with_change (new_unique_pubkey B ct ci) l g))"
proof -
  have "fst ` set g \<subseteq> fst ` set (map (out_demand B) (make_outputs rs))"
    and "distinct (map fst g)"
    using give_all_shares assms(1) assms(2) [unfolded tx_shares_def] demand_keys [of B rs]
    by (metis distinct.simps(2))+
  moreover have "fst ` set (map (out_demand B) (make_outputs rs)) = set (map (recipient_key B) rs)"
    unfolding demand_keys [symmetric] by (simp only: set_map)
  ultimately show ?thesis using assms(1) by (auto simp: with_change_def)
qed

lemma with_change_sum: "sum_list (map snd (with_change k l g)) = sum_list (map snd g) + l"
  by (simp add: with_change_def)

lemma tx_share_sum:
  assumes "(cn, g, l) \<in> set (zip (take (length (tx_shares B notes rs)) (big_to_small B notes))
    (tx_shares B notes rs))"
  shows "sum_list (map snd (with_change k l g)) = note_value B cn"
proof -
  have "((g, l), cn) \<in> set (zip (tx_shares B notes rs)
      (take (length (tx_shares B notes rs)) (big_to_small B notes)))"
    using assms by (auto simp: set_zip)
  then show ?thesis
    using tx_shares_exhaust [of B "notes" rs]
    by (auto simp: list_all2_iff with_change_sum)
qed

text \<open>The spends of the built transaction one by one.\<close>

lemma built_tx_spends:
  assumes "distinct (new_unique_pubkey B ct ci # map (recipient_key B) rs)"
  shows "list_all2 (\<lambda>(s, di) cn.
       sp_unique_pubkey s = cn_unique_pubkey B cn \<and> di = cn_derivation_index cn
       \<and> sp_ancestors s = bset_of id (map ss_unique_pubkey (parent_spends cn))
       \<and> outputs_total s = note_value B cn \<and> bmap_inv (sp_descendants s))
     (ut_spends (built_tx B ci notes rs ct reason))
     (take (length (tx_shares B notes rs)) (big_to_small B notes))"
proof -
  let ?sh = "tx_shares B notes rs" and ?ck = "new_unique_pubkey B ct ci"
  let ?used = "take (length ?sh) (big_to_small B notes)"
  let ?P = "\<lambda>(s, di) cn.
       sp_unique_pubkey s = cn_unique_pubkey B cn \<and> di = cn_derivation_index cn
       \<and> sp_ancestors s = bset_of id (map ss_unique_pubkey (parent_spends cn))
       \<and> outputs_total s = note_value B cn \<and> bmap_inv (sp_descendants s)"
  have fst_zip: "map fst (zip ?used ?sh) = ?used"
    using tx_shares_length [of B "notes" rs] by (simp add: big_to_small_def)
  have "list_all2 (\<lambda>x y. ?P x (fst y)) (ut_spends (built_tx B ci notes rs ct reason)) (zip ?used ?sh)"
  proof (rule list.rel_mono_strong [OF conjunct1 [OF built_tx_matches]])
    fix x y assume m: "spend_matches B reason ?ck x y" and "y \<in> set (zip ?used ?sh)"
    moreover obtain s di where x: "x = (s, di)" by (cases x)
    moreover obtain cn g l where y: "y = (cn, g, l)" by (cases y)
    ultimately have mem: "(cn, g, l) \<in> set (zip ?used ?sh)" by simp
    then have gl: "(g, l) \<in> set ?sh" by (rule set_zip_rightD)
    have d: "sp_descendants s = donate_all (with_change ?ck l g) []"
      using m x y by (simp add: spend_matches_def)
    have sum: "sum_list (map snd (with_change ?ck l g)) = note_value B cn"
      by (rule tx_share_sum [OF mem])
    have "outputs_total s = sum_list (map snd (with_change ?ck l g))"
      by (rule outputs_total_donate_all [OF d tx_share_distinct [OF assms gl]])
        (simp only: sum unat_u64_less)
    then show "?P x (fst y)"
      using m x y d sum by (simp add: spend_matches_def donate_all_inv)
  qed
  then have "list_all2 ?P (ut_spends (built_tx B ci notes rs ct reason)) (map fst (zip ?used ?sh))"
    by (simp add: list_all2_map2)
  then show ?thesis unfolding fst_zip .
qed

lemma built_tx_received:
  assumes "distinct (new_unique_pubkey B ct ci # map (recipient_key B) rs)"
  shows "received k (ut_spends (built_tx B ci notes rs ct reason))
    = sum_list (map (\<lambda>(g, l). share (with_change (new_unique_pubkey B ct ci) l g) k)
        (tx_shares B notes rs))"
proof -
  let ?sh = "tx_shares B notes rs" and ?ck = "new_unique_pubkey B ct ci"
  let ?used = "take (length ?sh) (big_to_small B notes)"
  have "map (\<lambda>(s, _). spend_pays s k) (ut_spends (built_tx B ci notes rs ct reason))
      = map (\<lambda>(cn, g, l). share (with_change ?ck l g) k) (zip ?used ?sh)"
  proof (rule list_all2_map_eq [OF conjunct1 [OF built_tx_matches]])
    fix x y assume m: "spend_matches B reason ?ck x y" and "y \<in> set (zip ?used ?sh)"
    moreover obtain s di where x: "x = (s, di)" by (cases x)
    moreover obtain cn g l where y: "y = (cn, g, l)" by (cases y)
    ultimately have mem: "(cn, g, l) \<in> set (zip ?used ?sh)" by simp
    then have gl: "(g, l) \<in> set ?sh" by (rule set_zip_rightD)
    have d: "sp_descendants s = donate_all (with_change ?ck l g) []"
      using m x y by (simp add: spend_matches_def)
    have "spend_pays s k = share (with_change ?ck l g) k"
      by (rule spend_pays_donate_all [OF d tx_share_distinct [OF assms gl]])
        (simp only: tx_share_sum [OF mem] unat_u64_less)
    then show "(\<lambda>(s, _). spend_pays s k) x = (\<lambda>(cn, g, l). share (with_change ?ck l g) k) y"
      using x y by simp
  qed
  also have "\<dots> = map (\<lambda>(g, l). share (with_change ?ck l g) k) (map snd (zip ?used ?sh))"
    by (simp add: case_prod_unfold)
  also have "map snd (zip ?used ?sh) = ?sh"
    using tx_shares_length [of B "notes" rs] by (simp add: big_to_small_def)
  finally show ?thesis by (simp add: received_def)
qed

lemma share_with_change: "k \<noteq> ck \<Longrightarrow> share (with_change ck l g) k = share g k"
  by (simp add: share_def with_change_def map_add_def split: option.split)

lemma share_change: "ck \<notin> fst ` set g \<Longrightarrow> share (with_change ck l g) ck = l"
  by (induction g) (auto simp: with_change_def share_def)

lemma built_tx_pays:
  assumes "distinct (new_unique_pubkey B ct ci # map (recipient_key B) rs)"
    and "recipients_total rs \<le> notes_total B notes" and "r \<in> set rs"
  shows "received (recipient_key B r) (ut_spends (built_tx B ci notes rs ct reason))
    = unat (as_nano (fst r))"
proof -
  let ?ds = "map (out_demand B) (make_outputs rs)" and ?k = "recipient_key B r"
  have "?k \<noteq> new_unique_pubkey B ct ci"
    using assms(1) imageI [OF assms(3), of "recipient_key B"] by auto
  then have "received ?k (ut_spends (built_tx B ci notes rs ct reason))
      = sum_list (map (\<lambda>(g, l). share g ?k) (tx_shares B notes rs))"
    unfolding built_tx_received [OF assms(1)] by (simp add: share_with_change)
  also have "\<dots> = share ?ds ?k"
    unfolding tx_shares_def
    by (rule give_all_share)
      (use assms(1,2) in \<open>simp_all add: demand_keys demand_total big_to_small_total
        del: map_map\<close>)
  also have "\<dots> = unat (as_nano (fst r))"
    by (rule demand_share) (use assms(1,3) in simp_all)
  finally show ?thesis .
qed

lemma built_tx_change:
  assumes "distinct (new_unique_pubkey B ct ci # map (recipient_key B) rs)"
  shows "received (new_unique_pubkey B ct ci) (ut_spends (built_tx B ci notes rs ct reason))
    = sum_list (map snd (tx_shares B notes rs))"
proof -
  have "share (with_change (new_unique_pubkey B ct ci) l g) (new_unique_pubkey B ct ci) = l"
    if "(g, l) \<in> set (tx_shares B notes rs)" for g l
  proof (rule share_change)
    have "fst ` set g \<subseteq> fst ` set (map (out_demand B) (make_outputs rs))"
      using give_all_shares [OF that [unfolded tx_shares_def]] by simp
    also have "\<dots> = set (map (recipient_key B) rs)"
      unfolding demand_keys [symmetric] by (simp only: set_map)
    finally show "new_unique_pubkey B ct ci \<notin> fst ` set g" using assms by auto
  qed
  then have "map (\<lambda>(g, l). share (with_change (new_unique_pubkey B ct ci) l g)
        (new_unique_pubkey B ct ci)) (tx_shares B notes rs)
      = map snd (tx_shares B notes rs)"
    by auto
  then show ?thesis unfolding built_tx_received [OF assms] by (rule arg_cong)
qed

subsection \<open>Signing\<close>

definition sign_spends ::
    "bls_ops \<Rightarrow> main_secret_key \<Rightarrow> (spend \<times> derivation_index) list \<Rightarrow> signed_spend list" where
  "sign_spends B sk spends =
     map (\<lambda>(s, derivation_index). signed_spend_sign B s (derive_key B sk derivation_index)) spends"

lemma ss_unique_pubkey_sign [simp]: "ss_unique_pubkey (signed_spend_sign B s sk) = sp_unique_pubkey s"
  by (simp add: signed_spend_sign_def ss_unique_pubkey_def)

lemma ss_spend_sign [simp]: "ss_spend (signed_spend_sign B s sk) = s"
  by (simp add: signed_spend_sign_def)

lemma sign_spends_distinct:
  assumes "distinct (map (\<lambda>(s, _). sp_unique_pubkey s) spends)"
  shows "distinct (map signed_spend_key (sign_spends B sk spends))"
proof -
  have "map fst (map signed_spend_key (sign_spends B sk spends))
      = map (\<lambda>(s, _). sp_unique_pubkey s) spends"
    by (auto simp: sign_spends_def signed_spend_key_def)
  then show ?thesis using assms distinct_map [of fst] by metis
qed

text \<open>A note with its parents attached is worth what the signed spends pay to its key.\<close>

lemma attach_parents_key [simp]: "cn_unique_pubkey B (attach_parents B S cn) = cn_unique_pubkey B cn"
  by (simp add: attach_parents_def cn_unique_pubkey_def Let_def)

lemma pays_iff: "list_ex (\<lambda>(k, _). k = us) m \<longleftrightarrow> map_of m us \<noteq> None"
  unfolding map_of_eq_None_iff by (force simp: list_ex_iff)

lemma attach_parents_mset:
  assumes "distinct (map signed_spend_key xs)"
  shows "mset (parent_spends (attach_parents B (bset_of signed_spend_key xs) cn))
    = filter_mset (\<lambda>ss. get_output_amount (ss_spend ss) (cn_unique_pubkey B cn) \<noteq> None) (mset xs)"
proof -
  let ?P = "\<lambda>ss. get_output_amount (ss_spend ss) (cn_unique_pubkey B cn) \<noteq> None"
  let ?S = "bset_of signed_spend_key xs"
  have "distinct (map signed_spend_key ?S)"
    using bset_of_inv [of signed_spend_key xs] by (simp add: bset_inv_def strict_sorted_iff)
  then have "distinct (map signed_spend_key (filter ?P ?S))" by (rule distinct_map_filter)
  then have "mset (bset_of signed_spend_key (filter ?P ?S)) = mset (filter ?P ?S)"
    by (rule bset_of_mset)
  also have "\<dots> = filter_mset ?P (mset xs)" by (simp add: bset_of_mset [OF assms])
  finally show ?thesis
    by (simp add: attach_parents_def Let_def pays_iff get_output_amount_def)
qed

lemma attach_parents_value:
  assumes "distinct (map (\<lambda>(s, _). sp_unique_pubkey s) spends)"
    and "received (cn_unique_pubkey B cn) spends < 2 ^ 64"
  shows "note_value B (attach_parents B (bset_of signed_spend_key (sign_spends B sk spends)) cn)
    = received (cn_unique_pubkey B cn) spends"
proof -
  let ?xs = "sign_spends B sk spends" and ?k = "cn_unique_pubkey B cn"
  let ?f = "\<lambda>p. unat (output_amount_or_zero ?k p)"
  let ?P = "\<lambda>ss. get_output_amount (ss_spend ss) ?k \<noteq> None"
  have "parents_total ?k (parent_spends (attach_parents B (bset_of signed_spend_key ?xs) cn))
      = sum_mset (image_mset ?f (filter_mset ?P (mset ?xs)))"
    unfolding parents_total_def attach_parents_mset [OF sign_spends_distinct [OF assms(1)], symmetric]
    by (simp add: sum_mset_sum_list [symmetric])
  also have "\<dots> = sum_list (map ?f (filter ?P ?xs))"
    by (simp add: sum_mset_sum_list [symmetric])
  also have "\<dots> = sum_list (map ?f ?xs)"
    by (rule sum_list_map_filter) (auto simp: output_amount_or_zero_def nano_zero_def)
  also have "map ?f ?xs = map (\<lambda>(s, _). spend_pays s ?k) spends"
    by (auto simp: sign_spends_def spend_pays_def output_amount_or_zero_def nano_zero_def
        split: option.split)
  finally have "parents_total ?k (parent_spends (attach_parents B (bset_of signed_spend_key ?xs) cn))
      = received ?k spends"
    by (simp add: received_def)
  then show ?thesis using assms(2) unat_cn_value by simp
qed

lemma attach_parents_verify:
  assumes "distinct (map (\<lambda>(s, _). sp_unique_pubkey s) spends)"
    and "0 < received (cn_unique_pubkey B cn) spends"
  shows "cn_verify B (attach_parents B (bset_of signed_spend_key (sign_spends B sk spends)) cn) = Ok ()"
proof -
  let ?xs = "sign_spends B sk spends" and ?k = "cn_unique_pubkey B cn"
  let ?P = "\<lambda>ss. get_output_amount (ss_spend ss) ?k \<noteq> None"
  let ?ps = "parent_spends (attach_parents B (bset_of signed_spend_key ?xs) cn)"
  have "set_mset (mset ?ps) = set_mset (filter_mset ?P (mset ?xs))"
    unfolding attach_parents_mset [OF sign_spends_distinct [OF assms(1)]] ..
  then have set: "set ?ps = {ss \<in> set ?xs. ?P ss}" by simp
  have "received ?k spends = 0" if "\<forall>(s, di) \<in> set spends. spend_pays s ?k = 0"
    using that by (auto simp: received_def)
  then obtain s di where mem: "(s, di) \<in> set spends" and "spend_pays s ?k \<noteq> 0"
    using assms(2) by auto
  then have "get_output_amount s ?k \<noteq> None"
    by (cases "get_output_amount s ?k") (simp_all add: spend_pays_def)
  then have "signed_spend_sign B s (derive_key B sk di) \<in> set ?ps"
    unfolding set using mem by (force simp: sign_spends_def)
  then have "?ps \<noteq> []" by auto
  moreover have "list_all ?P ?ps" unfolding list_all_iff set by simp
  ultimately show ?thesis by (simp add: cn_verify_def)
qed

lemma give_all_total:
  assumes "sum_list (map snd ds) \<le> sum_list ns"
  shows "sum_list (map (\<lambda>(g, l). sum_list (map snd g)) (give_all ns ds)) = sum_list (map snd ds)"
  using assms
proof (induction ns arbitrary: ds)
  case Nil
  then show ?case by (simp del: sum_list_eq_0_iff)
next
  case (Cons n ns)
  obtain g ds' l where g: "give n ds = (g, ds', l)" by (cases "give n ds")
  show ?case
  proof (cases "l > 0")
    case True
    then show ?thesis using g give_sums [OF g] by simp
  next
    case False
    then have "sum_list (map snd ds') \<le> sum_list ns"
      using give_sums(1,2) [OF g] Cons.prems by simp
    then show ?thesis using Cons.IH [of ds'] False g give_sums(2) [OF g] by simp
  qed
qed

lemma tx_shares_used:
  "sum_list (map (\<lambda>(g, l). sum_list (map snd g)) (tx_shares B notes rs))
     + sum_list (map snd (tx_shares B notes rs))
   = sum_list (map (note_value B) (take (length (tx_shares B notes rs)) (big_to_small B notes)))"
proof -
  have "map (\<lambda>(g, l). sum_list (map snd g) + l) (tx_shares B notes rs)
      = map (note_value B) (take (length (tx_shares B notes rs)) (big_to_small B notes))"
    by (rule list_all2_map_eq [OF tx_shares_exhaust]) auto
  then show ?thesis by (metis (mono_tags, lifting) case_prod_unfold map_eq_conv sum_list_addf)
qed

lemma built_tx_used:
  "used_notes B (built_tx B ci notes rs ct reason) notes
     = take (length (tx_shares B notes rs)) (big_to_small B notes)"
  by (simp add: used_notes_def built_tx_length)

lemma built_tx_change_total:
  assumes "distinct (new_unique_pubkey B ct ci # map (recipient_key B) rs)"
    and "recipients_total rs \<le> notes_total B notes"
  shows "received (new_unique_pubkey B ct ci) (ut_spends (built_tx B ci notes rs ct reason))
      + recipients_total rs
    = notes_total B (used_notes B (built_tx B ci notes rs ct reason) notes)"
proof -
  have "sum_list (map (\<lambda>(g, l). sum_list (map snd g)) (tx_shares B notes rs)) = recipients_total rs"
    using give_all_total [of "map (out_demand B) (make_outputs rs)"
        "map (note_value B) (big_to_small B notes)"] assms(2)
    by (simp only: tx_shares_def demand_total big_to_small_total)
  then show ?thesis
    using tx_shares_used [of B "notes" rs] built_tx_change [OF assms(1)]
    by (simp add: built_tx_used notes_total_def)
qed

lemma tx_change_zero:
  "sum_list (map snd (tx_shares B notes rs)) = 0
     \<longleftrightarrow> \<not> (\<exists>(g, l) \<in> set (tx_shares B notes rs). l > 0)"
  by fastforce

lemma used_notes_subset: "set (used_notes B tx notes) \<subseteq> set notes"
  using set_take_subset [of _ "big_to_small B notes"] by (simp add: used_notes_def)

lemma used_notes_total_le: "notes_total B (used_notes B tx notes) \<le> notes_total B notes"
proof -
  let ?n = "length (ut_spends tx)" and ?xs = "big_to_small B notes"
  have "sum_list (map (note_value B) (take ?n ?xs @ drop ?n ?xs)) = notes_total B notes"
    by (simp only: append_take_drop_id big_to_small_total)
  then show ?thesis
    unfolding used_notes_def notes_total_def map_append sum_list_append by linarith
qed

lemma used_notes_distinct:
  assumes "distinct (map (cn_unique_pubkey B) notes)"
  shows "distinct (map (cn_unique_pubkey B) (used_notes B tx notes))"
proof -
  have "mset (map (cn_unique_pubkey B) (big_to_small B notes))
      = mset (map (cn_unique_pubkey B) notes)"
    by (simp add: big_to_small_def)
  then have "distinct (map (cn_unique_pubkey B) (big_to_small B notes))"
    using assms by (metis mset_eq_imp_distinct_iff)
  then show ?thesis by (simp add: used_notes_def take_map [symmetric])
qed

lemma signed_new_OkD:
  assumes "signed_new B ci notes rs ct reason sk = Ok stx"
  defines "tx \<equiv> built_tx B ci notes rs ct reason"
  defines "S \<equiv> bset_of signed_spend_key (sign_spends B sk (ut_spends tx))"
  shows "unsigned_new B ci notes rs ct reason = Ok tx"
    and "output_cashnotes stx = map (attach_parents B S) (map fst (make_outputs rs))"
    and "change_cashnote stx = map_option (attach_parents B S) (change_cashnote_without_spends tx)"
    and "st_spends stx = S"
proof -
  obtain tx' where tx': "unsigned_new B ci notes rs ct reason = Ok tx'"
    and sign: "unsigned_sign B tx' sk = Ok stx"
    using assms(1) by (auto simp: signed_new_def result_simps)
  have tx: "tx' = tx" using unsigned_new_OkD(1) [OF tx'] by (simp add: tx_def)
  show "unsigned_new B ci notes rs ct reason = Ok tx" using tx' tx by simp
  have "stx = \<lparr> output_cashnotes = map (attach_parents B S) (output_cashnotes_without_spends tx),
      change_cashnote = map_option (attach_parents B S) (change_cashnote_without_spends tx),
      st_spends = S \<rparr>"
    using sign by (simp add: unsigned_sign_def Let_def tx S_def sign_spends_def)
  moreover have "output_cashnotes_without_spends tx = map fst (make_outputs rs)"
    unfolding tx_def using built_tx_matches [of B reason ct ci "notes" rs] by blast
  ultimately show "output_cashnotes stx = map (attach_parents B S) (map fst (make_outputs rs))"
    and "change_cashnote stx = map_option (attach_parents B S) (change_cashnote_without_spends tx)"
    and "st_spends stx = S"
    by simp_all
qed

lemma built_tx_keys_distinct:
  assumes "distinct (new_unique_pubkey B ct ci # map (recipient_key B) rs)"
    and "distinct (map (cn_unique_pubkey B) notes)"
  shows "distinct (map (\<lambda>(s, _). sp_unique_pubkey s) (ut_spends (built_tx B ci notes rs ct reason)))"
proof -
  have "map (\<lambda>(s, _). sp_unique_pubkey s) (ut_spends (built_tx B ci notes rs ct reason))
      = map (cn_unique_pubkey B) (take (length (tx_shares B notes rs)) (big_to_small B notes))"
    by (rule list_all2_map_eq [OF built_tx_spends [OF assms(1)]]) auto
  then show ?thesis
    using used_notes_distinct [OF assms(2), of "built_tx B ci notes rs ct reason"]
    by (simp only: built_tx_used)
qed

lemma sum_list_u64: "sum_list ws = of_nat (sum_list (map unat ws))" for ws :: "u64 list"
  by (induction ws) simp_all

lemma of_nat_eq_0_iff_u64: "n < 2 ^ 64 \<Longrightarrow> (of_nat n :: u64) = 0 \<longleftrightarrow> n = 0"
  using unat_of_nat_u64 [of n] by (auto simp: word_unat_eq_iff)

lemma list_all2D: "list_all2 P xs ys \<Longrightarrow> (x, y) \<in> set (zip xs ys) \<Longrightarrow> P x y"
  by (auto simp: list_all2_iff)

lemma built_tx_signatures:
  assumes "bls_correct B" and "list_all (\<lambda>cn. cn_main_pubkey cn = main_pubkey_of B sk) notes"
    and "distinct (new_unique_pubkey B ct ci # map (recipient_key B) rs)"
    and "ss \<in> set (sign_spends B sk (ut_spends (built_tx B ci notes rs ct reason)))"
  shows "signed_spend_verify B ss = Ok ()"
proof -
  let ?spends = "ut_spends (built_tx B ci notes rs ct reason)"
  let ?used = "take (length (tx_shares B notes rs)) (big_to_small B notes)"
  from assms(4) obtain s di where mem: "(s, di) \<in> set ?spends"
    and ss: "ss = signed_spend_sign B s (derive_key B sk di)"
    by (auto simp: sign_spends_def)
  have len: "length ?spends = length ?used"
    by (rule list_all2_lengthD [OF built_tx_spends [OF assms(3)]])
  obtain cn where z: "((s, di), cn) \<in> set (zip ?spends ?used)"
    by (rule in_set_impl_in_set_zip1 [OF len mem])
  then have "cn \<in> set ?used" by (rule set_zip_rightD)
  then have "cn \<in> set notes"
    using used_notes_subset [of B "built_tx B ci notes rs ct reason" "notes"]
    by (auto simp: built_tx_used)
  moreover have "sp_unique_pubkey s = cn_unique_pubkey B cn" and "di = cn_derivation_index cn"
    using list_all2D [OF built_tx_spends [OF assms(3)] z] by simp_all
  ultimately have "sp_unique_pubkey s = derived_unique_pubkey B (derive_key B sk di)"
    using assms(1,2) by (simp add: cn_unique_pubkey_def derived_key_matches list_all_iff)
  then show ?thesis
    using assms(1) unfolding ss
    by (simp add: signed_spend_verify_def signed_spend_sign_def derived_unique_pubkey_def
        ss_unique_pubkey_def bls_sign_verifies)
qed

lemma list_all2_conv_flip: "list_all2 P xs ys \<Longrightarrow> list_all2 (\<lambda>y x. P x y) ys xs"
  by (simp add: list_all2_iff zip_commute [of xs ys] case_prod_unfold)

lemma list_all2_right: "list_all2 P xs ys \<Longrightarrow> y \<in> set ys \<Longrightarrow> \<exists>x \<in> set xs. P x y"
  by (metis in_set_conv_nth list_all2_conv_all_nth)

lemma change_note_of_tx:
  assumes "distinct (new_unique_pubkey B ct ci # map (recipient_key B) rs)"
  shows "change_cashnote_without_spends (built_tx B ci notes rs ct reason)
    = (if received (new_unique_pubkey B ct ci) (ut_spends (built_tx B ci notes rs ct reason)) = 0
       then None else Some (change_note ct ci))"
  unfolding built_tx_change [OF assms]
  using built_tx_matches [of B reason ct ci "notes" rs] tx_change_zero [of B "notes" rs] by auto

text \<open>The output notes, the change and the spends of a signed transaction.\<close>

lemma signed_new_outputs:
  assumes "signed_new B ci notes rs ct reason sk = Ok stx"
    and "distinct (map (cn_unique_pubkey B) notes)"
    and "distinct (new_unique_pubkey B ct ci # map (recipient_key B) rs)"
  shows "list_all2 (\<lambda>r cn. cn_unique_pubkey B cn = recipient_key B r \<and> cn_value B cn = fst r
      \<and> cn_main_pubkey cn = fst (snd r) \<and> cn_verify B cn = Ok ()) rs (output_cashnotes stx)"
proof -
  define tx where "tx = built_tx B ci notes rs ct reason"
  define S where "S = bset_of signed_spend_key (sign_spends B sk (ut_spends tx))"
  note stx = signed_new_OkD [OF assms(1), folded tx_def, folded S_def]
  note ok = unsigned_new_OkD [OF stx(1)]
  note d = built_tx_keys_distinct [OF assms(3,2), of reason, folded tx_def]
  let ?note = "\<lambda>r. fst (hd (make_outputs [r]))"
  have outs: "map fst (make_outputs rs) = map ?note rs"
    by (auto simp: make_outputs_def)
  have key: "cn_unique_pubkey B (?note r) = recipient_key B r" for r
    by (cases r) (simp add: make_outputs_def cn_unique_pubkey_def recipient_key_def)
  have main: "cn_main_pubkey (attach_parents B S (?note r)) = fst (snd r)" for r
    by (cases r) (simp add: make_outputs_def attach_parents_def Let_def)
  have pays: "received (recipient_key B r) (ut_spends tx) = unat (as_nano (fst r))"
    if "r \<in> set rs" for r
    unfolding tx_def by (rule built_tx_pays [OF assms(3) ok(3) that])
  have pos: "0 < unat (as_nano (fst r))" if "r \<in> set rs" for r
    using stx(1) that unfolding unsigned_new_eq
    by (cases r) (auto simp: list_ex_iff unat_gt_0 split: if_splits)
  have val: "cn_value B (attach_parents B S (?note r)) = fst r" if "r \<in> set rs" for r
  proof -
    have "note_value B (attach_parents B S (?note r)) = unat (as_nano (fst r))"
      using attach_parents_value [OF d, of B "?note r" sk]
      by (simp only: S_def key pays [OF that] unat_u64_less simp_thms)
    then show ?thesis by (simp add: word_unat_eq_iff [symmetric] nano_tokens.expand)
  qed
  have ver: "cn_verify B (attach_parents B S (?note r)) = Ok ()" if "r \<in> set rs" for r
    unfolding S_def
    by (rule attach_parents_verify [OF d]) (simp add: key pays [OF that] pos [OF that])
  show ?thesis
    unfolding stx(2) outs list.rel_map
    by (rule list.rel_refl_strong) (simp add: key main val ver)
qed

lemma signed_new_change:
  assumes "signed_new B ci notes rs ct reason sk = Ok stx"
    and "distinct (map (cn_unique_pubkey B) notes)"
    and "distinct (new_unique_pubkey B ct ci # map (recipient_key B) rs)"
  shows "case change_cashnote stx of
      None \<Rightarrow> recipients_total rs = notes_total B (used_notes B (built_tx B ci notes rs ct reason) notes)
    | Some cn \<Rightarrow> cn_main_pubkey cn = ct \<and> cn_derivation_index cn = ci \<and> cn_verify B cn = Ok ()
        \<and> note_value B cn + recipients_total rs
          = notes_total B (used_notes B (built_tx B ci notes rs ct reason) notes)"
proof -
  define tx where "tx = built_tx B ci notes rs ct reason"
  define S where "S = bset_of signed_spend_key (sign_spends B sk (ut_spends tx))"
  note stx = signed_new_OkD [OF assms(1), folded tx_def, folded S_def]
  note ok = unsigned_new_OkD [OF stx(1)]
  note d = built_tx_keys_distinct [OF assms(3,2), of reason, folded tx_def]
  let ?ck = "new_unique_pubkey B ct ci"
  have total: "received ?ck (ut_spends tx) + recipients_total rs = notes_total B (used_notes B tx notes)"
    unfolding tx_def by (rule built_tx_change_total [OF assms(3) ok(3)])
  have key: "cn_unique_pubkey B (change_note ct ci) = ?ck" by (simp add: cn_unique_pubkey_def)
  have lt: "received ?ck (ut_spends tx) < 2 ^ 64"
    using total used_notes_total_le [of B tx "notes"] ok(4) by linarith
  show ?thesis
  proof (cases "received ?ck (ut_spends tx) = 0")
    case True
    then have "change_cashnote stx = None"
      using change_note_of_tx [OF assms(3), of "notes" reason, folded tx_def] by (simp add: stx(3))
    then show ?thesis using total True by (simp add: tx_def)
  next
    case False
    then have cn: "change_cashnote stx = Some (attach_parents B S (change_note ct ci))"
      using change_note_of_tx [OF assms(3), of "notes" reason, folded tx_def] by (simp add: stx(3))
    have "note_value B (attach_parents B S (change_note ct ci)) = received ?ck (ut_spends tx)"
      using attach_parents_value [OF d, of B "change_note ct ci" sk] lt by (simp add: S_def key)
    moreover have "cn_verify B (attach_parents B S (change_note ct ci)) = Ok ()"
      unfolding S_def by (rule attach_parents_verify [OF d]) (use False in \<open>simp add: key\<close>)
    ultimately show ?thesis using total by (simp add: cn attach_parents_def Let_def tx_def)
  qed
qed

lemma signed_new_spent_keys:
  assumes "signed_new B ci notes rs ct reason sk = Ok stx"
    and "distinct (map (cn_unique_pubkey B) notes)"
    and "distinct (new_unique_pubkey B ct ci # map (recipient_key B) rs)"
  shows "ss_unique_pubkey ` set (st_spends stx)
    = cn_unique_pubkey B ` set (used_notes B (built_tx B ci notes rs ct reason) notes)"
proof -
  let ?spends = "ut_spends (built_tx B ci notes rs ct reason)"
  note stx = signed_new_OkD [OF assms(1)]
  have "map (\<lambda>(s, _). sp_unique_pubkey s) ?spends
      = map (cn_unique_pubkey B) (used_notes B (built_tx B ci notes rs ct reason) notes)"
    unfolding built_tx_used
    by (rule list_all2_map_eq [OF built_tx_spends [OF assms(3)]]) auto
  then have used: "(\<lambda>(s, _). sp_unique_pubkey s) ` set ?spends
      = cn_unique_pubkey B ` set (used_notes B (built_tx B ci notes rs ct reason) notes)"
    by (metis set_map)
  have "inj_on signed_spend_key (set (sign_spends B sk ?spends))"
    using sign_spends_distinct [OF built_tx_keys_distinct [OF assms(3,2)]] by (simp add: distinct_map)
  then have "set (st_spends stx) = set (sign_spends B sk ?spends)"
    unfolding stx(4) by (rule bset_of_inj)
  then have "ss_unique_pubkey ` set (st_spends stx) = (\<lambda>(s, _). sp_unique_pubkey s) ` set ?spends"
    by (force simp: sign_spends_def)
  then show ?thesis using used by simp
qed

lemma unsigned_verify_new:
  assumes "unsigned_new B ci notes rs ct reason = Ok tx"
    and "distinct (new_unique_pubkey B ct ci # map (recipient_key B) rs)"
  shows "unsigned_verify B tx = Err (InvalidUnsignedTransaction
     (Message ''Unbalanced transaction: input sum != output sum''
        [ArgNum (of_nat (notes_total B (used_notes B tx notes))), ArgNum 0]))"
proof -
  note tx = unsigned_new_OkD [OF assms(1)]
  have "map (\<lambda>(s, _). as_nano (spend_amount s)) (ut_spends tx)
      = map (\<lambda>cn. as_nano (cn_value B cn)) (used_notes B tx notes)"
    unfolding tx(1) built_tx_used
  proof (rule list_all2_map_eq [OF built_tx_spends [OF assms(2)]])
    fix x cn
    assume "(\<lambda>(s, di) cn. sp_unique_pubkey s = cn_unique_pubkey B cn \<and> di = cn_derivation_index cn
       \<and> sp_ancestors s = bset_of id (map ss_unique_pubkey (parent_spends cn))
       \<and> outputs_total s = note_value B cn \<and> bmap_inv (sp_descendants s)) x cn"
    then have "unat (as_nano (spend_amount (fst x))) = note_value B cn mod 2 ^ 64"
      unfolding unat_spend_amount by auto
    also have "\<dots> = note_value B cn" by (rule mod_less [OF unat_u64_less])
    finally show "(\<lambda>(s, _). as_nano (spend_amount s)) x = as_nano (cn_value B cn)"
      by (simp add: word_unat_eq_iff case_prod_unfold)
  qed
  then have "sum_list (map (\<lambda>(s, _). as_nano (spend_amount s)) (ut_spends tx))
      = of_nat (notes_total B (used_notes B tx notes))"
    by (simp add: notes_total_def sum_list_u64 comp_def)
  moreover have "cn_value B cn = NanoTokens 0" if "cn \<in> set (tx_cash_notes tx)" for cn
    using that built_tx_matches [of B reason ct ci "notes" rs] unfolding tx(1)
    by (auto simp: tx_cash_notes_def make_outputs_def cn_value_def split: if_splits)
  then have "sum_list (map (\<lambda>cn. as_nano (cn_value B cn)) (tx_cash_notes tx)) = 0"
    by (simp add: sum_list_0 cong: map_cong)
  moreover have "0 < notes_total B (used_notes B tx notes)"
    using built_tx_change_total [OF assms(2) tx(3), of reason, folded tx(1)] tx(2) by linarith
  moreover have "notes_total B (used_notes B tx notes) < 2 ^ 64"
    using tx(4) used_notes_total_le [of B tx "notes"] by linarith
  ultimately show ?thesis
    by (auto simp: unsigned_verify_def Let_def of_nat_eq_0_iff_u64)
qed

subsection \<open>Properties\<close>

text \<open>C30: a transaction is built exactly when there is a recipient, no amount is zero, and the
  recipients' total is covered by the notes' total, which fits in \<open>u64\<close>; every other outcome
  is an error.\<close>

theorem unsigned_new_ok_iff:
  "is_ok (unsigned_new B ci notes rs ct reason) \<longleftrightarrow>
     rs \<noteq> [] \<and> list_all (\<lambda>(amount, _). as_nano amount \<noteq> 0) rs
     \<and> recipients_total rs \<le> notes_total B notes \<and> notes_total B notes < 2 ^ 64"
  by (auto simp: unsigned_new_eq list_all_iff list_ex_iff)

text \<open>C3: if the change key and the recipients' keys are distinct, then in a built transaction
  every recipient's key receives exactly its amount over all spends, what the change key
  receives makes up the difference to the value of the notes used, and there is a change
  note exactly when that is not zero.\<close>

theorem unsigned_new_pays_recipients:
  assumes "unsigned_new B ci notes rs ct reason = Ok tx"
    and "distinct (new_unique_pubkey B ct ci # map (recipient_key B) rs)"
  shows "list_all (\<lambda>r. received (recipient_key B r) (ut_spends tx) = unat (as_nano (fst r))) rs
     \<and> received (new_unique_pubkey B ct ci) (ut_spends tx) + recipients_total rs
         = notes_total B (used_notes B tx notes)
     \<and> (change_cashnote_without_spends tx = None
         \<longleftrightarrow> received (new_unique_pubkey B ct ci) (ut_spends tx) = 0)"
proof -
  note tx = unsigned_new_OkD [OF assms(1)]
  have "change_cashnote_without_spends tx = None
      \<longleftrightarrow> received (new_unique_pubkey B ct ci) (ut_spends tx) = 0"
    unfolding tx(1) built_tx_change [OF assms(2)]
    using built_tx_matches [of B reason ct ci "notes" rs] tx_change_zero [of B "notes" rs] by simp
  then show ?thesis
    using built_tx_pays [OF assms(2) tx(3)] built_tx_change_total [OF assms(2) tx(3)]
    unfolding tx(1) list_all_iff by simp
qed

text \<open>C8: each spend of a built transaction spends one of the notes used, in order of their
  values, gives away exactly the value of that note, and, signed, passes the check against
  the note's parents exactly when the parents have distinct keys and all pay the note.\<close>

theorem unsigned_new_spends_balance:
  assumes "unsigned_new B ci notes rs ct reason = Ok tx"
    and "distinct (new_unique_pubkey B ct ci # map (recipient_key B) rs)"
  shows "list_all2 (\<lambda>(s, di) cn.
       sp_unique_pubkey s = cn_unique_pubkey B cn \<and> outputs_total s = note_value B cn
       \<and> sp_ancestors s = bset_of id (map ss_unique_pubkey (parent_spends cn))
       \<and> (verify_parent_spends (signed_spend_sign B s (derive_key B sk di)) (parent_spends cn) = Ok ()
           \<longleftrightarrow> distinct (map ss_unique_pubkey (parent_spends cn))
             \<and> list_all (\<lambda>p. get_output_amount (ss_spend p) (cn_unique_pubkey B cn) \<noteq> None)
                 (parent_spends cn)))
     (ut_spends tx) (used_notes B tx notes)"
proof -
  note tx = unsigned_new_OkD [OF assms(1)]
  have *: "sum_list (map (output_amount_or_zero (cn_unique_pubkey B cn)) (parent_spends cn))
      = as_nano (spend_amount s)"
    if "outputs_total s = note_value B cn" for s cn
  proof -
    have "unat (as_nano (spend_amount s)) = note_value B cn mod 2 ^ 64"
      unfolding unat_spend_amount that ..
    also have "\<dots> = note_value B cn" by (rule mod_less [OF unat_u64_less])
    finally show ?thesis unfolding cn_value_sum [symmetric] word_unat_eq_iff by simp
  qed
  show ?thesis
    unfolding tx(1) built_tx_used
    by (rule list.rel_mono_strong [OF built_tx_spends [OF assms(2)]])
      (auto simp: verify_parent_spends_ok_iff ss_amount_def *)
qed

text \<open>C7: a transaction that is built and signed by the owner of the notes passes its own
  verification, and every output note of it has the recipient's key and exactly the
  recipient's amount as its value.\<close>

theorem signed_new_verifies:
  assumes "signed_new B ci notes rs ct reason sk = Ok stx" and "bls_correct B"
    and "list_all (\<lambda>cn. cn_main_pubkey cn = main_pubkey_of B sk) notes"
    and "distinct (map (cn_unique_pubkey B) notes)"
    and "distinct (new_unique_pubkey B ct ci # map (recipient_key B) rs)"
  shows "signed_tx_verify B stx = Ok ()
     \<and> map (\<lambda>cn. (cn_unique_pubkey B cn, cn_value B cn)) (output_cashnotes stx)
       = map (\<lambda>r. (recipient_key B r, fst r)) rs"
proof -
  define tx where "tx = built_tx B ci notes rs ct reason"
  define S where "S = bset_of signed_spend_key (sign_spends B sk (ut_spends tx))"
  note stx = signed_new_OkD [OF assms(1), folded tx_def, folded S_def]
  note outs = signed_new_outputs [OF assms(1,4,5)]
  have vals: "map (\<lambda>cn. (cn_unique_pubkey B cn, cn_value B cn)) (output_cashnotes stx)
      = map (\<lambda>r. (recipient_key B r, fst r)) rs"
    by (rule list_all2_map_eq [OF list_all2_conv_flip [OF outs]]) auto
  have 1: "try_for_each (cn_verify B) (output_cashnotes stx) = Ok ()"
    unfolding try_for_each_Ok_iff using list_all2_right [OF outs] by blast
  have 2: "(case change_cashnote stx of Some cn \<Rightarrow> cn_verify B cn | None \<Rightarrow> Ok ()) = Ok ()"
    using signed_new_change [OF assms(1,4,5)] by (simp split: option.splits)
  have "set S \<subseteq> set (sign_spends B sk (ut_spends tx))" unfolding S_def by (rule bset_of_subset)
  then have 3: "try_for_each (signed_spend_verify B) (st_spends stx) = Ok ()"
    unfolding stx(4) try_for_each_Ok_iff
    using built_tx_signatures [OF assms(2,3,5), of _ reason, folded tx_def] by blast
  show ?thesis using 1 2 3 vals by (simp add: signed_tx_verify_def)
qed

text \<open>\<open>verify\<close> rejects every transaction \<open>new\<close> builds. The output notes have no parent
  spends yet, so that their values, and the output sum, are zero, while the input sum is
  what the spends give away.\<close>

theorem unsigned_verify_rejects_new:
  assumes "unsigned_new B ci notes rs ct reason = Ok tx"
    and "distinct (new_unique_pubkey B ct ci # map (recipient_key B) rs)"
  shows "unsigned_verify B tx = Err (InvalidUnsignedTransaction
     (Message ''Unbalanced transaction: input sum != output sum''
        [ArgNum (of_nat (notes_total B (used_notes B tx notes))), ArgNum 0]))"
  using assms by (rule unsigned_verify_new)

subsection \<open>Examples\<close>

definition example_note :: "derivation_index \<Rightarrow> nat \<Rightarrow> cash_note" where
  "example_note di n =
     \<lparr> parent_spends =
         [\<lparr> ss_spend = \<lparr> sp_unique_pubkey = 3, sp_reason = NoReason, sp_ancestors = [],
                         sp_descendants = [(7 XOR ucast di, NanoTokens (of_nat n))],
                         sp_royalties = [] \<rparr>,
            derived_key_sig = 3 \<rparr>],
       cn_main_pubkey = 7, cn_derivation_index = di \<rparr>"

definition example_recipients :: "recipient list" where
  "example_recipients = [(NanoTokens 3, 20, 2, False), (NanoTokens 4, 40, 3, True)]"

lemma example_note_simps [simp]:
  "cn_unique_pubkey B (example_note di n) = pk_derive_child B 7 di"
  "cn_value xor_bls (example_note di n) = NanoTokens (of_nat n)"
  "cn_main_pubkey (example_note di n) = 7"
  "cn_derivation_index (example_note di n) = di"
  by (simp_all add: example_note_def cn_unique_pubkey_def new_unique_pubkey_def cn_value_def
      output_amount_or_zero_def get_output_amount_def)

lemma example_recipients_simps [simp]:
  "recipients_total example_recipients = 7"
  "map (recipient_key xor_bls) example_recipients = [22, 43]"
  "example_recipients \<noteq> []"
  "\<not> list_ex (\<lambda>(amount, _). as_nano amount = 0) example_recipients"
  by (simp_all add: example_recipients_def recipients_total_def recipient_key_def
      new_unique_pubkey_def)

lemma example_new:
  "unsigned_new xor_bls 9 [example_note 1 5, example_note 2 6] example_recipients 7 NoReason
     = Ok (built_tx xor_bls 9 [example_note 1 5, example_note 2 6] example_recipients 7 NoReason)"
  by (simp add: unsigned_new_eq notes_total_def)

theorem unsigned_new_pays_recipients_witness:
  "received 22 (ut_spends (built_tx xor_bls 9 [example_note 1 5, example_note 2 6]
      example_recipients 7 NoReason)) = 3
   \<and> received 43 (ut_spends (built_tx xor_bls 9 [example_note 1 5, example_note 2 6]
      example_recipients 7 NoReason)) = 4"
  using unsigned_new_pays_recipients [OF example_new]
  by (simp add: new_unique_pubkey_def)
    (simp add: example_recipients_def recipient_key_def new_unique_pubkey_def)

theorem unsigned_new_spends_balance_witness:
  "list_all2 (\<lambda>(s, di) cn. outputs_total s = note_value xor_bls cn)
     (ut_spends (built_tx xor_bls 9 [example_note 1 5, example_note 2 6]
        example_recipients 7 NoReason))
     (used_notes xor_bls (built_tx xor_bls 9 [example_note 1 5, example_note 2 6]
        example_recipients 7 NoReason) [example_note 1 5, example_note 2 6])"
  by (rule list_all2_mono [OF unsigned_new_spends_balance [OF example_new]])
    (auto simp: new_unique_pubkey_def)

theorem signed_new_verifies_witness:
  "\<exists>stx. signed_new xor_bls 9 [example_note 1 5, example_note 2 6] example_recipients 7 NoReason 7
       = Ok stx \<and> signed_tx_verify xor_bls stx = Ok ()"
proof -
  obtain stx where stx: "signed_new xor_bls 9 [example_note 1 5, example_note 2 6]
      example_recipients 7 NoReason 7 = Ok stx"
    by (simp add: signed_new_def example_new unsigned_sign_def Let_def)
  show ?thesis using signed_new_verifies [OF stx]
    by (simp add: stx new_unique_pubkey_def main_pubkey_of_def)
qed

theorem unsigned_verify_rejects_new_witness:
  "\<not> is_ok (unsigned_verify xor_bls (built_tx xor_bls 9 [example_note 1 5, example_note 2 6]
      example_recipients 7 NoReason))"
  using unsigned_verify_rejects_new [OF example_new] by (simp add: new_unique_pubkey_def)

text \<open>\<open>new\<close> does not check that the recipients' keys differ. With two recipients of the
  same key the second donation replaces the first in the map, so that the spend gives away
  less than the value of the note it spends: 7 of 10.\<close>

theorem unsigned_new_duplicate_recipient:
  "map (\<lambda>(s, _). sp_descendants s)
     (ut_spends (built_tx xor_bls 9 [example_note 1 10]
        [(NanoTokens 3, 20, 2, False), (NanoTokens 4, 20, 2, False)] 7 NoReason))
   = [[(14, NanoTokens 3), (22, NanoTokens 4)]]
   \<and> is_ok (unsigned_new xor_bls 9 [example_note 1 10]
        [(NanoTokens 3, 20, 2, False), (NanoTokens 4, 20, 2, False)] 7 NoReason)"
  by (simp add: built_tx_def big_to_small_def make_outputs_def distribute_input.simps Let_def
      cn_unique_pubkey_def [of _ "\<lparr>parent_spends = [], cn_main_pubkey = x,
        cn_derivation_index = y\<rparr>" for x y] new_unique_pubkey_def unsigned_new_eq
      recipients_total_def notes_total_def)

text \<open>When the first notes cover the outputs exactly, the loop still takes the next note:
  its whole value becomes change, although the outputs are already paid.\<close>

theorem unsigned_new_spends_unneeded_note:
  "map (\<lambda>(s, _). sp_descendants s)
     (ut_spends (built_tx xor_bls 9 [example_note 1 7, example_note 2 6]
        example_recipients 7 NoReason))
   = [[(22, NanoTokens 3), (43, NanoTokens 4)], [(14, NanoTokens 6)]]"
  by (simp add: built_tx_def big_to_small_def make_outputs_def distribute_input.simps Let_def
      cn_unique_pubkey_def [of _ "\<lparr>parent_spends = [], cn_main_pubkey = x,
        cn_derivation_index = y\<rparr>" for x y] new_unique_pubkey_def example_recipients_def)

end
