(* ===== verification/Protocol.thy ===== *)
theory Protocol
  imports Keys
begin

section \<open>Addresses, distances and records (sn\_protocol)\<close>

text \<open>
  Network addresses and their distance, the header of a record and its round trip, chunks
  and scratchpads. The hash functions of the network layer are arguments (record \<open>net_ops\<close>):
  \<open>KBucketKey::new\<close> hashes with SHA-256 and \<open>XorName::from_content\<close> with SHA3-256. A \<open>PeerId\<close>
  and a record key are their bytes. The encodings of the serialisation library are the
  record \<open>codec\<close>.
\<close>

unbundle bit_operations_syntax

type_synonym peer_id = bytes
type_synonym record_key = bytes
type_synonym distance = "256 word"

record net_ops =
  kad_hash :: "bytes \<Rightarrow> distance"
  xor_from_content :: "bytes \<Rightarrow> xor_name"
  peer_id_valid :: "bytes \<Rightarrow> bool"

record register_address =
  ra_meta :: xor_name
  ra_owner :: public_key

record scratchpad_address =
  sa_owner :: public_key

datatype network_address =
    PeerIdAddress bytes
  | ChunkAddress xor_name
  | SpendAddress xor_name
  | RegisterAddress register_address
  | RecordKeyAddress bytes
  | ScratchpadAddress scratchpad_address

definition CLOSE_GROUP_SIZE :: nat where
  "CLOSE_GROUP_SIZE = 5"

subsection \<open>\<open>NetworkAddress\<close> (lib.rs)\<close>

definition register_xorname :: "net_ops \<Rightarrow> register_address \<Rightarrow> xor_name" where
  "register_xorname N a = xor_from_content N (be_bytes (ra_meta a) @ be_bytes (ra_owner a))"

definition scratchpad_xorname :: "net_ops \<Rightarrow> scratchpad_address \<Rightarrow> xor_name" where
  "scratchpad_xorname N a = xor_from_content N (be_bytes (sa_owner a))"

definition spend_address_of :: "net_ops \<Rightarrow> unique_pubkey \<Rightarrow> xor_name" where
  "spend_address_of N pk = xor_from_content N (be_bytes pk)"

definition from_peer :: "peer_id \<Rightarrow> network_address" where
  "from_peer p = PeerIdAddress p"

definition from_record_key :: "record_key \<Rightarrow> network_address" where
  "from_record_key k = RecordKeyAddress k"

fun address_bytes :: "net_ops \<Rightarrow> network_address \<Rightarrow> bytes" where
  "address_bytes N (PeerIdAddress bs) = bs"
| "address_bytes N (RecordKeyAddress bs) = bs"
| "address_bytes N (ChunkAddress x) = be_bytes x"
| "address_bytes N (SpendAddress x) = be_bytes x"
| "address_bytes N (ScratchpadAddress a) = be_bytes (scratchpad_xorname N a)"
| "address_bytes N (RegisterAddress a) = be_bytes (register_xorname N a)"

fun as_peer_id :: "net_ops \<Rightarrow> network_address \<Rightarrow> peer_id option" where
  "as_peer_id N (PeerIdAddress bs) = (if peer_id_valid N bs then Some bs else None)"
| "as_peer_id N _ = None"

fun as_xorname :: "net_ops \<Rightarrow> network_address \<Rightarrow> xor_name option" where
  "as_xorname N (SpendAddress x) = Some x"
| "as_xorname N (ChunkAddress x) = Some x"
| "as_xorname N (RegisterAddress a) = Some (register_xorname N a)"
| "as_xorname N (ScratchpadAddress a) = Some (scratchpad_xorname N a)"
| "as_xorname N _ = None"

fun as_record_key :: "network_address \<Rightarrow> record_key option" where
  "as_record_key (RecordKeyAddress bs) = Some bs"
| "as_record_key _ = None"

fun to_record_key :: "net_ops \<Rightarrow> network_address \<Rightarrow> record_key" where
  "to_record_key N (RecordKeyAddress bs) = bs"
| "to_record_key N (ChunkAddress x) = be_bytes x"
| "to_record_key N (RegisterAddress a) = be_bytes (register_xorname N a)"
| "to_record_key N (SpendAddress x) = be_bytes x"
| "to_record_key N (ScratchpadAddress a) = be_bytes (scratchpad_xorname N a)"
| "to_record_key N (PeerIdAddress bs) = bs"

definition as_kbucket_key :: "net_ops \<Rightarrow> network_address \<Rightarrow> distance" where
  "as_kbucket_key N a = kad_hash N (address_bytes N a)"

definition addr_distance :: "net_ops \<Rightarrow> network_address \<Rightarrow> network_address \<Rightarrow> distance" where
  "addr_distance N a b = as_kbucket_key N a XOR as_kbucket_key N b"

text \<open>\<open>Distance::ilog2\<close>: the index of the highest bit, none for a zero distance.\<close>

definition ilog2 :: "distance \<Rightarrow> nat option" where
  "ilog2 d = find (\<lambda>i. bit d i) (rev [0..<256])"

lemma to_record_key_bytes: "to_record_key N a = address_bytes N a"
  by (cases a) simp_all

lemma distance_of_record_key:
  "addr_distance N a (from_record_key (to_record_key N b)) = addr_distance N a b"
  by (simp add: addr_distance_def as_kbucket_key_def from_record_key_def to_record_key_bytes)

subsection \<open>The distance as an interface\<close>

text \<open>What the components that sort and prune by distance rely on: a zero distance only
  between equal points, symmetry, the triangle inequality (over the integers), and that a
  distance from a given point determines the other point.\<close>

locale xor_metric =
  fixes point :: "'a \<Rightarrow> distance" and dist :: "'a \<Rightarrow> 'a \<Rightarrow> distance"
  assumes dist_zero_iff: "dist a b = 0 \<longleftrightarrow> point a = point b"
    and dist_sym: "dist a b = dist b a"
    and dist_triangle: "unat (dist a c) \<le> unat (dist a b) + unat (dist b c)"
    and dist_unique: "dist a b = dist a c \<longleftrightarrow> point b = point c"
begin

lemma dist_self: "dist a a = 0"
  by (simp add: dist_zero_iff)

text \<open>Sorting by distance puts the closest first: everything in the first \<open>n\<close> is at most as
  far as everything after.\<close>

lemma sort_take_closest:
  assumes "x \<in> set (take n (sort_key (dist a) xs))" and "y \<in> set (drop n (sort_key (dist a) xs))"
  shows "dist a x \<le> dist a y"
proof -
  have "sorted (map (dist a) (take n (sort_key (dist a) xs) @ drop n (sort_key (dist a) xs)))"
    by simp
  then show ?thesis using assms unfolding map_append sorted_append by simp
qed

lemma closer_than_centre:
  assumes "dist a b < dist a c"
  shows "point b \<noteq> point c"
  using assms dist_unique [of a b c] by auto

end

lemma unat_xor_le: "unat (a XOR b) \<le> unat a + unat b" for a b :: "'a::len word"
proof -
  have "uint a + uint b = (uint a AND uint b) + (uint a OR uint b)"
    by (simp add: plus_and_or)
  moreover have "uint a OR uint b = (uint a XOR uint b) + (uint a AND uint b)"
  proof -
    have "(uint a XOR uint b) AND (uint a AND uint b) = 0"
      by (rule bit_eqI) (auto simp: bit_simps)
    moreover have "(uint a XOR uint b) OR (uint a AND uint b) = uint a OR uint b"
      by (rule bit_eqI) (auto simp: bit_simps)
    ultimately show ?thesis using plus_and_or [of "uint a XOR uint b" "uint a AND uint b"] by simp
  qed
  ultimately have "uint (a XOR b) \<le> uint a + uint b"
    by (simp add: unsigned_xor_eq)
  then show ?thesis unfolding uint_nat by linarith
qed

lemma xor_eq_0_iff: "a XOR b = 0 \<longleftrightarrow> a = b" for a b :: "'a::len word"
  by (metis xor.assoc xor.left_neutral xor_self_eq)

lemma xor_cancel_iff: "a XOR b = a XOR c \<longleftrightarrow> b = c" for a b c :: "'a::len word"
  by (metis xor.assoc xor.left_neutral xor_self_eq)

interpretation net_metric: xor_metric "as_kbucket_key N" "addr_distance N" for N
proof
  show "addr_distance N a b = 0 \<longleftrightarrow> as_kbucket_key N a = as_kbucket_key N b" for a b
    by (simp add: addr_distance_def xor_eq_0_iff)
  show "addr_distance N a b = addr_distance N b a" for a b
    by (simp add: addr_distance_def xor.commute)
  show "unat (addr_distance N a c) \<le> unat (addr_distance N a b) + unat (addr_distance N b c)"
    for a b c
  proof -
    have "addr_distance N a c = addr_distance N a b XOR addr_distance N b c"
      unfolding addr_distance_def by (metis xor.assoc xor.left_neutral xor_self_eq)
    then show ?thesis by (simp only: unat_xor_le)
  qed
  show "addr_distance N a b = addr_distance N a c \<longleftrightarrow> as_kbucket_key N b = as_kbucket_key N c"
    for a b c
    by (simp add: addr_distance_def xor_cancel_iff)
qed

subsection \<open>Record headers (storage/header.rs)\<close>

datatype record_type = ChunkType | ScratchpadType | NonChunkType xor_name

datatype record_kind =
    KChunk | KChunkWithPayment | KSpend | KRegister | KRegisterWithPayment
  | KScratchpad | KScratchpadWithPayment

record kad_record =
  rec_key :: record_key
  rec_value :: bytes

datatype protocol_error =
    UserDataDirectoryNotObtainable
  | CouldNotObtainPortFromMultiAddr
  | ParseRetryStrategyError
  | CouldNotObtainDataDir
  | ChunkDoesNotExist network_address
  | RegisterNotFound register_address
  | RegisterAlreadyClaimed public_key
  | RegisterRecordNotFound network_address network_address
  | ScratchpadHexDeserializeFailed
  | ScratchpadCipherTextFailed
  | GetStoreCostFailed
  | QuoteGenerationFailed
  | ReplicatedRecordNotFound network_address network_address
  | RecordHeaderParsingFailed
  | RecordParsingFailed
  | RecordExists record_key

text \<open>The serialisation library: a structure with one \<open>u32\<close> field (the header), and the
  payload of a record of type \<open>'a\<close>.\<close>

record 'a codec =
  enc_header :: "u32 \<Rightarrow> bytes option"
  dec_header :: "bytes \<Rightarrow> u32 option"
  enc_payload :: "'a \<Rightarrow> bytes option"
  dec_payload :: "bytes \<Rightarrow> 'a option"

fun kind_to_u32 :: "record_kind \<Rightarrow> u32" where
  "kind_to_u32 KChunkWithPayment = 0"
| "kind_to_u32 KChunk = 1"
| "kind_to_u32 KSpend = 2"
| "kind_to_u32 KRegister = 3"
| "kind_to_u32 KRegisterWithPayment = 4"
| "kind_to_u32 KScratchpad = 5"
| "kind_to_u32 KScratchpadWithPayment = 6"

definition kind_from_u32 :: "u32 \<Rightarrow> record_kind option" where
  "kind_from_u32 num =
     (if num = 0 then Some KChunkWithPayment
      else if num = 1 then Some KChunk
      else if num = 2 then Some KSpend
      else if num = 3 then Some KRegister
      else if num = 4 then Some KRegisterWithPayment
      else if num = 5 then Some KScratchpad
      else if num = 6 then Some KScratchpadWithPayment
      else None)"

definition HEADER_SIZE :: nat where
  "HEADER_SIZE = 2"

definition header_try_serialize :: "'a codec \<Rightarrow> record_kind \<Rightarrow> (protocol_error, bytes) result" where
  "header_try_serialize C kind = ok_or (enc_header C (kind_to_u32 kind)) RecordHeaderParsingFailed"

definition header_try_deserialize :: "'a codec \<Rightarrow> bytes \<Rightarrow> (protocol_error, record_kind) result" where
  "header_try_deserialize C bs =
     ok_or (Option.bind (dec_header C bs) kind_from_u32) RecordHeaderParsingFailed"

definition header_from_record :: "'a codec \<Rightarrow> kad_record \<Rightarrow> (protocol_error, record_kind) result" where
  "header_from_record C r =
     (if length (rec_value r) < HEADER_SIZE + 1 then Err RecordHeaderParsingFailed
      else header_try_deserialize C (take (HEADER_SIZE + 1) (rec_value r)))"

definition is_record_of_type_chunk :: "'a codec \<Rightarrow> kad_record \<Rightarrow> (protocol_error, bool) result" where
  "is_record_of_type_chunk C r = and_then (header_from_record C r) (\<lambda>kind. Ok (kind = KChunk))"

definition try_deserialize_record :: "'a codec \<Rightarrow> kad_record \<Rightarrow> (protocol_error, 'a) result" where
  "try_deserialize_record C r =
     (if length (rec_value r) > HEADER_SIZE
      then ok_or (dec_payload C (drop HEADER_SIZE (rec_value r))) RecordParsingFailed
      else Err RecordParsingFailed)"

definition try_serialize_record :: "'a codec \<Rightarrow> 'a \<Rightarrow> record_kind \<Rightarrow> (protocol_error, bytes) result" where
  "try_serialize_record C data kind =
     and_then (header_try_serialize C kind) (\<lambda>buf.
     and_then (ok_or (enc_payload C data) RecordParsingFailed) (\<lambda>payload.
     Ok (buf @ payload)))"

lemma kind_from_to_u32 [simp]: "kind_from_u32 (kind_to_u32 k) = Some k"
  by (cases k) (simp_all add: kind_from_u32_def)

lemma kind_to_from_u32: "kind_from_u32 n = Some k \<Longrightarrow> kind_to_u32 k = n"
  by (auto simp: kind_from_u32_def split: if_splits)

text \<open>What the record format relies on: the header of a small number takes exactly
  \<open>HEADER_SIZE\<close> bytes, it is decoded from a slice with trailing bytes, and a payload that is
  encoded takes at least one byte and is decoded to itself.\<close>

definition codec_correct :: "'a codec \<Rightarrow> bool" where
  "codec_correct C \<longleftrightarrow>
     (\<forall>n. n \<le> 6 \<longrightarrow> (\<exists>h. enc_header C n = Some h \<and> length h = HEADER_SIZE
        \<and> (\<forall>b. dec_header C (h @ [b]) = Some n)))
     \<and> (\<forall>x bs. enc_payload C x = Some bs \<longrightarrow> bs \<noteq> [] \<and> dec_payload C bs = Some x)"

lemma kind_to_u32_le: "kind_to_u32 k \<le> 6"
  by (cases k) simp_all

lemma codec_header:
  assumes "codec_correct C"
  obtains h where "enc_header C (kind_to_u32 k) = Some h" and "length h = HEADER_SIZE"
    and "\<And>b. dec_header C (h @ [b]) = Some (kind_to_u32 k)"
  using assms kind_to_u32_le [of k] unfolding codec_correct_def by blast

text \<open>A record value made by \<open>try_serialize_record\<close> has the header and the payload it was
  made from.\<close>

lemma serialize_record_roundtrip:
  assumes "codec_correct C" and "try_serialize_record C data kind = Ok bs"
  shows "header_from_record C \<lparr> rec_key = key, rec_value = bs \<rparr> = Ok kind"
    and "try_deserialize_record C \<lparr> rec_key = key, rec_value = bs \<rparr> = Ok data"
proof -
  obtain h where h: "enc_header C (kind_to_u32 kind) = Some h" "length h = HEADER_SIZE"
    and dec: "\<And>b. dec_header C (h @ [b]) = Some (kind_to_u32 kind)"
    using codec_header [OF assms(1)] by blast
  obtain p where p: "enc_payload C data = Some p" and bs: "bs = h @ p"
    using assms(2) h
    by (auto simp: try_serialize_record_def header_try_serialize_def result_simps)
  have "p \<noteq> []" and dp: "dec_payload C p = Some data"
    using assms(1) p unfolding codec_correct_def by blast+
  then obtain b q where q: "p = b # q" by (cases p) auto
  have "take (HEADER_SIZE + 1) bs = h @ [b]" using bs q h(2) by simp
  moreover have "HEADER_SIZE < length bs" using bs q h(2) by simp
  ultimately show "header_from_record C \<lparr> rec_key = key, rec_value = bs \<rparr> = Ok kind"
    by (simp add: header_from_record_def header_try_deserialize_def dec)
  show "try_deserialize_record C \<lparr> rec_key = key, rec_value = bs \<rparr> = Ok data"
    using bs q h(2) dp by (simp add: try_deserialize_record_def)
qed

text \<open>C34: whatever is serialised into a record value is read back from it: the kind from the
  header and the data from the rest.\<close>

theorem record_value_roundtrip:
  assumes "codec_correct C" and "try_serialize_record C data kind = Ok bs"
  shows "header_from_record C \<lparr> rec_key = key, rec_value = bs \<rparr> = Ok kind
     \<and> try_deserialize_record C \<lparr> rec_key = key, rec_value = bs \<rparr> = Ok data
     \<and> is_record_of_type_chunk C \<lparr> rec_key = key, rec_value = bs \<rparr> = Ok (kind = KChunk)"
  using serialize_record_roundtrip [OF assms]
  by (simp add: is_record_of_type_chunk_def)

text \<open>The MessagePack encoding of the header (an array of one small integer), with the
  identity on byte strings as payload.\<close>

definition msgpack :: "bytes codec" where
  "msgpack = \<lparr> enc_header = (\<lambda>n. Some [145, ucast n]),
               dec_header = (\<lambda>bs. case bs of a # n # _ \<Rightarrow>
                  (if a = 145 \<and> n < 128 then Some (ucast n) else None) | _ \<Rightarrow> None),
               enc_payload = (\<lambda>bs. if bs = [] then None else Some bs),
               dec_payload = (\<lambda>bs. Some bs) \<rparr>"

lemma msgpack_correct: "codec_correct msgpack"
proof -
  have "(ucast (ucast n :: u8) :: u32) = n \<and> (ucast n :: u8) < 128" if "n \<le> 6" for n :: u32
  proof -
    have "unat n \<le> 6" using that by (simp add: word_le_nat_alt)
    moreover have "unat (ucast n :: u8) = unat n mod 256" by (simp add: unsigned_ucast_eq take_bit_eq_mod)
    ultimately have u: "unat (ucast n :: u8) = unat n" by simp
    then have "unat (ucast (ucast n :: u8) :: u32) = unat n"
      using \<open>unat n \<le> 6\<close> by (simp add: unsigned_ucast_eq take_bit_eq_mod unat_mod)
    with u \<open>unat n \<le> 6\<close> show ?thesis by (simp add: word_unat_eq_iff word_less_nat_alt)
  qed
  then show ?thesis by (auto simp: codec_correct_def msgpack_def HEADER_SIZE_def split: if_splits)
qed

theorem record_value_roundtrip_witness:
  "header_from_record msgpack \<lparr> rec_key = [1], rec_value = [145, 2, 7, 8] \<rparr> = Ok KSpend
   \<and> try_deserialize_record msgpack \<lparr> rec_key = [1], rec_value = [145, 2, 7, 8] \<rparr> = Ok [7, 8]"
  using record_value_roundtrip [OF msgpack_correct, of "[7, 8]" KSpend "[145, 2, 7, 8]" "[1]"]
  by (simp add: try_serialize_record_def header_try_serialize_def msgpack_def)

subsection \<open>Chunks and scratchpads (storage/chunks.rs, storage/scratchpad.rs)\<close>

record chunk =
  chunk_address :: xor_name
  chunk_value :: bytes

definition chunk_new :: "net_ops \<Rightarrow> bytes \<Rightarrow> chunk" where
  "chunk_new N value = \<lparr> chunk_address = xor_from_content N value, chunk_value = value \<rparr>"

definition chunk_network_address :: "chunk \<Rightarrow> network_address" where
  "chunk_network_address c = ChunkAddress (chunk_address c)"

record scratchpad =
  pad_address :: scratchpad_address
  encrypted_data :: bytes
  pad_counter :: u64
  pad_signature :: "signature option"

definition scratchpad_new :: "public_key \<Rightarrow> scratchpad" where
  "scratchpad_new owner =
     \<lparr> pad_address = \<lparr> sa_owner = owner \<rparr>, encrypted_data = [], pad_counter = 0,
       pad_signature = None \<rparr>"

definition pad_owner :: "scratchpad \<Rightarrow> public_key" where
  "pad_owner p = sa_owner (pad_address p)"

definition encrypted_data_hash :: "net_ops \<Rightarrow> scratchpad \<Rightarrow> xor_name" where
  "encrypted_data_hash N p = xor_from_content N (encrypted_data p)"

definition pad_increment :: "scratchpad \<Rightarrow> scratchpad \<times> u64" where
  "pad_increment p = (let p' = p \<lparr> pad_counter := pad_counter p + 1 \<rparr> in (p', pad_counter p'))"

definition pad_signing_bytes :: "net_ops \<Rightarrow> scratchpad \<Rightarrow> bytes" where
  "pad_signing_bytes N p = be_bytes (pad_counter p) @ be_bytes (encrypted_data_hash N p)"

text \<open>\<open>encrypt\<close> is the public-key encryption of the BLS library.\<close>

definition update_and_sign ::
    "bls_ops \<Rightarrow> net_ops \<Rightarrow> (public_key \<Rightarrow> bytes \<Rightarrow> bytes) \<Rightarrow> scratchpad \<Rightarrow> bytes \<Rightarrow> secret_key
      \<Rightarrow> scratchpad \<times> u64" where
  "update_and_sign B N encrypt p unencrypted_data sk =
     (case pad_increment p of (p1, next_count) \<Rightarrow>
        let p2 = p1 \<lparr> encrypted_data := encrypt (pad_owner p1) unencrypted_data \<rparr>
        in (p2 \<lparr> pad_signature := Some (sk_sign B sk (pad_signing_bytes N p2)) \<rparr>, next_count))"

definition pad_is_valid :: "bls_ops \<Rightarrow> net_ops \<Rightarrow> scratchpad \<Rightarrow> bool" where
  "pad_is_valid B N p =
     (case pad_signature p of
        Some sig \<Rightarrow> pk_verify B (pad_owner p) sig (pad_signing_bytes N p)
      | None \<Rightarrow> False)"

definition pad_network_address :: "scratchpad \<Rightarrow> network_address" where
  "pad_network_address p = ScratchpadAddress (pad_address p)"

text \<open>An update signed by the owner keeps the address, counts up by one (modulo the
  width of the counter), and is valid; the signed bytes determine the counter and the hash
  of the data.\<close>

theorem scratchpad_update_valid:
  assumes "bls_correct B" and "pad_owner p = sk_public_key B sk"
    and "update_and_sign B N encrypt p data sk = (p', n)"
  shows "pad_is_valid B N p' \<and> n = pad_counter p + 1 \<and> pad_counter p' = n
     \<and> pad_address p' = pad_address p \<and> encrypted_data p' = encrypt (pad_owner p) data
     \<and> (pad_signing_bytes N p' = pad_signing_bytes N q
         \<longleftrightarrow> pad_counter p' = pad_counter q \<and> encrypted_data_hash N p' = encrypted_data_hash N q)"
proof -
  have "p' = p \<lparr> pad_counter := pad_counter p + 1, encrypted_data := encrypt (pad_owner p) data,
      pad_signature := Some (sk_sign B sk (pad_signing_bytes N
        (p \<lparr> pad_counter := pad_counter p + 1, encrypted_data := encrypt (pad_owner p) data \<rparr>))) \<rparr>"
    and "n = pad_counter p + 1"
    using assms(3) by (auto simp: update_and_sign_def pad_increment_def Let_def pad_owner_def)
  moreover from assms(2) have "sa_owner (pad_address p) = sk_public_key B sk"
    by (simp add: pad_owner_def)
  moreover have "pad_signing_bytes N p' = pad_signing_bytes N q
      \<longleftrightarrow> pad_counter p' = pad_counter q \<and> encrypted_data_hash N p' = encrypted_data_hash N q"
    by (simp add: pad_signing_bytes_def be_bytes_inj)
  ultimately show ?thesis
    using assms(1)
    by (simp add: pad_is_valid_def pad_owner_def bls_sign_verifies pad_signing_bytes_def
        encrypted_data_hash_def)
qed

definition example_net :: net_ops where
  "example_net = \<lparr> kad_hash = (\<lambda>bs. fold (\<lambda>b h. h * 257 + ucast b + 1) bs 0),
                   xor_from_content = (\<lambda>bs. fold (\<lambda>b h. h * 257 + ucast b + 1) bs 0),
                   peer_id_valid = (\<lambda>_. True) \<rparr>"

theorem scratchpad_update_valid_witness:
  "pad_is_valid xor_bls example_net
     (fst (update_and_sign xor_bls example_net (\<lambda>pk bs. rev bs) (scratchpad_new 7) [1, 2] 7))"
  using scratchpad_update_valid [of xor_bls "scratchpad_new 7" 7 example_net "\<lambda>pk bs. rev bs" "[1, 2]"
      "fst (update_and_sign xor_bls example_net (\<lambda>pk bs. rev bs) (scratchpad_new 7) [1, 2] 7)"
      "snd (update_and_sign xor_bls example_net (\<lambda>pk bs. rev bs) (scratchpad_new 7) [1, 2] 7)"]
  by (simp add: scratchpad_new_def pad_owner_def)

subsection \<open>\<open>RetryStrategy\<close> (storage.rs)\<close>

datatype retry_strategy = Quick | Balanced | Persistent

fun retry_duration_secs :: "retry_strategy \<Rightarrow> nat" where
  "retry_duration_secs Quick = 15"
| "retry_duration_secs Balanced = 60"
| "retry_duration_secs Persistent = 180"

fun retry_count :: "retry_strategy \<Rightarrow> nat" where
  "retry_count Quick = 1"
| "retry_count Balanced = 3"
| "retry_count Persistent = 6"

end
