(* ===== verification/Spend_Validation.thy ===== *)
theory Spend_Validation
  imports Spends Protocol
begin

section \<open>Spends on the network (sn\_networking spends.rs and transfers.rs, transfer.rs, genesis.rs)\<close>

text \<open>
  Fetching spends, \<open>verify_spend\<close>, which nodes run before they store a spend, the transfer
  that tells a recipient where the parents of a note are, and the redemption that turns it
  back into cash notes. The network is the argument \<open>get_record\<close> (the answer of
  \<open>get_record_from_network\<close> for a key and a configuration); the decoder of the list of spends
  in a record is a \<open>codec\<close>. The text of a nested error is left out of the messages.
\<close>

datatype quorum = QOne | QMajority | QAll | QN nat

record get_record_cfg =
  get_quorum :: quorum
  cfg_retry_strategy :: "retry_strategy option"
  target_record :: "kad_record option"
  expected_holders :: "peer_id list"
  is_register :: bool

datatype get_record_error =
    NotEnoughCopies kad_record nat nat
  | RecordNotFound
  | SplitRecord "(xor_name \<times> kad_record \<times> peer_id list) list"
  | QueryTimeout
  | RecordDoesNotMatch kad_record

text \<open>The payloads that come from other libraries are left out.\<close>

datatype outbound_failure = DialFailure | OutboundTimeout | ConnectionClosed | UnsupportedProtocols | OutboundIo

datatype network_error =
    DialError
  | IoError
  | KademliaStoreError
  | TransportError
  | ProtocolError protocol_error
  | WalletErr
  | TransferErr t_error
  | SigningFailed
  | GetRecordError get_record_error
  | RecordNotStoredByNodes network_address
  | RecordKindMismatch record_kind
  | InCorrectRecordHeader
  | FailedToGetSpend string
  | InvalidTransfer string
  | FailedToVerifyChunkProof network_address
  | NoSpendFoundInsideRecord xor_name
  | DoubleSpendAttempt "signed_spend list"
  | NoStoreCostResponses
  | FailedToCreateRecordStoreDir
  | NotEnoughPeers nat nat
  | ListenAddressNotProvided
  | NetworkMetricError
  | OutboundError outbound_failure
  | ReceivedKademliaEventDropped
  | SenderDropped
  | InternalMsgChannelDropped
  | ReceivedResponseDropped
  | OutgoingResponseDropped
  | BahviourErr string

type_synonym get_record_fn = "record_key \<Rightarrow> get_record_cfg \<Rightarrow> (network_error, kad_record) result"

fun map_err :: "('e \<Rightarrow> 'f) \<Rightarrow> ('e, 'a) result \<Rightarrow> ('f, 'a) result" where
  "map_err f (Inl e) = Inl (f e)"
| "map_err f (Inr x) = Inr x"

lemma map_err_Ok_iff [result_simps, simp]: "map_err f r = Inr x \<longleftrightarrow> r = Inr x"
  by (cases r) simp_all

definition close_group_majority :: nat where
  "close_group_majority = CLOSE_GROUP_SIZE div 2 + 1"

fun get_quorum_value :: "quorum \<Rightarrow> nat" where
  "get_quorum_value QMajority = close_group_majority"
| "get_quorum_value QAll = CLOSE_GROUP_SIZE"
| "get_quorum_value (QN v) = v"
| "get_quorum_value QOne = 1"

subsection \<open>Fetching spends (transfers.rs)\<close>

definition get_raw_signed_spends_from_record ::
    "signed_spend list codec \<Rightarrow> kad_record \<Rightarrow> (network_error, signed_spend list) result" where
  "get_raw_signed_spends_from_record C r =
     and_then (map_err ProtocolError (header_from_record C r)) (\<lambda>kind.
       if kind = KSpend then map_err ProtocolError (try_deserialize_record C r)
       else Err (RecordKindMismatch KSpend))"

definition get_signed_spend_from_record ::
    "signed_spend list codec \<Rightarrow> xor_name \<Rightarrow> kad_record \<Rightarrow> (network_error, signed_spend) result" where
  "get_signed_spend_from_record C address r =
     and_then (get_raw_signed_spends_from_record C r) (\<lambda>spends.
       case spends of
         [] \<Rightarrow> Err (NoSpendFoundInsideRecord address)
       | [one] \<Rightarrow> Ok one
       | _ \<Rightarrow> Err (DoubleSpendAttempt spends))"

definition get_raw_spends ::
    "net_ops \<Rightarrow> signed_spend list codec \<Rightarrow> get_record_fn \<Rightarrow> xor_name
      \<Rightarrow> (network_error, signed_spend list) result" where
  "get_raw_spends N C get_record address =
     (let key = to_record_key N (SpendAddress address);
          get_cfg = \<lparr> get_quorum = QMajority, cfg_retry_strategy = None, target_record = None,
                      expected_holders = [], is_register = False \<rparr>
      in and_then (get_record key get_cfg) (get_raw_signed_spends_from_record C))"

definition get_spend ::
    "net_ops \<Rightarrow> signed_spend list codec \<Rightarrow> get_record_fn \<Rightarrow> xor_name
      \<Rightarrow> (network_error, signed_spend) result" where
  "get_spend N C get_record address =
     (let key = to_record_key N (SpendAddress address);
          get_cfg = \<lparr> get_quorum = QAll, cfg_retry_strategy = Some Quick, target_record = None,
                      expected_holders = [], is_register = False \<rparr>
      in and_then
           (case get_record key get_cfg of
              Inr r \<Rightarrow> Ok r
            | Inl (GetRecordError (NotEnoughCopies r expected got)) \<Rightarrow>
                if got \<ge> close_group_majority
                then get_record key
                       (get_cfg \<lparr> get_quorum := QMajority, cfg_retry_strategy := Some Balanced \<rparr>)
                else Err (GetRecordError (NotEnoughCopies r expected got))
            | Inl err \<Rightarrow> Err err)
           (get_signed_spend_from_record C address))"

subsection \<open>Genesis (genesis.rs)\<close>

text \<open>\<open>TOTAL_SUPPLY\<close> is exact; the genesis amount is 0.3 of it computed in floating point, whose
  value is the constant below.\<close>

definition TOTAL_SUPPLY :: u64 where
  "TOTAL_SUPPLY = 4294967295 * 10 ^ 9"

definition GENESIS_CASHNOTE_AMOUNT :: u64 where
  "GENESIS_CASHNOTE_AMOUNT = 1288490188500000000"

definition GENESIS_INPUT_DERIVATION_INDEX :: derivation_index where
  "GENESIS_INPUT_DERIVATION_INDEX = 0"

text \<open>All 32 bytes of the output index are 1.\<close>

definition GENESIS_OUTPUT_DERIVATION_INDEX :: derivation_index where
  "GENESIS_OUTPUT_DERIVATION_INDEX
     = 0x0101010101010101010101010101010101010101010101010101010101010101"

definition genesis_spend_unique_key :: "bls_ops \<Rightarrow> main_pubkey \<Rightarrow> unique_pubkey" where
  "genesis_spend_unique_key B genesis_pk =
     new_unique_pubkey B genesis_pk GENESIS_OUTPUT_DERIVATION_INDEX"

definition is_genesis_spend :: "bls_ops \<Rightarrow> main_pubkey \<Rightarrow> signed_spend \<Rightarrow> bool" where
  "is_genesis_spend B genesis_pk s \<longleftrightarrow>
     sp_unique_pubkey (ss_spend s) = genesis_spend_unique_key B genesis_pk
     \<and> pk_verify B (genesis_spend_unique_key B genesis_pk) (derived_key_sig s)
         (to_bytes_for_signing B (ss_spend s))
     \<and> spend_amount (ss_spend s) = NanoTokens GENESIS_CASHNOTE_AMOUNT"

definition create_first_cash_note_from_key :: "bls_ops \<Rightarrow> main_secret_key \<Rightarrow> cash_note" where
  "create_first_cash_note_from_key B first_cash_note_key =
     (let main_pubkey = main_pubkey_of B first_cash_note_key;
          input_sk = derive_key B first_cash_note_key GENESIS_INPUT_DERIVATION_INDEX;
          input_pk = derived_unique_pubkey B input_sk;
          output_pk = new_unique_pubkey B main_pubkey GENESIS_OUTPUT_DERIVATION_INDEX;
          pre_genesis_spend =
            \<lparr> sp_unique_pubkey = input_pk, sp_reason = NoReason, sp_ancestors = [],
              sp_descendants = [(output_pk, NanoTokens GENESIS_CASHNOTE_AMOUNT)],
              sp_royalties = [] \<rparr>
      in \<lparr> parent_spends = [signed_spend_sign B pre_genesis_spend input_sk],
           cn_main_pubkey = main_pubkey,
           cn_derivation_index = GENESIS_OUTPUT_DERIVATION_INDEX \<rparr>)"

subsection \<open>\<open>verify_spend\<close> (spends.rs)\<close>

fun collect_parents ::
    "unique_pubkey \<Rightarrow> (unique_pubkey \<times> (network_error, signed_spend) result) list
      \<Rightarrow> signed_spend list \<Rightarrow> (network_error, unit) result
      \<Rightarrow> (network_error, signed_spend list \<times> (network_error, unit) result) result" where
  "collect_parents unique_key [] parents res = Ok (parents, res)"
| "collect_parents unique_key ((parent_key, Inr parent) # rest) parents res =
     collect_parents unique_key rest (bset_insert signed_spend_key parent parents) res"
| "collect_parents unique_key ((parent_key, Inl (DoubleSpendAttempt attempts)) # rest) parents res =
     collect_parents unique_key rest (bset_extend signed_spend_key parents attempts)
       (Err (TransferErr DoubleSpentParent))"
| "collect_parents unique_key ((parent_key, Inl e) # rest) parents res =
     Err (TransferErr (InvalidParentSpend
       (Message ''Failed to get parent spend'' [ArgKey unique_key, ArgKey parent_key])))"

definition verify_spend ::
    "bls_ops \<Rightarrow> net_ops \<Rightarrow> signed_spend list codec \<Rightarrow> get_record_fn \<Rightarrow> main_pubkey \<Rightarrow> signed_spend
      \<Rightarrow> (network_error, unit) result" where
  "verify_spend B N C get_record genesis_pk s =
     and_then (map_err TransferErr (signed_spend_verify B s)) (\<lambda>_.
       if is_genesis_spend B genesis_pk s then Ok ()
       else
         let tasks = map (\<lambda>parent. (parent, get_spend N C get_record (spend_address_of N parent)))
                       (sp_ancestors (ss_spend s))
         in and_then (collect_parents (ss_unique_pubkey s) tasks [] (Ok ())) (\<lambda>(parents, res).
              and_then (map_err TransferErr (verify_parent_spends s parents)) (\<lambda>_. res)))"

lemma collect_parents_ok:
  "list_all (\<lambda>(_, r). is_ok r) tasks \<Longrightarrow>
     collect_parents key tasks parents res
       = Ok (bset_extend signed_spend_key parents (map (\<lambda>(_, r). projr r) tasks), res)"
  by (induction key tasks parents res rule: collect_parents.induct)
    (simp_all add: bset_extend_def)

text \<open>Once a parent could not be fetched as a single spend, the result is an error.\<close>

lemma collect_parents_not_ok:
  assumes "\<not> list_all (\<lambda>(_, r). is_ok r) tasks \<or> res \<noteq> Ok ()"
    and "collect_parents key tasks parents res = Ok (ps, res')"
  shows "res' \<noteq> Ok ()"
  using assms
  by (induction key tasks parents res arbitrary: ps res' rule: collect_parents.induct) auto

lemma verify_spend_ok_iff:
  "verify_spend B N C get_record gpk s = Ok () \<longleftrightarrow>
     signed_spend_verify B s = Ok ()
     \<and> (is_genesis_spend B gpk s
        \<or> list_all (\<lambda>a. is_ok (get_spend N C get_record (spend_address_of N a)))
             (sp_ancestors (ss_spend s))
          \<and> verify_parent_spends s
              (bset_of signed_spend_key
                 (map (\<lambda>a. projr (get_spend N C get_record (spend_address_of N a)))
                    (sp_ancestors (ss_spend s)))) = Ok ())"
proof -
  let ?get = "\<lambda>a. get_spend N C get_record (spend_address_of N a)"
  let ?tasks = "map (\<lambda>a. (a, ?get a)) (sp_ancestors (ss_spend s))"
  let ?all = "list_all (\<lambda>a. is_ok (?get a)) (sp_ancestors (ss_spend s))"
  have all: "list_all (\<lambda>(_, r). is_ok r) ?tasks \<longleftrightarrow> ?all" by (simp add: list_all_iff)
  have "and_then (collect_parents (ss_unique_pubkey s) ?tasks [] (Ok ())) (\<lambda>(parents, res).
          and_then (map_err TransferErr (verify_parent_spends s parents)) (\<lambda>_. res)) = Ok ()
      \<longleftrightarrow> ?all \<and> verify_parent_spends s
           (bset_of signed_spend_key (map (\<lambda>a. projr (?get a)) (sp_ancestors (ss_spend s)))) = Ok ()"
  proof (cases ?all)
    case True
    then show ?thesis
      by (simp add: collect_parents_ok all bset_of_def comp_def result_simps)
  next
    case False
    show ?thesis
    proof (cases "collect_parents (ss_unique_pubkey s) ?tasks [] (Ok ())")
      case (Inr x)
      then obtain ps res where x: "collect_parents (ss_unique_pubkey s) ?tasks [] (Ok ()) = Ok (ps, res)"
        by (cases x) simp
      then have "res \<noteq> Ok ()" using collect_parents_not_ok [OF _ x] False all by blast
      then show ?thesis using x False by (simp add: result_simps)
    qed (use False in simp)
  qed
  then show ?thesis by (auto simp: verify_spend_def Let_def result_simps)
qed

subsection \<open>The ledger\<close>

text \<open>The outputs of the spends of a ledger to keys that no spend of it has.\<close>

definition unspent_total :: "signed_spend set \<Rightarrow> nat" where
  "unspent_total V =
     (\<Sum>s\<in>V. sum_list (map (\<lambda>(k, amount). unat (as_nano amount))
        (filter (\<lambda>(k, _). k \<notin> ss_unique_pubkey ` V) (sp_descendants (ss_spend s)))))"

definition pays :: "signed_spend \<Rightarrow> unique_pubkey \<Rightarrow> nat" where
  "pays s k = unat (output_amount_or_zero k s)"

lemma pays_map_of:
  "pays s k = (case map_of (sp_descendants (ss_spend s)) k of None \<Rightarrow> 0 | Some a \<Rightarrow> unat (as_nano a))"
  by (simp add: pays_def output_amount_or_zero_def get_output_amount_def nano_zero_def
      split: option.split)

lemma sum_list_map_of:
  fixes f :: "'v \<Rightarrow> nat"
  assumes "distinct (map fst m)" and "finite K"
  shows "sum_list (map (\<lambda>(k, a). f a) (filter (\<lambda>(k, _). k \<in> K) m))
    = (\<Sum>k\<in>K. case map_of m k of None \<Rightarrow> 0 | Some a \<Rightarrow> f a)"
  using assms(1)
proof (induction m)
  case Nil
  then show ?case by simp
next
  case (Cons x m)
  obtain k a where x: "x = (k, a)" by (cases x)
  have none: "map_of m k = None" using Cons.prems x by (simp add: map_of_eq_None_iff)
  let ?g = "\<lambda>m k. case map_of m k of None \<Rightarrow> 0 | Some a \<Rightarrow> f a"
  show ?case
  proof (cases "k \<in> K")
    case True
    have "(\<Sum>k'\<in>K. ?g (x # m) k') = ?g (x # m) k + (\<Sum>k'\<in>K - {k}. ?g (x # m) k')"
      using assms(2) True by (rule sum.remove)
    also have "(\<Sum>k'\<in>K - {k}. ?g (x # m) k') = (\<Sum>k'\<in>K - {k}. ?g m k')"
      using x by (intro sum.cong) auto
    also have "\<dots> = (\<Sum>k'\<in>K. ?g m k')"
      using assms(2) True none by (simp add: sum.remove [of K k])
    finally show ?thesis using Cons x True by simp
  next
    case False
    have "(\<Sum>k'\<in>K. ?g (x # m) k') = (\<Sum>k'\<in>K. ?g m k')"
      using x False by (intro sum.cong) auto
    then show ?thesis using Cons x False by simp
  qed
qed

lemma sum_list_filter_split:
  "sum_list (map f xs) = sum_list (map f (filter P xs)) + sum_list (map f (filter (\<lambda>x. \<not> P x) xs))"
  for f :: "'a \<Rightarrow> nat"
  by (induction xs) auto

text \<open>The outputs of a spend are those to keys of the ledger and the unspent ones.\<close>

lemma outputs_split:
  assumes "finite V" and "inj_on ss_unique_pubkey V"
    and "bmap_inv (sp_descendants (ss_spend s))"
  shows "outputs_total (ss_spend s)
    = (\<Sum>t\<in>V. pays s (ss_unique_pubkey t))
      + sum_list (map (\<lambda>(k, amount). unat (as_nano amount))
          (filter (\<lambda>(k, _). k \<notin> ss_unique_pubkey ` V) (sp_descendants (ss_spend s))))"
proof -
  let ?d = "sp_descendants (ss_spend s)"
  let ?f = "\<lambda>(k :: unique_pubkey, amount). unat (as_nano amount)"
  have "sum_list (map ?f (filter (\<lambda>(k, _). k \<in> ss_unique_pubkey ` V) ?d))
      = (\<Sum>k\<in>ss_unique_pubkey ` V. pays s k)"
    using sum_list_map_of [OF bmap_inv_distinct [OF assms(3)],
        of "ss_unique_pubkey ` V" "\<lambda>amount. unat (as_nano amount)"] assms(1)
    by (simp add: pays_map_of)
  also have "\<dots> = (\<Sum>t\<in>V. pays s (ss_unique_pubkey t))"
    using assms(2) by (simp add: sum.reindex)
  finally show ?thesis
    using sum_list_filter_split [of ?f ?d "\<lambda>(k, _). k \<in> ss_unique_pubkey ` V"]
    by (simp add: outputs_total_def case_prod_unfold)
qed

lemma parents_total_le:
  assumes "distinct (map ss_unique_pubkey ps)" and "set ps \<subseteq> V" and "finite V"
  shows "parents_total k ps \<le> (\<Sum>p\<in>V. pays p k)"
proof -
  have "parents_total k ps = (\<Sum>p\<in>set ps. pays p k)"
    using assms(1) unfolding parents_total_def
    by (subst sum_list_distinct_conv_sum_set) (auto simp: distinct_map pays_def)
  also have "\<dots> \<le> (\<Sum>p\<in>V. pays p k)"
    using assms(2,3) by (intro sum_mono2) auto
  finally show ?thesis .
qed

text \<open>A spend that is accepted and not the genesis one gives away at most what the spends of
  the ledger pay to it, if no total overflows.\<close>

lemma accepted_outputs_le:
  assumes "verify_spend B N C get_record gpk s = Ok ()" and "\<not> is_genesis_spend B gpk s"
    and "\<And>a p. get_spend N C get_record (spend_address_of N a) = Ok p \<Longrightarrow> p \<in> V" and "finite V"
    and "outputs_total (ss_spend s) < 2 ^ 64"
    and "(\<Sum>p\<in>V. pays p (ss_unique_pubkey s)) < 2 ^ 64"
  shows "outputs_total (ss_spend s) \<le> (\<Sum>p\<in>V. pays p (ss_unique_pubkey s))"
proof -
  let ?get = "\<lambda>a. get_spend N C get_record (spend_address_of N a)"
  let ?fetched = "map (\<lambda>a. projr (?get a)) (sp_ancestors (ss_spend s))"
  let ?ps = "bset_of signed_spend_key ?fetched"
  have all: "\<forall>a \<in> set (sp_ancestors (ss_spend s)). is_ok (?get a)"
    and ok: "verify_parent_spends s ?ps = Ok ()"
    using assms(1,2) by (simp_all add: verify_spend_ok_iff list_all_iff)
  have "projr (?get a) \<in> V" if a: "a \<in> set (sp_ancestors (ss_spend s))" for a
  proof -
    obtain p where "?get a = Ok p" using bspec [OF all a] by (cases "?get a") auto
    then show ?thesis using assms(3) by simp
  qed
  then have "set ?ps \<subseteq> V" using bset_of_subset [of signed_spend_key ?fetched] by auto
  moreover have d: "distinct (map ss_unique_pubkey ?ps)"
    using ok by (simp add: verify_parent_spends_ok_iff)
  ultimately have le: "parents_total (ss_unique_pubkey s) ?ps \<le> (\<Sum>p\<in>V. pays p (ss_unique_pubkey s))"
    using assms(4) by (intro parents_total_le)
  have "sum_list (map (output_amount_or_zero (ss_unique_pubkey s)) ?ps) = as_nano (ss_amount s)"
    using ok by (simp add: verify_parent_spends_ok_iff)
  then have "parents_total (ss_unique_pubkey s) ?ps mod 2 ^ 64 = outputs_total (ss_spend s) mod 2 ^ 64"
    using unat_parents_sum unat_spend_amount by (metis ss_amount_def)
  then show ?thesis using le assms(5,6) by simp
qed

subsection \<open>Transfers and redemptions (transfer.rs, transfers.rs)\<close>

record cash_note_redemption =
  cnr_derivation_index :: derivation_index
  cnr_parent_spends :: "xor_name list"

text \<open>The encryption of the BLS library and the encoding of a redemption.\<close>

record transfer_ops =
  pk_encrypt :: "main_pubkey \<Rightarrow> bytes \<Rightarrow> bytes"
  sk_decrypt :: "main_secret_key \<Rightarrow> bytes \<Rightarrow> bytes option"
  cnr_to_bytes :: "cash_note_redemption \<Rightarrow> bytes option"
  cnr_from_bytes :: "bytes \<Rightarrow> cash_note_redemption option"

datatype transfer =
    EncryptedTransfer "bytes list"
  | NetworkRoyalties "cash_note_redemption list"

definition cnr_from_cash_note :: "net_ops \<Rightarrow> cash_note \<Rightarrow> cash_note_redemption" where
  "cnr_from_cash_note N cn =
     \<lparr> cnr_derivation_index = cn_derivation_index cn,
       cnr_parent_spends =
         bset_of id (map (\<lambda>s. spend_address_of N (ss_unique_pubkey s)) (parent_spends cn)) \<rparr>"

definition cnr_encrypt ::
    "transfer_ops \<Rightarrow> cash_note_redemption \<Rightarrow> main_pubkey \<Rightarrow> (t_error, bytes) result" where
  "cnr_encrypt T cnr pk =
     and_then (ok_or (cnr_to_bytes T cnr) CashNoteRedemptionSerialisationFailed) (\<lambda>bs.
       Ok (pk_encrypt T pk bs))"

definition cnr_decrypt ::
    "transfer_ops \<Rightarrow> bytes \<Rightarrow> main_secret_key \<Rightarrow> (t_error, cash_note_redemption) result" where
  "cnr_decrypt T cypher sk =
     and_then (ok_or (sk_decrypt T sk cypher) CashNoteRedemptionDecryptionFailed) (\<lambda>bs.
       ok_or (cnr_from_bytes T bs) CashNoteRedemptionSerialisationFailed)"

fun collect_results :: "('e, 'a) result list \<Rightarrow> ('e, 'a list) result" where
  "collect_results [] = Ok []"
| "collect_results (r # rs) = and_then r (\<lambda>x. and_then (collect_results rs) (\<lambda>xs. Ok (x # xs)))"

definition transfer_create ::
    "transfer_ops \<Rightarrow> cash_note_redemption list \<Rightarrow> main_pubkey \<Rightarrow> (t_error, transfer) result" where
  "transfer_create T cnrs recipient =
     and_then (collect_results (map (\<lambda>cnr. cnr_encrypt T cnr recipient) cnrs)) (\<lambda>cs.
       Ok (EncryptedTransfer cs))"

definition transfer_from_cash_note ::
    "net_ops \<Rightarrow> transfer_ops \<Rightarrow> cash_note \<Rightarrow> (t_error, transfer) result" where
  "transfer_from_cash_note N T cn =
     map_err (\<lambda>_. CashNoteRedemptionEncryptionFailed)
       (transfer_create T [cnr_from_cash_note N cn] (cn_main_pubkey cn))"

definition royalties_transfer_from_cash_note ::
    "net_ops \<Rightarrow> cash_note \<Rightarrow> (t_error, transfer) result" where
  "royalties_transfer_from_cash_note N cn = Ok (NetworkRoyalties [cnr_from_cash_note N cn])"

fun cashnote_redemptions ::
    "transfer_ops \<Rightarrow> transfer \<Rightarrow> main_secret_key \<Rightarrow> (t_error, cash_note_redemption list) result" where
  "cashnote_redemptions T (EncryptedTransfer cyphers) sk =
     collect_results (map (\<lambda>cypher. cnr_decrypt T cypher sk) cyphers)"
| "cashnote_redemptions T (NetworkRoyalties cnr) sk = Ok cnr"

text \<open>The fetches of the parents run concurrently; their results are taken in the order of the
  addresses, and a failing one makes the whole fail.\<close>

fun fetch_parents ::
    "(xor_name \<Rightarrow> (network_error, signed_spend) result) \<Rightarrow> xor_name list \<Rightarrow> signed_spend list
      \<Rightarrow> (network_error, signed_spend list) result" where
  "fetch_parents get [] parents = Ok parents"
| "fetch_parents get (addr # addrs) parents =
     and_then (map_err (\<lambda>e. InvalidTransfer ''get_spend failed'') (get addr)) (\<lambda>s.
       fetch_parents get addrs (bset_insert signed_spend_key s parents))"

definition redeem_note ::
    "net_ops \<Rightarrow> main_pubkey \<Rightarrow> signed_spend list \<Rightarrow> cash_note_redemption \<Rightarrow> cash_note" where
  "redeem_note N main_pubkey parents cnr =
     \<lparr> parent_spends =
         bset_of signed_spend_key
           (List.map_filter
              (\<lambda>a. find (\<lambda>s. spend_address_of N (ss_unique_pubkey s) = a) parents)
              (cnr_parent_spends cnr)),
       cn_main_pubkey = main_pubkey,
       cn_derivation_index = cnr_derivation_index cnr \<rparr>"

definition verify_cash_notes_redemptions ::
    "bls_ops \<Rightarrow> net_ops \<Rightarrow> (xor_name \<Rightarrow> (network_error, signed_spend) result) \<Rightarrow> main_pubkey
      \<Rightarrow> cash_note_redemption list \<Rightarrow> (network_error, cash_note list) result" where
  "verify_cash_notes_redemptions B N get main_pubkey cnrs =
     (let parent_addrs = bset_of id (concat (map cnr_parent_spends cnrs))
      in and_then (fetch_parents get parent_addrs []) (\<lambda>parents.
         let our_output_cash_notes = map (redeem_note N main_pubkey parents) cnrs
         in and_then
              (try_for_each
                 (\<lambda>cn. map_err (\<lambda>e. InvalidTransfer ''Invalid CashNoteRedemption'') (cn_verify B cn))
                 our_output_cash_notes)
              (\<lambda>_. Ok our_output_cash_notes)))"

lemma fetch_parents_ok:
  assumes "\<And>a. a \<in> set addrs \<Longrightarrow> get a = Ok (f a)"
  shows "fetch_parents get addrs parents = Ok (bset_extend signed_spend_key parents (map f addrs))"
  using assms by (induction addrs arbitrary: parents) (simp_all add: bset_extend_def)

lemma map_filter_map: "List.map_filter (\<lambda>x. Some (f x)) xs = map f xs"
  by (simp add: map_filter_def)

lemma find_unique:
  assumes "x \<in> set xs" and "P x" and "\<And>y. y \<in> set xs \<Longrightarrow> P y \<Longrightarrow> y = x"
  shows "find P xs = Some x"
proof (cases "find P xs")
  case None
  then show ?thesis using assms(1,2) by (simp add: find_None_iff)
next
  case (Some y)
  then have "y \<in> set xs" and "P y" by (auto simp: find_Some_iff)
  then show ?thesis using Some assms(3) by simp
qed

lemma redeem_parents:
  assumes "bset_inv signed_spend_key ps" and "inj_on addr (set ps)"
    and "\<And>s. s \<in> set ps \<Longrightarrow> get (addr s) = Ok s"
  shows "fetch_parents get (bset_of id (map addr ps)) [] = Ok ps"
    and "bset_of signed_spend_key
      (List.map_filter (\<lambda>a. find (\<lambda>s. addr s = a) ps) (bset_of id (map addr ps))) = ps"
proof -
  let ?addrs = "bset_of id (map addr ps)"
  let ?f = "\<lambda>a. projr (get a)"
  have set_addrs: "set ?addrs = addr ` set ps"
    using bset_of_inj [of id "map addr ps"] by simp
  have inj: "inj_on signed_spend_key (set ps)"
    using assms(1) by (simp add: bset_inv_def strict_sorted_iff distinct_map)
  have f: "?f (addr s) = s" if "s \<in> set ps" for s using assms(3) [OF that] by simp
  then have fs: "set (map ?f ?addrs) = set ps"
    by (simp only: set_map set_addrs image_image) simp
  have "set (bset_of signed_spend_key (map ?f ?addrs)) = set (map ?f ?addrs)"
    by (rule bset_of_inj) (simp only: fs inj)
  then have "set (bset_of signed_spend_key (map ?f ?addrs)) = set ps" by (simp only: fs)
  then have eq: "bset_of signed_spend_key (map ?f ?addrs) = ps"
    by (rule bset_inv_unique [OF bset_of_inv assms(1)])
  have addr: "get a = Ok (?f a) \<and> find (\<lambda>s. addr s = a) ps = Some (?f a)"
    if a: "a \<in> set ?addrs" for a
  proof -
    obtain s where s: "s \<in> set ps" "a = addr s" using a unfolding set_addrs by blast
    have "find (\<lambda>s. addr s = a) ps = Some s"
      using s inj_onD [OF assms(2)] by (intro find_unique) simp_all
    then show ?thesis using s assms(3) [OF s(1)] by simp
  qed
  have "fetch_parents get ?addrs [] = Ok (bset_extend signed_spend_key [] (map ?f ?addrs))"
    by (rule fetch_parents_ok) (use addr in blast)
  then show "fetch_parents get ?addrs [] = Ok ps"
    using eq by (simp only: bset_of_def)
  have "find (\<lambda>s. addr s = a) ps = Some (?f a)" if "a \<in> set ?addrs" for a
    using addr [OF that] by blast
  then have "List.map_filter (\<lambda>a. find (\<lambda>s. addr s = a) ps) ?addrs = map ?f ?addrs"
    by (simp add: map_filter_def cong: map_cong)
  then show "bset_of signed_spend_key
      (List.map_filter (\<lambda>a. find (\<lambda>s. addr s = a) ps) ?addrs) = ps"
    using eq by simp
qed

lemma redeem_roundtrip:
  assumes "bset_inv signed_spend_key (parent_spends cn)" and "cn_verify B cn = Ok ()"
    and "inj_on (\<lambda>s. spend_address_of N (ss_unique_pubkey s)) (set (parent_spends cn))"
    and "\<And>s. s \<in> set (parent_spends cn) \<Longrightarrow> get (spend_address_of N (ss_unique_pubkey s)) = Ok s"
  shows "verify_cash_notes_redemptions B N get (cn_main_pubkey cn) [cnr_from_cash_note N cn] = Ok [cn]"
proof -
  let ?addr = "\<lambda>s. spend_address_of N (ss_unique_pubkey s)"
  note r = redeem_parents [OF assms(1,3,4)]
  let ?addrs = "bset_of id (map ?addr (parent_spends cn))"
  have idem: "bset_of id ?addrs = ?addrs"
    by (rule bset_inv_unique [of id]) (simp_all add: bset_of_inj)
  have "redeem_note N (cn_main_pubkey cn) (parent_spends cn) (cnr_from_cash_note N cn) = cn"
    by (simp add: redeem_note_def cnr_from_cash_note_def r(2))
  moreover have "bset_of id (concat (map cnr_parent_spends [cnr_from_cash_note N cn])) = ?addrs"
    using idem by (simp add: cnr_from_cash_note_def)
  ultimately show ?thesis
    using assms(2) by (simp add: verify_cash_notes_redemptions_def Let_def r(1) del: concat.simps)
qed

subsection \<open>Properties\<close>

text \<open>C9: a node accepts a spend exactly when its signature verifies and it is the genesis
  spend, or every ancestor is fetched as a single spend, those parents have distinct keys,
  all pay the spend, and the totals agree modulo the width of \<open>u64\<close>.\<close>

theorem verify_spend_exact:
  "verify_spend B N C get_record gpk s = Ok () \<longleftrightarrow>
     pk_verify B (ss_unique_pubkey s) (derived_key_sig s) (to_bytes_for_signing B (ss_spend s))
     \<and> (is_genesis_spend B gpk s
        \<or> (\<exists>fetched parents.
            map (\<lambda>a. get_spend N C get_record (spend_address_of N a)) (sp_ancestors (ss_spend s))
              = map Ok fetched
            \<and> parents = bset_of signed_spend_key fetched
            \<and> distinct (map ss_unique_pubkey parents)
            \<and> list_all (\<lambda>p. get_output_amount (ss_spend p) (ss_unique_pubkey s) \<noteq> None) parents
            \<and> parents_total (ss_unique_pubkey s) parents mod 2 ^ 64
                = outputs_total (ss_spend s) mod 2 ^ 64))"
proof -
  let ?get = "\<lambda>a. get_spend N C get_record (spend_address_of N a)"
  let ?anc = "sp_ancestors (ss_spend s)"
  have fetched: "map ?get ?anc = map Ok fetched
      \<longleftrightarrow> list_all (\<lambda>a. is_ok (?get a)) ?anc \<and> fetched = map (\<lambda>a. projr (?get a)) ?anc" for fetched
  proof
    assume eq: "map ?get ?anc = map Ok fetched"
    then have "map projr (map ?get ?anc) = fetched" by (simp add: comp_def)
    moreover have "list_all is_ok (map ?get ?anc)" unfolding eq by (simp add: list_all_iff)
    ultimately show "list_all (\<lambda>a. is_ok (?get a)) ?anc \<and> fetched = map (\<lambda>a. projr (?get a)) ?anc"
      by (auto simp: list_all_iff)
  next
    assume r: "list_all (\<lambda>a. is_ok (?get a)) ?anc \<and> fetched = map (\<lambda>a. projr (?get a)) ?anc"
    have "?get a = Ok (projr (?get a))" if a: "a \<in> set ?anc" for a
      using r a by (cases "?get a") (auto simp: list_all_iff)
    with r show "map ?get ?anc = map Ok fetched" by simp
  qed
  have ver: "verify_parent_spends s ps = Ok ()
      \<longleftrightarrow> distinct (map ss_unique_pubkey ps)
        \<and> list_all (\<lambda>p. get_output_amount (ss_spend p) (ss_unique_pubkey s) \<noteq> None) ps
        \<and> parents_total (ss_unique_pubkey s) ps mod 2 ^ 64 = outputs_total (ss_spend s) mod 2 ^ 64"
    for ps
    unfolding verify_parent_spends_ok_iff
    by (simp only: word_unat_eq_iff unat_parents_sum ss_amount_def unat_spend_amount)
  show ?thesis
    unfolding verify_spend_ok_iff fetched ver
    by (auto simp: signed_spend_verify_def)
qed

definition null_codec :: "'a codec" where
  "null_codec = \<lparr> enc_header = (\<lambda>_. None), dec_header = (\<lambda>_. None),
                  enc_payload = (\<lambda>_. None), dec_payload = (\<lambda>_. None) \<rparr>"

definition overflow_spend :: "bls_ops \<Rightarrow> secret_key \<Rightarrow> unique_pubkey \<Rightarrow> unique_pubkey \<Rightarrow> spend" where
  "overflow_spend B sk k1 k2 =
     \<lparr> sp_unique_pubkey = sk_public_key B sk, sp_reason = NoReason, sp_ancestors = [],
       sp_descendants = [(k1, NanoTokens (2 ^ 63)), (k2, NanoTokens (2 ^ 63))],
       sp_royalties = [] \<rparr>"

text \<open>C36: the totals are only compared modulo 2 to the 64: a signed spend without ancestors
  whose two outputs are 2 to the 63 each is accepted by every node, whatever the network
  answers, and so creates that value from nothing.\<close>

theorem verify_spend_accepts_overflow:
  assumes "bls_correct B" and "k1 < k2"
  shows "verify_spend B N C get_record gpk (signed_spend_sign B (overflow_spend B sk k1 k2) sk) = Ok ()
     \<and> outputs_total (overflow_spend B sk k1 k2) = 2 ^ 64
     \<and> bmap_inv (sp_descendants (overflow_spend B sk k1 k2))"
proof -
  let ?s = "overflow_spend B sk k1 k2"
  have "signed_spend_verify B (signed_spend_sign B ?s sk) = Ok ()"
    using assms(1)
    by (simp add: signed_spend_verify_def signed_spend_sign_def ss_unique_pubkey_def
        overflow_spend_def bls_sign_verifies)
  moreover have "verify_parent_spends (signed_spend_sign B ?s sk) (bset_of signed_spend_key []) = Ok ()"
    by (simp add: verify_parent_spends_ok_iff ss_amount_def spend_amount_def signed_spend_sign_def
        overflow_spend_def bset_of_def bset_extend_def)
  ultimately show ?thesis
    using assms(2)
    by (simp add: verify_spend_ok_iff signed_spend_sign_def overflow_spend_def outputs_total_def
        bmap_inv_def)
qed

theorem verify_spend_accepts_overflow_witness:
  "verify_spend xor_bls example_net null_codec (\<lambda>_ _. Err (GetRecordError RecordNotFound)) 9
     (signed_spend_sign xor_bls (overflow_spend xor_bls 7 1 2) 7) = Ok ()"
  using verify_spend_accepts_overflow [of xor_bls 1 2] by simp

text \<open>C1: without overflow no value is created. If every spend of a finite ledger is accepted
  against the ledger, the keys of the spends are distinct, and the totals fit in \<open>u64\<close>, then
  what is unspent is at most the amount of the genesis spend.\<close>

theorem ledger_conserves_value:
  assumes "finite V" and "inj_on ss_unique_pubkey V"
    and "\<forall>s \<in> V. verify_spend B N C get_record gpk s = Ok ()"
    and "\<forall>s \<in> V. bmap_inv (sp_descendants (ss_spend s))"
    and "\<forall>a p. get_spend N C get_record (spend_address_of N a) = Ok p \<longrightarrow> p \<in> V"
    and "\<forall>s \<in> V. outputs_total (ss_spend s) < 2 ^ 64"
    and "\<forall>s \<in> V. (\<Sum>p\<in>V. pays p (ss_unique_pubkey s)) < 2 ^ 64"
  shows "unspent_total V \<le> unat GENESIS_CASHNOTE_AMOUNT"
proof -
  let ?in = "\<lambda>t. \<Sum>p\<in>V. pays p (ss_unique_pubkey t)"
  let ?g = "\<lambda>t. if is_genesis_spend B gpk t then unat GENESIS_CASHNOTE_AMOUNT else 0"
  have le: "outputs_total (ss_spend t) \<le> ?in t + ?g t" if t: "t \<in> V" for t
  proof (cases "is_genesis_spend B gpk t")
    case True
    then have "outputs_total (ss_spend t) mod 2 ^ 64 = unat GENESIS_CASHNOTE_AMOUNT"
      unfolding unat_spend_amount [symmetric] by (simp add: is_genesis_spend_def)
    then show ?thesis using True t assms(6) by simp
  next
    case False
    then show ?thesis
      using accepted_outputs_le [of B N C get_record gpk t V] assms t by simp
  qed
  have gen: "(\<Sum>t\<in>V. ?g t) \<le> unat GENESIS_CASHNOTE_AMOUNT"
  proof -
    have "(\<Sum>t\<in>V. ?g t) = (\<Sum>t\<in>{t \<in> V. is_genesis_spend B gpk t}. unat GENESIS_CASHNOTE_AMOUNT)"
      using assms(1) by (simp add: sum.If_cases Int_def)
    also have "\<dots> \<le> unat GENESIS_CASHNOTE_AMOUNT"
    proof -
      have "card {t \<in> V. is_genesis_spend B gpk t} \<le> 1"
      proof -
        have "t = u" if "t \<in> V" "u \<in> V" "is_genesis_spend B gpk t" "is_genesis_spend B gpk u" for t u
          using that by (intro inj_onD [OF assms(2)])
            (simp_all add: is_genesis_spend_def ss_unique_pubkey_def)
        then show ?thesis using assms(1) by (simp add: card_le_Suc0_iff_eq)
      qed
      then show ?thesis by simp
    qed
    finally show ?thesis .
  qed
  have "(\<Sum>s\<in>V. outputs_total (ss_spend s)) = (\<Sum>s\<in>V. \<Sum>t\<in>V. pays s (ss_unique_pubkey t)) + unspent_total V"
    unfolding unspent_total_def sum.distrib [symmetric]
    using outputs_split [OF assms(1,2)] assms(4) by (intro sum.cong) auto
  also have "(\<Sum>s\<in>V. \<Sum>t\<in>V. pays s (ss_unique_pubkey t)) = (\<Sum>t\<in>V. ?in t)"
    by (rule sum.swap)
  finally have "(\<Sum>t\<in>V. ?in t) + unspent_total V \<le> (\<Sum>t\<in>V. ?in t + ?g t)"
    using sum_mono [of V "\<lambda>s. outputs_total (ss_spend s)" "\<lambda>t. ?in t + ?g t"] le by simp
  then show ?thesis using gen by (simp add: sum.distrib)
qed

definition example_genesis :: signed_spend where
  "example_genesis =
     signed_spend_sign xor_bls
       \<lparr> sp_unique_pubkey = 9 XOR ucast GENESIS_OUTPUT_DERIVATION_INDEX, sp_reason = NoReason,
         sp_ancestors = [], sp_descendants = [(5, NanoTokens GENESIS_CASHNOTE_AMOUNT)],
         sp_royalties = [] \<rparr>
       (9 XOR GENESIS_OUTPUT_DERIVATION_INDEX)"

lemma example_genesis_simps:
  "ss_unique_pubkey example_genesis = 9 XOR ucast GENESIS_OUTPUT_DERIVATION_INDEX"
  "sp_descendants (ss_spend example_genesis) = [(5, NanoTokens GENESIS_CASHNOTE_AMOUNT)]"
  by (simp_all add: example_genesis_def signed_spend_sign_def ss_unique_pubkey_def)

lemma example_genesis_is_genesis: "is_genesis_spend xor_bls 9 example_genesis"
  by (simp add: is_genesis_spend_def example_genesis_def signed_spend_sign_def
      genesis_spend_unique_key_def new_unique_pubkey_def spend_amount_def
      GENESIS_OUTPUT_DERIVATION_INDEX_def)

lemma example_genesis_accepted:
  "verify_spend xor_bls N C get 9 example_genesis = Ok ()"
  using example_genesis_is_genesis
  by (simp add: verify_spend_ok_iff signed_spend_verify_def is_genesis_spend_def
      ss_unique_pubkey_def)

theorem ledger_conserves_value_witness:
  "unspent_total {example_genesis} \<le> 1288490188500000000"
proof -
  have "pays example_genesis (ss_unique_pubkey example_genesis) = 0"
    by (simp add: pays_map_of example_genesis_simps GENESIS_OUTPUT_DERIVATION_INDEX_def)
  moreover have "get_spend example_net null_codec (\<lambda>_ _. Err (GetRecordError RecordNotFound)) a \<noteq> Ok p"
    for a p by (simp add: get_spend_def Let_def)
  ultimately have "unspent_total {example_genesis} \<le> unat GENESIS_CASHNOTE_AMOUNT"
    by (intro ledger_conserves_value [where B = xor_bls and N = example_net and C = null_codec
          and get_record = "\<lambda>_ _. Err (GetRecordError RecordNotFound)" and gpk = 9])
      (simp_all add: example_genesis_accepted example_genesis_simps bmap_inv_def outputs_total_def
        GENESIS_CASHNOTE_AMOUNT_def)
  then show ?thesis by (simp add: GENESIS_CASHNOTE_AMOUNT_def)
qed

text \<open>C29: a transfer made from a valid note, sent to the owner and redeemed against a network
  that holds the note's parents, gives the owner the same note back.\<close>

theorem transfer_redeem_roundtrip:
  assumes "\<And>m. sk_decrypt T sk (pk_encrypt T (main_pubkey_of B sk) m) = Some m"
    and "cnr_to_bytes T (cnr_from_cash_note N cn) = Some b"
    and "cnr_from_bytes T b = Some (cnr_from_cash_note N cn)"
    and "cn_main_pubkey cn = main_pubkey_of B sk" and "cn_verify B cn = Ok ()"
    and "bset_inv signed_spend_key (parent_spends cn)"
    and "inj_on (\<lambda>s. spend_address_of N (ss_unique_pubkey s)) (set (parent_spends cn))"
    and "\<And>s. s \<in> set (parent_spends cn) \<Longrightarrow> get (spend_address_of N (ss_unique_pubkey s)) = Ok s"
  shows "\<exists>t. transfer_from_cash_note N T cn = Ok t
     \<and> and_then (map_err TransferErr (cashnote_redemptions T t sk))
         (verify_cash_notes_redemptions B N get (main_pubkey_of B sk)) = Ok [cn]"
proof -
  have t: "transfer_from_cash_note N T cn
      = Ok (EncryptedTransfer [pk_encrypt T (main_pubkey_of B sk) b])"
    using assms(2,4)
    by (simp add: transfer_from_cash_note_def transfer_create_def cnr_encrypt_def)
  have "cashnote_redemptions T (EncryptedTransfer [pk_encrypt T (main_pubkey_of B sk) b]) sk
      = Ok [cnr_from_cash_note N cn]"
    using assms(1,3) by (simp add: cnr_decrypt_def)
  then show ?thesis
    using t redeem_roundtrip [OF assms(6,5,7,8)] assms(4) by simp
qed

definition example_transfer_ops :: "cash_note_redemption \<Rightarrow> transfer_ops" where
  "example_transfer_ops c =
     \<lparr> pk_encrypt = (\<lambda>pk m. m), sk_decrypt = (\<lambda>sk m. Some m),
       cnr_to_bytes = (\<lambda>c'. if c' = c then Some [1] else None),
       cnr_from_bytes = (\<lambda>bs. if bs = [1] then Some c else None) \<rparr>"

theorem transfer_redeem_roundtrip_witness:
  "\<exists>t. transfer_from_cash_note example_net
        (example_transfer_ops (cnr_from_cash_note example_net (create_first_cash_note_from_key xor_bls 7)))
        (create_first_cash_note_from_key xor_bls 7) = Ok t"
proof -
  let ?cn = "create_first_cash_note_from_key xor_bls 7"
  let ?T = "example_transfer_ops (cnr_from_cash_note example_net ?cn)"
  have "cn_verify xor_bls ?cn = Ok ()"
    by (simp add: cn_verify_def create_first_cash_note_from_key_def Let_def cn_unique_pubkey_def
        signed_spend_sign_def get_output_amount_def)
  then show ?thesis
    using transfer_redeem_roundtrip [of ?T 7 xor_bls example_net ?cn "[1]"
        "\<lambda>_. Ok (hd (parent_spends ?cn))"]
    by (auto simp: example_transfer_ops_def create_first_cash_note_from_key_def Let_def bset_inv_def)
qed

end
