(* ===== verification/Registers.thy ===== *)
theory Registers
  imports Protocol "HOL-Library.Product_Lexorder" "HOL-Library.List_Lexorder"
begin

section \<open>Registers (sn\_registers)\<close>

text \<open>
  Permissions, register operations, the register with its checks, and the signed register
  that nodes store and merge. The Merkle register of the CRDT library and the standard
  library's unspecified hasher are arguments (record \<open>reg_ops\<close>, over an opaque state \<open>'m\<close>).
  The operations of a signed register are a \<open>BTreeSet\<close>, a list in the order of all fields of
  an operation. That the merge of such sets is a semilattice is stated as a locale, from
  which the convergence of replicas follows.
\<close>

type_synonym entry = bytes
type_synonym entry_hash = hash_value

record merkle_node =
  node_children :: "hash_value list"
  node_value :: entry

datatype register_error =
    RegisterAddrMismatch register_address register_address
  | EntryTooBig nat nat
  | AccessDenied public_key
  | TooManyEntries nat
  | NoSuchEntry entry_hash
  | SerialisationFailed
  | DifferentBaseRegister
  | InvalidSignature
  | MissingSignature
  | InvalidSecretKey
  | InvalidRegisterAddress register_address register_address
  | HexDeserializeFailed

subsection \<open>Permissions (permissions.rs)\<close>

datatype permissions = AnyoneCanWrite | Writers "public_key list"

definition permissions_default :: permissions where
  "permissions_default = Writers []"

definition permissions_new_with :: "public_key list \<Rightarrow> permissions" where
  "permissions_new_with writers = Writers (bset_of id writers)"

definition can_anyone_write :: "permissions \<Rightarrow> bool" where
  "can_anyone_write p \<longleftrightarrow> p = AnyoneCanWrite"

fun can_write :: "permissions \<Rightarrow> public_key \<Rightarrow> bool" where
  "can_write AnyoneCanWrite user = True"
| "can_write (Writers writers) user = (user \<in> set writers)"

fun add_writer :: "permissions \<Rightarrow> public_key \<Rightarrow> permissions" where
  "add_writer AnyoneCanWrite user = AnyoneCanWrite"
| "add_writer (Writers writers) user = Writers (bset_insert id user writers)"

lemma can_write_add_writer: "can_write (add_writer p u) v \<longleftrightarrow> v = u \<or> can_write p v"
proof (cases p)
  case (Writers ws)
  then show ?thesis using bset_insert_keys [of id u ws] by auto
qed simp

subsection \<open>Register state and the CRDT layer (reg\_crdt.rs)\<close>

record 'm register_crdt =
  crdt_address :: register_address
  crdt_data :: 'm

record 'm register =
  reg_crdt :: "'m register_crdt"
  reg_permissions :: permissions

record register_op =
  op_address :: register_address
  crdt_op :: merkle_node
  op_source :: public_key
  op_signature :: signature

record 'm signed_register =
  base_register :: "'m register"
  sr_signature :: signature
  sr_ops :: "register_op list"

text \<open>The Merkle register, the hash of a node, the hasher of an operation's signed parts, and
  the serialisation of a register.\<close>

record 'm reg_ops =
  merkle_new :: 'm
  merkle_apply :: "'m \<Rightarrow> merkle_node \<Rightarrow> 'm"
  merkle_write :: "'m \<Rightarrow> entry \<Rightarrow> hash_value list \<Rightarrow> merkle_node"
  merkle_merge :: "'m \<Rightarrow> 'm \<Rightarrow> 'm"
  merkle_num_nodes :: "'m \<Rightarrow> nat"
  merkle_num_orphans :: "'m \<Rightarrow> nat"
  merkle_get :: "'m \<Rightarrow> hash_value \<Rightarrow> merkle_node option"
  merkle_read :: "'m \<Rightarrow> (hash_value \<times> merkle_node) list"
  merkle_children :: "'m \<Rightarrow> hash_value \<Rightarrow> (hash_value \<times> merkle_node) list"
  node_hash :: "merkle_node \<Rightarrow> hash_value"
  op_hash64 :: "register_address \<Rightarrow> hash_value \<Rightarrow> public_key \<Rightarrow> u64"
  register_to_vec :: "'m register \<Rightarrow> bytes option"

definition crdt_new :: "'m reg_ops \<Rightarrow> register_address \<Rightarrow> 'm register_crdt" where
  "crdt_new R address = \<lparr> crdt_address = address, crdt_data = merkle_new R \<rparr>"

definition crdt_merge :: "'m reg_ops \<Rightarrow> 'm register_crdt \<Rightarrow> 'm register_crdt \<Rightarrow> 'm register_crdt" where
  "crdt_merge R c other = c \<lparr> crdt_data := merkle_merge R (crdt_data c) (crdt_data other) \<rparr>"

definition crdt_size :: "'m reg_ops \<Rightarrow> 'm register_crdt \<Rightarrow> nat" where
  "crdt_size R c = merkle_num_nodes R (crdt_data c) + merkle_num_orphans R (crdt_data c)"

definition crdt_write ::
    "'m reg_ops \<Rightarrow> 'm register_crdt \<Rightarrow> entry \<Rightarrow> entry_hash list
      \<Rightarrow> 'm register_crdt \<times> entry_hash \<times> register_address \<times> merkle_node" where
  "crdt_write R c e children =
     (let node = merkle_write R (crdt_data c) e (bset_of id children);
          c' = c \<lparr> crdt_data := merkle_apply R (crdt_data c) node \<rparr>
      in (c', node_hash R node, crdt_address c, node))"

definition crdt_apply_op ::
    "'m reg_ops \<Rightarrow> 'm register_crdt \<Rightarrow> register_op \<Rightarrow> (register_error, 'm register_crdt) result" where
  "crdt_apply_op R c opn =
     (if crdt_address c \<noteq> op_address opn
      then Err (RegisterAddrMismatch (op_address opn) (crdt_address c))
      else Ok (c \<lparr> crdt_data := merkle_apply R (crdt_data c) (crdt_op opn) \<rparr>))"

definition crdt_get :: "'m reg_ops \<Rightarrow> 'm register_crdt \<Rightarrow> entry_hash \<Rightarrow> entry option" where
  "crdt_get R c h = map_option node_value (merkle_get R (crdt_data c) h)"

definition crdt_read :: "'m reg_ops \<Rightarrow> 'm register_crdt \<Rightarrow> (entry_hash \<times> entry) list" where
  "crdt_read R c =
     bset_of id (map (\<lambda>(h, node). (h, node_value node)) (merkle_read R (crdt_data c)))"

definition crdt_children :: "'m reg_ops \<Rightarrow> 'm register_crdt \<Rightarrow> entry_hash \<Rightarrow> (entry_hash \<times> entry) list" where
  "crdt_children R c h =
     bset_of id (map (\<lambda>(h, node). (h, node_value node)) (merkle_children R (crdt_data c) h))"

subsection \<open>Register operations (register\_op.rs)\<close>

definition op_bytes_for_signing ::
    "'m reg_ops \<Rightarrow> register_address \<Rightarrow> merkle_node \<Rightarrow> public_key \<Rightarrow> bytes" where
  "op_bytes_for_signing R address node source =
     rev (be_bytes (op_hash64 R address (node_hash R node) source))"

definition register_op_new ::
    "bls_ops \<Rightarrow> 'm reg_ops \<Rightarrow> register_address \<Rightarrow> merkle_node \<Rightarrow> secret_key \<Rightarrow> register_op" where
  "register_op_new B R address node signer =
     (let source = sk_public_key B signer
      in \<lparr> op_address = address, crdt_op = node, op_source = source,
           op_signature = sk_sign B signer (op_bytes_for_signing R address node source) \<rparr>)"

definition op_verify_signature ::
    "bls_ops \<Rightarrow> 'm reg_ops \<Rightarrow> register_op \<Rightarrow> public_key \<Rightarrow> (register_error, unit) result" where
  "op_verify_signature B R opn pk =
     (if \<not> pk_verify B pk (op_signature opn)
            (op_bytes_for_signing R (op_address opn) (crdt_op opn) (op_source opn))
      then Err InvalidSignature else Ok ())"

subsection \<open>\<open>Register\<close> (register.rs)\<close>

definition MAX_REG_ENTRY_SIZE :: nat where
  "MAX_REG_ENTRY_SIZE = 1024"

definition MAX_REG_NUM_ENTRIES :: nat where
  "MAX_REG_NUM_ENTRIES = 1024"

definition reg_address :: "'m register \<Rightarrow> register_address" where
  "reg_address r = crdt_address (reg_crdt r)"

definition reg_owner :: "'m register \<Rightarrow> public_key" where
  "reg_owner r = ra_owner (reg_address r)"

definition register_new :: "'m reg_ops \<Rightarrow> public_key \<Rightarrow> xor_name \<Rightarrow> permissions \<Rightarrow> 'm register" where
  "register_new R owner meta p =
     \<lparr> reg_crdt = crdt_new R \<lparr> ra_meta = meta, ra_owner = owner \<rparr>,
       reg_permissions = add_writer p owner \<rparr>"

definition register_bytes :: "'m reg_ops \<Rightarrow> 'm register \<Rightarrow> (register_error, bytes) result" where
  "register_bytes R r = ok_or (register_to_vec R r) SerialisationFailed"

definition register_sign ::
    "bls_ops \<Rightarrow> 'm reg_ops \<Rightarrow> 'm register \<Rightarrow> secret_key \<Rightarrow> (register_error, signature) result" where
  "register_sign B R r sk =
     (if reg_owner r \<noteq> sk_public_key B sk then Err InvalidSecretKey
      else and_then (register_bytes R r) (\<lambda>bs. Ok (sk_sign B sk bs)))"

definition into_signed ::
    "bls_ops \<Rightarrow> 'm reg_ops \<Rightarrow> 'm register \<Rightarrow> secret_key \<Rightarrow> (register_error, 'm signed_register) result" where
  "into_signed B R r sk =
     and_then (register_sign B R r sk) (\<lambda>sig.
       Ok \<lparr> base_register = r, sr_signature = sig, sr_ops = [] \<rparr>)"

definition check_entry_and_reg_sizes ::
    "'m reg_ops \<Rightarrow> 'm register \<Rightarrow> entry \<Rightarrow> (register_error, unit) result" where
  "check_entry_and_reg_sizes R r e =
     (let size = length e; reg_size = crdt_size R (reg_crdt r)
      in if size > MAX_REG_ENTRY_SIZE then Err (EntryTooBig size MAX_REG_ENTRY_SIZE)
         else if reg_size \<ge> MAX_REG_NUM_ENTRIES then Err (TooManyEntries reg_size)
         else Ok ())"

definition check_user_permissions :: "'m register \<Rightarrow> public_key \<Rightarrow> (register_error, unit) result" where
  "check_user_permissions r requester =
     (if can_write (reg_permissions r) requester then Ok () else Err (AccessDenied requester))"

definition check_register_op ::
    "bls_ops \<Rightarrow> 'm reg_ops \<Rightarrow> 'm register \<Rightarrow> register_op \<Rightarrow> (register_error, unit) result" where
  "check_register_op B R r opn =
     (if can_anyone_write (reg_permissions r) then Ok ()
      else and_then (check_user_permissions r (op_source opn)) (\<lambda>_.
           op_verify_signature B R opn (op_source opn)))"

definition register_write ::
    "bls_ops \<Rightarrow> 'm reg_ops \<Rightarrow> 'm register \<Rightarrow> entry \<Rightarrow> entry_hash list \<Rightarrow> secret_key
      \<Rightarrow> (register_error, 'm register \<times> entry_hash \<times> register_op) result" where
  "register_write B R r e children signer =
     and_then (check_entry_and_reg_sizes R r e) (\<lambda>_.
     and_then (check_user_permissions r (sk_public_key B signer)) (\<lambda>_.
     case crdt_write R (reg_crdt r) e children of
       (c', h, address, node) \<Rightarrow>
         Ok (r \<lparr> reg_crdt := c' \<rparr>, h, register_op_new B R address node signer)))"

definition register_apply_op ::
    "bls_ops \<Rightarrow> 'm reg_ops \<Rightarrow> 'm register \<Rightarrow> register_op \<Rightarrow> (register_error, 'm register) result" where
  "register_apply_op B R r opn =
     and_then (check_entry_and_reg_sizes R r (node_value (crdt_op opn))) (\<lambda>_.
     and_then (check_register_op B R r opn) (\<lambda>_.
     and_then (crdt_apply_op R (reg_crdt r) opn) (\<lambda>c'.
     Ok (r \<lparr> reg_crdt := c' \<rparr>))))"

definition verify_is_mergeable :: "'m register \<Rightarrow> 'm register \<Rightarrow> (register_error, unit) result" where
  "verify_is_mergeable r other =
     (if reg_address r \<noteq> reg_address other \<or> reg_permissions r \<noteq> reg_permissions other
      then Err DifferentBaseRegister else Ok ())"

definition register_merge ::
    "'m reg_ops \<Rightarrow> 'm register \<Rightarrow> 'm register \<Rightarrow> (register_error, 'm register) result" where
  "register_merge R r other =
     and_then (verify_is_mergeable r other) (\<lambda>_.
     Ok (r \<lparr> reg_crdt := crdt_merge R (reg_crdt r) (reg_crdt other) \<rparr>))"

definition register_get :: "'m reg_ops \<Rightarrow> 'm register \<Rightarrow> entry_hash \<Rightarrow> (register_error, entry) result" where
  "register_get R r h = ok_or (crdt_get R (reg_crdt r) h) (NoSuchEntry h)"

definition register_read :: "'m reg_ops \<Rightarrow> 'm register \<Rightarrow> (entry_hash \<times> entry) list" where
  "register_read R r = crdt_read R (reg_crdt r)"

subsection \<open>\<open>SignedRegister\<close> (register.rs)\<close>

text \<open>The derived order of an operation: all its fields in turn.\<close>

definition op_key ::
    "register_op \<Rightarrow> xor_name \<times> public_key \<times> hash_value list \<times> bytes \<times> public_key \<times> signature" where
  "op_key opn =
     (ra_meta (op_address opn), ra_owner (op_address opn), node_children (crdt_op opn),
      node_value (crdt_op opn), op_source opn, op_signature opn)"

definition sr_address :: "'m signed_register \<Rightarrow> register_address" where
  "sr_address s = reg_address (base_register s)"

definition sr_verify :: "bls_ops \<Rightarrow> 'm reg_ops \<Rightarrow> 'm signed_register \<Rightarrow> (register_error, unit) result" where
  "sr_verify B R s =
     and_then (register_bytes R (base_register s)) (\<lambda>bs.
       if \<not> pk_verify B (reg_owner (base_register s)) (sr_signature s) bs
       then Err InvalidSignature
       else try_for_each (check_register_op B R (base_register s)) (sr_ops s))"

definition sr_verify_with_address ::
    "bls_ops \<Rightarrow> 'm reg_ops \<Rightarrow> 'm signed_register \<Rightarrow> register_address \<Rightarrow> (register_error, unit) result" where
  "sr_verify_with_address B R s address =
     (if sr_address s \<noteq> address then Err (InvalidRegisterAddress address (sr_address s))
      else sr_verify B R s)"

fun apply_ops ::
    "bls_ops \<Rightarrow> 'm reg_ops \<Rightarrow> 'm register \<Rightarrow> register_op list \<Rightarrow> (register_error, 'm register) result" where
  "apply_ops B R r [] = Ok r"
| "apply_ops B R r (opn # ops) = and_then (register_apply_op B R r opn) (\<lambda>r'. apply_ops B R r' ops)"

definition sr_register :: "bls_ops \<Rightarrow> 'm reg_ops \<Rightarrow> 'm signed_register \<Rightarrow> (register_error, 'm register) result" where
  "sr_register B R s = apply_ops B R (base_register s) (sr_ops s)"

definition sr_merge ::
    "'m signed_register \<Rightarrow> 'm signed_register \<Rightarrow> (register_error, 'm signed_register) result" where
  "sr_merge s other =
     and_then (verify_is_mergeable (base_register s) (base_register other)) (\<lambda>_.
     Ok (s \<lparr> sr_ops := bset_extend op_key (sr_ops s) (sr_ops other) \<rparr>))"

definition sr_verified_merge ::
    "bls_ops \<Rightarrow> 'm reg_ops \<Rightarrow> 'm signed_register \<Rightarrow> 'm signed_register
      \<Rightarrow> (register_error, 'm signed_register) result" where
  "sr_verified_merge B R s other =
     and_then (verify_is_mergeable (base_register s) (base_register other)) (\<lambda>_.
     and_then (sr_verify B R other) (\<lambda>_.
     Ok (s \<lparr> sr_ops := bset_extend op_key (sr_ops s) (sr_ops other) \<rparr>)))"

definition sr_add_op ::
    "bls_ops \<Rightarrow> 'm reg_ops \<Rightarrow> 'm signed_register \<Rightarrow> register_op
      \<Rightarrow> (register_error, 'm signed_register) result" where
  "sr_add_op B R s opn =
     and_then (check_register_op B R (base_register s) opn) (\<lambda>_.
     Ok (s \<lparr> sr_ops := bset_insert op_key opn (sr_ops s) \<rparr>))"

subsection \<open>The sets of operations\<close>

lemma op_key_inj: "inj op_key"
  by (rule injI) (simp add: op_key_def register_op.equality merkle_node.equality
      register_address.equality)

interpretation op_sets: replicated_set "bset_inv op_key" set "bset_extend op_key"
  by (rule bset_replicated_set [OF op_key_inj])

text \<open>What a replica does: it adds an operation or merges another register.\<close>

datatype 'm replica_event = AddOp register_op | MergeRegister "'m signed_register"

fun event_ops :: "'m replica_event \<Rightarrow> register_op list" where
  "event_ops (AddOp opn) = [opn]"
| "event_ops (MergeRegister other) = sr_ops other"

fun replica_step ::
    "bls_ops \<Rightarrow> 'm reg_ops \<Rightarrow> 'm signed_register \<Rightarrow> 'm replica_event
      \<Rightarrow> (register_error, 'm signed_register) result" where
  "replica_step B R s (AddOp opn) = sr_add_op B R s opn"
| "replica_step B R s (MergeRegister other) = sr_verified_merge B R s other"

fun replica_run ::
    "bls_ops \<Rightarrow> 'm reg_ops \<Rightarrow> 'm signed_register \<Rightarrow> 'm replica_event list
      \<Rightarrow> (register_error, 'm signed_register) result" where
  "replica_run B R s [] = Ok s"
| "replica_run B R s (e # es) = and_then (replica_step B R s e) (\<lambda>s'. replica_run B R s' es)"

lemma replica_step_ok:
  "replica_step B R s e = Ok s' \<Longrightarrow>
     s' = s \<lparr> sr_ops := bset_extend op_key (sr_ops s) (event_ops e) \<rparr>"
  by (cases e) (auto simp: sr_add_op_def sr_verified_merge_def result_simps bset_extend_def)

lemma replica_run_ok:
  "replica_run B R s es = Ok s' \<Longrightarrow>
     s' = s \<lparr> sr_ops := fold (\<lambda>t s. bset_extend op_key s t) (map event_ops es) (sr_ops s) \<rparr>"
proof (induction es arbitrary: s)
  case (Cons e es)
  from Cons.prems obtain s1 where "replica_step B R s e = Ok s1"
    and run: "replica_run B R s1 es = Ok s'"
    by (auto simp: result_simps)
  then have "s1 = s \<lparr> sr_ops := bset_extend op_key (sr_ops s) (event_ops e) \<rparr>"
    by (intro replica_step_ok)
  with Cons.IH [OF run] show ?case by simp
qed simp

subsection \<open>Verification is preserved\<close>

lemma sr_verify_ok_iff:
  "sr_verify B R s = Ok () \<longleftrightarrow>
     (\<exists>bs. register_bytes R (base_register s) = Ok bs
        \<and> pk_verify B (reg_owner (base_register s)) (sr_signature s) bs)
     \<and> (\<forall>opn \<in> set (sr_ops s). check_register_op B R (base_register s) opn = Ok ())"
  by (auto simp: sr_verify_def result_simps try_for_each_Ok_iff)

text \<open>The check of an operation only depends on the permissions.\<close>

lemma check_register_op_cong:
  "reg_permissions r = reg_permissions r' \<Longrightarrow> check_register_op B R r opn = check_register_op B R r' opn"
  by (simp add: check_register_op_def check_user_permissions_def)

lemma replica_step_verify:
  assumes "sr_verify B R s = Ok ()" and "replica_step B R s e = Ok s'"
  shows "sr_verify B R s' = Ok ()"
proof (cases e)
  case (AddOp opn)
  then have "check_register_op B R (base_register s) opn = Ok ()"
    and s': "s' = s \<lparr> sr_ops := bset_insert op_key opn (sr_ops s) \<rparr>"
    using assms(2) by (auto simp: sr_add_op_def result_simps)
  moreover have "set (bset_insert op_key opn (sr_ops s)) \<subseteq> insert opn (set (sr_ops s))"
    by (rule bset_insert_subset)
  ultimately show ?thesis using assms(1) by (auto simp: sr_verify_ok_iff s')
next
  case (MergeRegister other)
  then have merg: "verify_is_mergeable (base_register s) (base_register other) = Ok ()"
    and other: "sr_verify B R other = Ok ()"
    and s': "s' = s \<lparr> sr_ops := bset_extend op_key (sr_ops s) (sr_ops other) \<rparr>"
    using assms(2) by (auto simp: sr_verified_merge_def result_simps)
  have perm: "reg_permissions (base_register s) = reg_permissions (base_register other)"
    using merg by (simp add: verify_is_mergeable_def split: if_splits)
  have "check_register_op B R (base_register s) opn = Ok ()" if "opn \<in> set (sr_ops other)" for opn
    using other that check_register_op_cong [OF perm] by (simp add: sr_verify_ok_iff)
  then show ?thesis
    using assms(1) unfolding s' by (auto simp: sr_verify_ok_iff op_sets.elems_join)
qed

lemma replica_run_verify:
  "sr_verify B R s = Ok () \<Longrightarrow> replica_run B R s es = Ok s' \<Longrightarrow> sr_verify B R s' = Ok ()"
proof (induction es arbitrary: s)
  case (Cons e es)
  from Cons.prems(2) obtain s1 where step: "replica_step B R s e = Ok s1"
    and "replica_run B R s1 es = Ok s'"
    by (auto simp: result_simps)
  with Cons.IH [OF replica_step_verify [OF Cons.prems(1) step]] show ?case by simp
qed simp

subsection \<open>Sizes\<close>

text \<open>Adding a node to the Merkle register adds at most one to its nodes and orphans.\<close>

definition merkle_grows_by_one :: "'m reg_ops \<Rightarrow> bool" where
  "merkle_grows_by_one R \<longleftrightarrow>
     (\<forall>m node. merkle_num_nodes R (merkle_apply R m node) + merkle_num_orphans R (merkle_apply R m node)
        \<le> Suc (merkle_num_nodes R m + merkle_num_orphans R m))"

lemma register_apply_op_size:
  assumes "merkle_grows_by_one R" and "register_apply_op B R r opn = Ok r'"
  shows "crdt_size R (reg_crdt r') \<le> MAX_REG_NUM_ENTRIES"
proof -
  have small: "crdt_size R (reg_crdt r) < MAX_REG_NUM_ENTRIES"
    and r': "r' = r \<lparr> reg_crdt := reg_crdt r \<lparr> crdt_data :=
        merkle_apply R (crdt_data (reg_crdt r)) (crdt_op opn) \<rparr> \<rparr>"
    using assms(2)
    by (auto simp: register_apply_op_def crdt_apply_op_def check_entry_and_reg_sizes_def Let_def
        result_simps split: if_splits)
  have "crdt_size R (reg_crdt r') \<le> Suc (crdt_size R (reg_crdt r))"
    using assms(1) by (simp add: r' crdt_size_def merkle_grows_by_one_def)
  with small show ?thesis by simp
qed

lemma apply_ops_size:
  assumes "merkle_grows_by_one R"
  shows "apply_ops B R r ops = Ok r' \<Longrightarrow> crdt_size R (reg_crdt r) \<le> MAX_REG_NUM_ENTRIES
     \<Longrightarrow> crdt_size R (reg_crdt r') \<le> MAX_REG_NUM_ENTRIES"
proof (induction ops arbitrary: r)
  case (Cons opn ops)
  from Cons.prems(1) obtain r1 where "register_apply_op B R r opn = Ok r1"
    and "apply_ops B R r1 ops = Ok r'"
    by (auto simp: result_simps)
  with Cons.IH [of r1] register_apply_op_size [OF assms] show ?case by blast
qed simp

lemma apply_ops_keeps:
  "apply_ops B R r ops = Ok r' \<Longrightarrow>
     reg_address r' = reg_address r \<and> reg_permissions r' = reg_permissions r
     \<and> (\<forall>opn \<in> set ops. op_address opn = reg_address r
          \<and> length (node_value (crdt_op opn)) \<le> MAX_REG_ENTRY_SIZE)"
proof (induction ops arbitrary: r)
  case (Cons opn ops)
  from Cons.prems obtain r1 where step: "register_apply_op B R r opn = Ok r1"
    and rest: "apply_ops B R r1 ops = Ok r'"
    by (auto simp: result_simps)
  have "reg_address r1 = reg_address r \<and> reg_permissions r1 = reg_permissions r
      \<and> op_address opn = reg_address r \<and> length (node_value (crdt_op opn)) \<le> MAX_REG_ENTRY_SIZE"
    using step
    by (auto simp: register_apply_op_def crdt_apply_op_def check_entry_and_reg_sizes_def Let_def
        reg_address_def result_simps split: if_splits)
  with Cons.IH [OF rest] show ?case by simp
qed simp

subsection \<open>Properties\<close>

text \<open>C12: replicas converge. Two replicas that start from the same signed register and have
  received the same operations, in any order, with repetitions, and in any mixture of single
  operations and merges, are in the same state.\<close>

theorem register_replicas_converge:
  assumes "bset_inv op_key (sr_ops s)"
    and "replica_run B R s es = Ok s1" and "replica_run B R s es' = Ok s2"
    and "\<Union> (set ` event_ops ` set es) = \<Union> (set ` event_ops ` set es')"
  shows "s1 = s2"
proof -
  have "fold (\<lambda>t s. bset_extend op_key s t) (map event_ops es) (sr_ops s)
      = fold (\<lambda>t s. bset_extend op_key s t) (map event_ops es') (sr_ops s)"
    using assms(4) by (intro op_sets.fold_join_eq [OF assms(1)]) simp
  then show ?thesis
    using replica_run_ok [OF assms(2)] replica_run_ok [OF assms(3)] by simp
qed

text \<open>C13: a register signed by its owner verifies, and it still does after any sequence of
  additions and verified merges; no operation is ever lost.\<close>

theorem register_stays_verified:
  assumes "bls_correct B" and "into_signed B R r sk = Ok s" and "replica_run B R s es = Ok s'"
  shows "sr_verify B R s' = Ok () \<and> base_register s' = r
     \<and> set (sr_ops s') = \<Union> (set ` event_ops ` set es)"
proof -
  have "sr_verify B R s = Ok ()" and "base_register s = r" and "sr_ops s = []"
    using assms(1,2)
    by (auto simp: into_signed_def register_sign_def result_simps sr_verify_ok_iff
        bls_sign_verifies split: if_splits)
  moreover have "set (sr_ops s') = set (sr_ops s) \<union> \<Union> (set ` set (map event_ops es))"
    using replica_run_ok [OF assms(3)] op_sets.fold_join_elems [of "map event_ops es" "sr_ops s"]
    by simp
  ultimately show ?thesis
    using replica_run_verify [OF _ assms(3)] replica_run_ok [OF assms(3)] by simp
qed

text \<open>C31: the operation that a write returns passes the checks of every replica with the same
  permissions, and a replica in the writer's state that applies it ends in the writer's new
  state.\<close>

theorem register_write_replays:
  assumes "bls_correct B" and "register_write B R r e children signer = Ok (r', h, opn)"
    and "\<And>m e c. node_value (merkle_write R m e c) = e"
    and "reg_permissions r2 = reg_permissions r"
  shows "check_register_op B R r2 opn = Ok () \<and> register_apply_op B R r opn = Ok r'
     \<and> h = node_hash R (crdt_op opn) \<and> op_address opn = reg_address r
     \<and> length e \<le> MAX_REG_ENTRY_SIZE"
proof -
  let ?node = "merkle_write R (crdt_data (reg_crdt r)) e (bset_of id children)"
  have sizes: "check_entry_and_reg_sizes R r e = Ok ()"
    and perm: "check_user_permissions r (sk_public_key B signer) = Ok ()"
    and opn: "opn = register_op_new B R (reg_address r) ?node signer" and h: "h = node_hash R ?node"
    and r': "r' = r \<lparr> reg_crdt := reg_crdt r \<lparr> crdt_data :=
        merkle_apply R (crdt_data (reg_crdt r)) ?node \<rparr> \<rparr>"
    using assms(2) by (auto simp: register_write_def crdt_write_def Let_def result_simps reg_address_def)
  have "op_verify_signature B R opn (op_source opn) = Ok ()"
    using assms(1)
    by (simp add: opn register_op_new_def op_verify_signature_def Let_def bls_sign_verifies)
  then have check: "check_register_op B R r opn = Ok ()"
    using perm by (simp add: check_register_op_def opn register_op_new_def Let_def)
  moreover have "check_register_op B R r2 opn = check_register_op B R r opn"
    by (rule check_register_op_cong [OF assms(4)])
  moreover have "length e \<le> MAX_REG_ENTRY_SIZE"
    using sizes by (auto simp: check_entry_and_reg_sizes_def Let_def split: if_splits)
  ultimately show ?thesis
    using sizes assms(3)
    by (simp add: register_apply_op_def crdt_apply_op_def reg_address_def opn h r'
        register_op_new_def Let_def)
qed


text \<open>The address of an operation is not checked when it is added or verified. An
  operation that a permitted writer signed for another register is accepted by \<open>add_op\<close>, the
  result verifies, and from then on the register can no longer be read.\<close>

theorem foreign_op_blocks_register:
  assumes "bls_correct B" and "sr_verify B R s = Ok ()"
    and "can_write (reg_permissions (base_register s)) (sk_public_key B sk)"
    and "address \<noteq> sr_address s" and "bset_inv op_key (sr_ops s)"
  shows "\<exists>s'. sr_add_op B R s (register_op_new B R address node sk) = Ok s'
     \<and> sr_verify B R s' = Ok () \<and> \<not> is_ok (sr_register B R s')"
proof -
  let ?op = "register_op_new B R address node sk"
  let ?s = "s \<lparr> sr_ops := bset_insert op_key ?op (sr_ops s) \<rparr>"
  have "check_register_op B R (base_register s) ?op = Ok ()"
    using assms(1,3)
    by (simp add: check_register_op_def check_user_permissions_def op_verify_signature_def
        register_op_new_def Let_def bls_sign_verifies)
  then have add: "sr_add_op B R s ?op = Ok ?s" by (simp add: sr_add_op_def)
  then have ver: "sr_verify B R ?s = Ok ()"
    using replica_step_verify [OF assms(2), of "AddOp ?op" ?s] by simp
  have "?op \<in> set (sr_ops ?s)"
    using op_sets.elems_join [of "sr_ops s" "[?op]"] by (simp add: bset_extend_def)
  moreover have "op_address ?op = address" by (simp add: register_op_new_def Let_def)
  ultimately have "\<not> is_ok (sr_register B R ?s)"
    using assms(4) apply_ops_keeps [of B R "base_register ?s" "sr_ops ?s"]
    by (cases "sr_register B R ?s") (auto simp: sr_register_def sr_address_def)
  with add ver show ?thesis by blast
qed

subsection \<open>Examples\<close>

text \<open>A grow-only list of nodes in the place of the Merkle register.\<close>

definition list_merkle :: "merkle_node list reg_ops" where
  "list_merkle =
     \<lparr> merkle_new = [],
       merkle_apply = (\<lambda>m n. if n \<in> set m then m else m @ [n]),
       merkle_write = (\<lambda>m e c. \<lparr> node_children = c, node_value = e \<rparr>),
       merkle_merge = (\<lambda>m m'. m @ filter (\<lambda>n. n \<notin> set m) m'),
       merkle_num_nodes = length,
       merkle_num_orphans = (\<lambda>m. 0),
       merkle_get = (\<lambda>m h. None),
       merkle_read = (\<lambda>m. []),
       merkle_children = (\<lambda>m h. []),
       node_hash = (\<lambda>n. of_nat (length (node_value n))),
       op_hash64 = (\<lambda>a h pk. ucast h),
       register_to_vec = (\<lambda>r. Some [1]) \<rparr>"

definition example_register :: "merkle_node list register" where
  "example_register = register_new list_merkle 7 1 (Writers [])"

definition example_op :: "nat \<Rightarrow> register_op" where
  "example_op n = register_op_new xor_bls list_merkle \<lparr> ra_meta = 1, ra_owner = 7 \<rparr>
     \<lparr> node_children = [], node_value = replicate n 1 \<rparr> 7"

lemma example_register_simps [simp]:
  "reg_owner example_register = 7" "reg_permissions example_register = Writers [7]"
  "reg_address example_register = \<lparr> ra_meta = 1, ra_owner = 7 \<rparr>"
  by (simp_all add: example_register_def register_new_def reg_owner_def reg_address_def crdt_new_def)

definition example_signed :: "merkle_node list signed_register" where
  "example_signed = \<lparr> base_register = example_register, sr_signature = 7, sr_ops = [] \<rparr>"

lemma example_into_signed: "into_signed xor_bls list_merkle example_register 7 = Ok example_signed"
  by (simp add: into_signed_def register_sign_def register_bytes_def example_signed_def list_merkle_def)

lemma example_op_check: "check_register_op xor_bls list_merkle example_register (example_op n) = Ok ()"
  by (simp add: check_register_op_def can_anyone_write_def check_user_permissions_def example_op_def
      register_op_new_def op_verify_signature_def Let_def)

lemma example_add_op:
  "base_register s = example_register \<Longrightarrow>
     sr_add_op xor_bls list_merkle s (example_op n)
       = Ok (s \<lparr> sr_ops := bset_insert op_key (example_op n) (sr_ops s) \<rparr>)"
  by (simp add: sr_add_op_def example_op_check)

theorem register_replicas_converge_witness:
  "projr (replica_run xor_bls list_merkle example_signed [AddOp (example_op 1), AddOp (example_op 2)])
   = projr (replica_run xor_bls list_merkle example_signed
       [AddOp (example_op 2), AddOp (example_op 1), AddOp (example_op 2)])"
  by (rule register_replicas_converge
      [where s = example_signed and B = xor_bls and R = list_merkle
        and es = "[AddOp (example_op 1), AddOp (example_op 2)]"
        and es' = "[AddOp (example_op 2), AddOp (example_op 1), AddOp (example_op 2)]"])
    (auto simp: example_signed_def example_add_op)

theorem register_stays_verified_witness:
  "\<exists>s. replica_run xor_bls list_merkle example_signed [AddOp (example_op 1)] = Ok s
     \<and> sr_verify xor_bls list_merkle s = Ok ()"
proof -
  obtain s where s: "replica_run xor_bls list_merkle example_signed [AddOp (example_op 1)] = Ok s"
    by (simp add: example_signed_def example_add_op)
  show ?thesis using register_stays_verified [OF _ example_into_signed s] s by simp
qed

lemma example_write:
  "\<exists>r' h. register_write xor_bls list_merkle example_register [1] [] 7 = Ok (r', h, example_op 1)"
  by (simp add: register_write_def check_entry_and_reg_sizes_def check_user_permissions_def
      crdt_write_def crdt_size_def example_register_def register_new_def crdt_new_def list_merkle_def
      Let_def MAX_REG_ENTRY_SIZE_def MAX_REG_NUM_ENTRIES_def bset_of_def bset_extend_def
      example_op_def register_op_new_def op_bytes_for_signing_def)

theorem register_write_replays_witness:
  "\<exists>r'. register_apply_op xor_bls list_merkle example_register (example_op 1) = Ok r'"
proof -
  obtain r' h where w: "register_write xor_bls list_merkle example_register [1] [] 7
      = Ok (r', h, example_op 1)"
    using example_write by blast
  show ?thesis
    using register_write_replays [OF xor_bls_correct w, of example_register]
    by (auto simp: list_merkle_def)
qed


theorem foreign_op_blocks_register_witness:
  "\<exists>s'. sr_verify xor_bls list_merkle s' = Ok () \<and> \<not> is_ok (sr_register xor_bls list_merkle s')"
proof -
  have "sr_verify xor_bls list_merkle example_signed = Ok ()"
    by (simp add: sr_verify_def register_bytes_def list_merkle_def example_signed_def)
  then show ?thesis
    using foreign_op_blocks_register [of xor_bls list_merkle example_signed 7
        "\<lparr> ra_meta = 2, ra_owner = 7 \<rparr>"]
    by (auto simp: example_signed_def sr_address_def)
qed

end
