(* ===== verification/Payments.thy ===== *)
theory Payments
  imports Spend_Validation
begin

section \<open>Quotes and payments (sn\_transfers/src/wallet/data\_payments.rs)\<close>

text \<open>
  The quote of a node for storing one address, the check that it was signed by the peer that
  claims it, its expiry, and the comparison of two quotes of the same peer. A \<open>SystemTime\<close> is
  the number of nanoseconds since the epoch; the time of the call is an argument. The keys and
  signatures of libp2p and the encoding of the metrics are the record \<open>quote_ops\<close>.
\<close>

type_synonym system_time = nat

abbreviation as_secs :: "nat \<Rightarrow> nat" where
  "as_secs d \<equiv> d div 10 ^ 9"

abbreviation from_secs :: "nat \<Rightarrow> nat" where
  "from_secs s \<equiv> s * 10 ^ 9"

definition QUOTE_EXPIRATION_SECS :: nat where
  "QUOTE_EXPIRATION_SECS = 3600"

definition LIVE_TIME_MARGIN :: nat where
  "LIVE_TIME_MARGIN = 10"

record quoting_metrics =
  close_records_stored :: nat
  qm_max_records :: nat
  qm_received_payment_count :: usize
  live_time :: u64

record payment_quote =
  q_content :: xor_name
  q_cost :: nano_tokens
  q_timestamp :: system_time
  q_metrics :: quoting_metrics
  q_pub_key :: bytes
  q_signature :: bytes

record payment =
  pay_transfers :: "transfer list"
  pay_quote :: payment_quote

record payment_details =
  pd_recipient :: main_pubkey
  pd_peer_id_bytes :: bytes
  pd_transfer :: "transfer \<times> nano_tokens"
  pd_royalties :: "transfer \<times> nano_tokens"
  pd_quote :: payment_quote

record quote_ops =
  decode_pubkey :: "bytes \<Rightarrow> bytes option"
  peer_of_pubkey :: "bytes \<Rightarrow> peer_id"
  verify_sig :: "bytes \<Rightarrow> bytes \<Rightarrow> bytes \<Rightarrow> bool"
  metrics_to_vec :: "quoting_metrics \<Rightarrow> bytes option"

definition to_payment :: "payment_details \<Rightarrow> payment" where
  "to_payment d =
     \<lparr> pay_transfers = [fst (pd_transfer d), fst (pd_royalties d)], pay_quote = pd_quote d \<rparr>"

definition quoting_metrics_new :: quoting_metrics where
  "quoting_metrics_new =
     \<lparr> close_records_stored = 0, qm_max_records = 0, qm_received_payment_count = 0, live_time = 0 \<rparr>"

definition payment_quote_zero :: "system_time \<Rightarrow> payment_quote" where
  "payment_quote_zero now =
     \<lparr> q_content = 0, q_cost = nano_zero, q_timestamp = now, q_metrics = quoting_metrics_new,
       q_pub_key = [], q_signature = [] \<rparr>"

definition le_bytes_u64 :: "u64 \<Rightarrow> bytes" where
  "le_bytes_u64 w = rev (be_bytes w)"

definition quote_bytes_for_signing ::
    "quote_ops \<Rightarrow> xor_name \<Rightarrow> nano_tokens \<Rightarrow> system_time \<Rightarrow> quoting_metrics \<Rightarrow> bytes" where
  "quote_bytes_for_signing Q xorname cost timestamp metrics =
     be_bytes xorname @ nano_to_bytes cost @ le_bytes_u64 (of_nat (as_secs timestamp))
       @ case_option [] id (metrics_to_vec Q metrics)"

definition quote_bytes :: "quote_ops \<Rightarrow> payment_quote \<Rightarrow> bytes" where
  "quote_bytes Q q = quote_bytes_for_signing Q (q_content q) (q_cost q) (q_timestamp q) (q_metrics q)"

definition check_is_signed_by_claimed_peer :: "quote_ops \<Rightarrow> payment_quote \<Rightarrow> peer_id \<Rightarrow> bool" where
  "check_is_signed_by_claimed_peer Q q claimed_peer =
     (case decode_pubkey Q (q_pub_key q) of
        None \<Rightarrow> False
      | Some pub_key \<Rightarrow>
          if peer_of_pubkey Q pub_key \<noteq> claimed_peer then False
          else verify_sig Q pub_key (quote_bytes Q q) (q_signature q))"

definition has_expired :: "system_time \<Rightarrow> payment_quote \<Rightarrow> bool" where
  "has_expired now q =
     (if now < q_timestamp q then True
      else as_secs (now - q_timestamp q) > QUOTE_EXPIRATION_SECS)"

definition is_newer_than :: "payment_quote \<Rightarrow> payment_quote \<Rightarrow> bool" where
  "is_newer_than q other \<longleftrightarrow> q_timestamp q > q_timestamp other"

definition historical_verify :: "system_time \<Rightarrow> payment_quote \<Rightarrow> payment_quote \<Rightarrow> bool" where
  "historical_verify now q other =
     (let (old_quote, new_quote) = (if is_newer_than q other then (other, q) else (q, other));
          old = q_metrics old_quote; new = q_metrics new_quote
      in if live_time new < live_time old then False
         else if now < q_timestamp old_quote then False
         else if now < q_timestamp new_quote then False
         else let old_elapsed = now - q_timestamp old_quote;
                  new_elapsed = now - q_timestamp new_quote;
                  time_diff = as_secs old_elapsed - as_secs new_elapsed;
                  live_time_diff = live_time new - live_time old
              in if unat live_time_diff > time_diff + LIVE_TIME_MARGIN then False
                 else if qm_received_payment_count new < qm_received_payment_count old then False
                 else True)"

subsection \<open>The signed bytes\<close>

lemma le_bytes_u64_inj [simp]: "le_bytes_u64 a = le_bytes_u64 b \<longleftrightarrow> a = b"
  by (simp add: le_bytes_u64_def be_bytes_inj)

lemma le_bytes_u64_length [simp]: "length (le_bytes_u64 a) = 8"
  by (simp add: le_bytes_u64_def)

lemma quote_bytes_for_signing_eq_iff:
  "quote_bytes_for_signing Q x c t m = quote_bytes_for_signing Q x' c' t' m' \<longleftrightarrow>
     x = x' \<and> c = c' \<and> (of_nat (as_secs t) :: u64) = of_nat (as_secs t')
     \<and> case_option [] id (metrics_to_vec Q m) = case_option [] id (metrics_to_vec Q m')"
  by (simp add: quote_bytes_for_signing_def be_bytes_inj)

subsection \<open>Quotes of an honest node\<close>

text \<open>Whole seconds of a difference of times are within one second of the difference of
  whole seconds.\<close>

lemma as_secs_add:
  "as_secs a + as_secs b \<le> as_secs (a + b) \<and> as_secs (a + b) \<le> as_secs a + as_secs b + 1"
proof -
  have "(a + b) div 10 ^ 9 = a div 10 ^ 9 + b div 10 ^ 9 + (a mod 10 ^ 9 + b mod 10 ^ 9) div 10 ^ 9"
    by (rule div_add1_eq)
  moreover have "(a mod 10 ^ 9 + b mod 10 ^ 9) div (10 ^ 9 :: nat) \<le> 1"
    by (rule less_Suc_eq_le [THEN iffD1]) (simp add: div_less_iff_less_mult)
  ultimately show ?thesis by simp
qed

lemma as_secs_diff_le:
  assumes "(a :: nat) \<le> b" and "b \<le> c"
  shows "as_secs (c - a) \<le> as_secs (c - b) + as_secs (b - a) + 1"
    and "as_secs (c - b) + as_secs (b - a) \<le> as_secs (c - a)"
  using as_secs_add [of "c - b" "b - a"] assms by simp_all

lemma historical_verify_iff:
  assumes "q_timestamp q \<le> q_timestamp q'"
  shows "historical_verify now q q' \<longleftrightarrow>
     live_time (q_metrics q) \<le> live_time (q_metrics q') \<and> q_timestamp q' \<le> now
     \<and> unat (live_time (q_metrics q') - live_time (q_metrics q))
         \<le> as_secs (now - q_timestamp q) - as_secs (now - q_timestamp q') + LIVE_TIME_MARGIN
     \<and> qm_received_payment_count (q_metrics q) \<le> qm_received_payment_count (q_metrics q')"
  using assms by (auto simp: historical_verify_def is_newer_than_def Let_def not_less)

text \<open>The metrics a store that runs since \<open>start\<close> reports at time \<open>t\<close>.\<close>

definition reports_live_time :: "system_time \<Rightarrow> payment_quote \<Rightarrow> bool" where
  "reports_live_time start q \<longleftrightarrow>
     start \<le> q_timestamp q \<and> live_time (q_metrics q) = of_nat (as_secs (q_timestamp q - start))
     \<and> as_secs (q_timestamp q - start) < 2 ^ 64"

lemma honest_old_new_verify:
  assumes "reports_live_time start old" and "reports_live_time start new"
    and "q_timestamp old \<le> q_timestamp new" and "q_timestamp new \<le> now"
  shows "live_time (q_metrics old) \<le> live_time (q_metrics new)"
    and "unat (live_time (q_metrics new) - live_time (q_metrics old))
      \<le> as_secs (now - q_timestamp old) - as_secs (now - q_timestamp new) + LIVE_TIME_MARGIN"
proof -
  let ?o = "q_timestamp old" and ?n = "q_timestamp new"
  have o: "unat (live_time (q_metrics old)) = as_secs (?o - start)"
    and n: "unat (live_time (q_metrics new)) = as_secs (?n - start)" and s: "start \<le> ?o"
    using assms(1,2) by (simp_all add: reports_live_time_def unat_of_nat_u64)
  have "as_secs (?o - start) \<le> as_secs (?n - start)"
    using assms(3) by (intro div_le_mono) simp
  then show le: "live_time (q_metrics old) \<le> live_time (q_metrics new)"
    using o n by (simp add: word_le_nat_alt)
  have "as_secs (?n - start) \<le> as_secs (?n - ?o) + as_secs (?o - start) + 1"
    by (rule as_secs_diff_le(1) [OF s assms(3)])
  moreover have "as_secs (now - ?n) + as_secs (?n - ?o) \<le> as_secs (now - ?o)"
    by (rule as_secs_diff_le(2) [OF assms(3,4)])
  ultimately have "as_secs (?n - start) - as_secs (?o - start)
      \<le> as_secs (now - ?o) - as_secs (now - ?n) + 10" by linarith
  then show "unat (live_time (q_metrics new) - live_time (q_metrics old))
      \<le> as_secs (now - ?o) - as_secs (now - ?n) + LIVE_TIME_MARGIN"
    using le o n by (simp add: unat_sub LIVE_TIME_MARGIN_def)
qed

lemma honest_quotes_verify:
  assumes "reports_live_time start q" and "reports_live_time start q'"
    and "q_timestamp q \<le> now" and "q_timestamp q' \<le> now"
    and "q_timestamp q \<le> q_timestamp q' \<longrightarrow>
      qm_received_payment_count (q_metrics q) \<le> qm_received_payment_count (q_metrics q')"
    and "q_timestamp q' < q_timestamp q \<longrightarrow>
      qm_received_payment_count (q_metrics q') \<le> qm_received_payment_count (q_metrics q)"
  shows "historical_verify now q q'"
proof (cases "q_timestamp q' < q_timestamp q")
  case True
  then show ?thesis
    using assms honest_old_new_verify [of start q' q now]
    by (simp add: historical_verify_def is_newer_than_def not_less [symmetric])
next
  case False
  then show ?thesis
    using assms honest_old_new_verify [of start q q' now]
    by (simp add: historical_verify_def is_newer_than_def not_less [symmetric])
qed

text \<open>A node that claims to have lived longer than the time between its two quotes and the
  margin allow is detected.\<close>

lemma inflated_live_time_rejected:
  assumes "q_timestamp q \<le> q_timestamp q'" and "q_timestamp q' \<le> now"
    and "live_time (q_metrics q) \<le> live_time (q_metrics q')"
    and "as_secs (q_timestamp q' - q_timestamp q) + 12
      \<le> unat (live_time (q_metrics q')) - unat (live_time (q_metrics q))"
  shows "\<not> historical_verify now q q'"
proof -
  let ?o = "q_timestamp q" and ?n = "q_timestamp q'"
  have "as_secs (now - ?o) \<le> as_secs (now - ?n) + as_secs (?n - ?o) + 1"
    by (rule as_secs_diff_le(1) [OF assms(1,2)])
  then have "as_secs (now - ?o) - as_secs (now - ?n) + LIVE_TIME_MARGIN
      < unat (live_time (q_metrics q')) - unat (live_time (q_metrics q))"
    using assms(4) unfolding LIVE_TIME_MARGIN_def by linarith
  then show ?thesis
    unfolding historical_verify_iff [OF assms(1)] unat_sub [OF assms(3)] by linarith
qed

end
