(* ===== verification/Record_Store.thy ===== *)
theory Record_Store
  imports Complex_Main Payments
begin

section \<open>The record store of a node (sn\_networking/src/record\_store.rs)\<close>

text \<open>
  The store keeps an index of the records on disk, a first-in first-out cache of records with
  a map from keys to positions in it, and the record farthest from the node. Files are written
  and removed by spawned tasks; a finished write sends a command back that adds the record to
  the index. The directory, the spawned tasks and the sent commands and events are fields of the
  state, in the order of their creation, and \<open>run_task\<close> is what a task does when it runs.
  A \<open>HashMap\<close> is an association list, so that its order of iteration is the order of the list.
  The hex encoding, the cipher and the feature flag \<open>encrypt-records\<close> are the record
  \<open>store_ops\<close>. The sigmoid of the store cost is computed over the reals instead of \<open>f64\<close>.
\<close>

record store_ops =
  hex_encode :: "bytes \<Rightarrow> string"
  hex_decode :: "string \<Rightarrow> bytes option"
  aes_encrypt :: "bytes \<Rightarrow> bytes \<Rightarrow> bytes \<Rightarrow> bytes option"
  aes_decrypt :: "bytes \<Rightarrow> bytes \<Rightarrow> bytes \<Rightarrow> bytes option"
  encrypt_records :: bool

datatype store_error = MaxRecords | ValueTooLarge

type_synonym record_index = "(record_key, network_address \<times> record_type) hash_map"

datatype disk_task =
    WriteRecordFile kad_record record_type
  | RemoveRecordFile string
  | WriteQuotingMetrics usize system_time

datatype store_cmd =
    AddLocalRecordAsStored record_key record_type
  | RemoveFailedLocalRecord record_key

record node_record_store_config =
  max_records :: nat
  max_value_bytes :: nat
  records_cache_size :: nat

record node_record_store =
  local_peer :: peer_id
  store_config :: node_record_store_config
  records :: record_index
  records_cache :: "kad_record list"
  records_cache_map :: "(record_key, nat) hash_map"
  responsible_distance_range :: "nat option"
  received_payment_count :: usize
  store_cipher :: bytes
  nonce_starter :: bytes
  store_timestamp :: system_time
  farthest_record :: "(record_key \<times> distance) option"
  disk :: "(string, bytes) hash_map"
  quoting_file :: "(usize \<times> system_time) option"
  spawned :: "disk_task list"
  sent_cmds :: "store_cmd list"
  unverified_events :: "kad_record list"

definition MAX_RECORDS_COUNT :: nat where
  "MAX_RECORDS_COUNT = 128 * 1024"

definition MAX_RECORDS_CACHE_SIZE :: nat where
  "MAX_RECORDS_CACHE_SIZE = 100"

definition MAX_STORE_COST :: nat where
  "MAX_STORE_COST = 1000000"

definition MIN_STORE_COST :: nat where
  "MIN_STORE_COST = 1"

definition MAX_PACKET_SIZE :: nat where
  "MAX_PACKET_SIZE = 1024 * 1024 * 5"

definition config_default :: node_record_store_config where
  "config_default = \<lparr> max_records = MAX_RECORDS_COUNT, max_value_bytes = MAX_PACKET_SIZE,
     records_cache_size = MAX_RECORDS_CACHE_SIZE \<rparr>"

subsection \<open>Files\<close>

definition vec_resize :: "nat \<Rightarrow> 'a \<Rightarrow> 'a list \<Rightarrow> 'a list" where
  "vec_resize n x xs = take n xs @ replicate (n - length xs) x"

definition generate_nonce_for_record :: "bytes \<Rightarrow> record_key \<Rightarrow> bytes" where
  "generate_nonce_for_record starter key = vec_resize 12 0 (starter @ key)"

definition generate_filename :: "store_ops \<Rightarrow> record_key \<Rightarrow> string" where
  "generate_filename Op key = hex_encode Op key"

definition get_data_from_filename :: "store_ops \<Rightarrow> string \<Rightarrow> record_key option" where
  "get_data_from_filename Op hex_str = hex_decode Op hex_str"

definition get_record_from_bytes ::
    "store_ops \<Rightarrow> bytes \<Rightarrow> record_key \<Rightarrow> bytes \<times> bytes \<Rightarrow> kad_record option" where
  "get_record_from_bytes Op bs key encryption_details =
     (if \<not> encrypt_records Op then Some \<lparr> rec_key = key, rec_value = bs \<rparr>
      else let (aes_key, starter) = encryption_details;
               nonce = generate_nonce_for_record starter key
           in case aes_decrypt Op aes_key nonce bs of
                Some v \<Rightarrow> Some \<lparr> rec_key = key, rec_value = v \<rparr>
              | None \<Rightarrow> None)"

definition prepare_record_bytes :: "store_ops \<Rightarrow> kad_record \<Rightarrow> bytes \<times> bytes \<Rightarrow> bytes option" where
  "prepare_record_bytes Op r encryption_details =
     (if \<not> encrypt_records Op then Some (rec_value r)
      else let (aes_key, starter) = encryption_details;
               nonce = generate_nonce_for_record starter (rec_key r)
           in aes_encrypt Op aes_key nonce (rec_value r))"

definition encryption_details :: "node_record_store \<Rightarrow> bytes \<times> bytes" where
  "encryption_details s = (store_cipher s, nonce_starter s)"

definition read_from_disk :: "store_ops \<Rightarrow> node_record_store \<Rightarrow> record_key \<Rightarrow> kad_record option" where
  "read_from_disk Op s key =
     (case map_of (disk s) (generate_filename Op key) of
        Some bs \<Rightarrow> get_record_from_bytes Op bs key (encryption_details s)
      | None \<Rightarrow> None)"

fun run_task :: "store_ops \<Rightarrow> bool \<Rightarrow> disk_task \<Rightarrow> node_record_store \<Rightarrow> node_record_store" where
  "run_task Op io_ok (WriteRecordFile r ty) s =
     (case prepare_record_bytes Op r (encryption_details s) of
        None \<Rightarrow> s
      | Some bs \<Rightarrow>
          if io_ok
          then s \<lparr> disk := AList.update (generate_filename Op (rec_key r)) bs (disk s),
                   sent_cmds := sent_cmds s @ [AddLocalRecordAsStored (rec_key r) ty] \<rparr>
          else s \<lparr> sent_cmds := sent_cmds s @ [RemoveFailedLocalRecord (rec_key r)] \<rparr>)"
| "run_task Op io_ok (RemoveRecordFile filename) s =
     (if io_ok then s \<lparr> disk := AList.delete filename (disk s) \<rparr> else s)"
| "run_task Op io_ok (WriteQuotingMetrics payments started) s =
     (if io_ok then s \<lparr> quoting_file := Some (payments, started) \<rparr> else s)"

definition flush_historic_quoting_metrics :: "node_record_store \<Rightarrow> node_record_store" where
  "flush_historic_quoting_metrics s =
     s \<lparr> spawned := spawned s @ [WriteQuotingMetrics (received_payment_count s) (store_timestamp s)] \<rparr>"

subsection \<open>The farthest record and pruning\<close>

definition record_distance :: "net_ops \<Rightarrow> peer_id \<Rightarrow> record_key \<Rightarrow> distance" where
  "record_distance N p key = addr_distance N (from_peer p) (from_record_key key)"

definition get_farthest :: "node_record_store \<Rightarrow> record_key option" where
  "get_farthest s = (case farthest_record s of Some (key, _) \<Rightarrow> Some key | None \<Rightarrow> None)"

definition calculate_farthest :: "net_ops \<Rightarrow> node_record_store \<Rightarrow> (record_key \<times> distance) option" where
  "calculate_farthest N s =
     (let sorted_records = sort_key (record_distance N (local_peer s)) (map fst (records s))
      in if sorted_records = [] then None
         else Some (last sorted_records, record_distance N (local_peer s) (last sorted_records)))"

definition store_remove :: "net_ops \<Rightarrow> store_ops \<Rightarrow> node_record_store \<Rightarrow> record_key \<Rightarrow> node_record_store" where
  "store_remove N Op s key =
     (let s1 = s \<lparr> records := AList.delete key (records s),
                   records_cache := filter (\<lambda>r. rec_key r \<noteq> key) (records_cache s) \<rparr>;
          s2 = (case farthest_record s1 of
                  Some (farthest, _) \<Rightarrow>
                    if farthest = key then s1 \<lparr> farthest_record := calculate_farthest N s1 \<rparr> else s1
                | None \<Rightarrow> s1)
      in s2 \<lparr> spawned := spawned s2 @ [RemoveRecordFile (generate_filename Op key)] \<rparr>)"

definition prune_records_if_needed ::
    "net_ops \<Rightarrow> store_ops \<Rightarrow> node_record_store \<Rightarrow> record_key
      \<Rightarrow> node_record_store \<times> (store_error, unit) result" where
  "prune_records_if_needed N Op s incoming =
     (if length (records s) < max_records (store_config s) then (s, Ok ())
      else case farthest_record s of
             Some (farthest, farthest_distance) \<Rightarrow>
               if farthest_distance < record_distance N (local_peer s) incoming
               then (s, Err MaxRecords)
               else (store_remove N Op s farthest, Ok ())
           | None \<Rightarrow> (s, Ok ()))"

definition key_in_range :: "net_ops \<Rightarrow> peer_id \<Rightarrow> nat \<Rightarrow> record_key \<Rightarrow> bool" where
  "key_in_range N p bucket_range key \<longleftrightarrow>
     bucket_range \<ge> case_option 0 id (ilog2 (kad_hash N p XOR kad_hash N key))"

definition cleanup_unrelevant_records ::
    "net_ops \<Rightarrow> store_ops \<Rightarrow> node_record_store \<Rightarrow> node_record_store" where
  "cleanup_unrelevant_records N Op s =
     (if length (records s) < 6 * MAX_RECORDS_COUNT div 10 then s
      else case responsible_distance_range s of
             None \<Rightarrow> s
           | Some responsible_range \<Rightarrow>
               let in_range = key_in_range N (local_peer s) responsible_range;
                   removed_keys = filter (\<lambda>k. \<not> in_range k) (map fst (records s));
                   s1 = s \<lparr> records := hmap_retain (\<lambda>k _. in_range k) (records s) \<rparr>;
                   s2 = s1 \<lparr> farthest_record := calculate_farthest N s1 \<rparr>
               in foldl (store_remove N Op) s2 removed_keys)"

subsection \<open>Reading and writing\<close>

definition store_contains :: "node_record_store \<Rightarrow> record_key \<Rightarrow> bool" where
  "store_contains s key \<longleftrightarrow> hmap_contains (records s) key"

definition record_addresses :: "node_record_store \<Rightarrow> (network_address, record_type) hash_map" where
  "record_addresses s = fold (\<lambda>(_, addr, ty). AList.update addr ty) (records s) []"

definition mark_as_stored ::
    "net_ops \<Rightarrow> node_record_store \<Rightarrow> record_key \<Rightarrow> record_type \<Rightarrow> node_record_store" where
  "mark_as_stored N s key ty =
     (let addr = from_record_key key;
          s1 = s \<lparr> records := AList.update key (addr, ty) (records s) \<rparr>;
          key_distance = addr_distance N (from_peer (local_peer s)) addr
      in case farthest_record s1 of
           Some (_, farthest_distance) \<Rightarrow>
             if key_distance > farthest_distance
             then s1 \<lparr> farthest_record := Some (key, key_distance) \<rparr> else s1
         | None \<Rightarrow> s1 \<lparr> farthest_record := Some (key, key_distance) \<rparr>)"

definition remove_at :: "nat \<Rightarrow> 'a list \<Rightarrow> 'a list" where
  "remove_at i xs = take i xs @ drop (Suc i) xs"

definition update_cache_indices :: "nat \<Rightarrow> node_record_store \<Rightarrow> node_record_store" where
  "update_cache_indices start s =
     s \<lparr> records_cache_map :=
           fold (\<lambda>i. AList.update (rec_key (records_cache s ! i)) i)
             [start..<length (records_cache s)] (records_cache_map s) \<rparr>"

definition cache_same_value :: "node_record_store \<Rightarrow> kad_record \<Rightarrow> bool" where
  "cache_same_value s r =
     (case map_of (records_cache_map s) (rec_key r) of
        Some index \<Rightarrow> index < length (records_cache s)
          \<and> rec_value (records_cache s ! index) = rec_value r
      | None \<Rightarrow> False)"

definition cache_drop_existing :: "node_record_store \<Rightarrow> kad_record \<Rightarrow> node_record_store" where
  "cache_drop_existing s r =
     (case map_of (records_cache_map s) (rec_key r) of
        Some index \<Rightarrow>
          update_cache_indices index (s \<lparr> records_cache := remove_at index (records_cache s) \<rparr>)
      | None \<Rightarrow> s)"

definition cache_push :: "node_record_store \<Rightarrow> kad_record \<Rightarrow> node_record_store" where
  "cache_push s r =
     (let s1 = (if length (records_cache s) \<ge> records_cache_size (store_config s)
                then case records_cache s of
                       old_record # rest \<Rightarrow>
                         s \<lparr> records_cache := rest,
                             records_cache_map := AList.delete (rec_key old_record) (records_cache_map s) \<rparr>
                     | [] \<Rightarrow> s
                else s);
          cache = records_cache s1 @ [r]
      in s1 \<lparr> records_cache := cache,
              records_cache_map := AList.update (rec_key r) (length cache - 1) (records_cache_map s1) \<rparr>)"

definition put_verified ::
    "net_ops \<Rightarrow> store_ops \<Rightarrow> node_record_store \<Rightarrow> kad_record \<Rightarrow> record_type
      \<Rightarrow> node_record_store \<times> (store_error, unit) result" where
  "put_verified N Op s r ty =
     (if cache_same_value s r then (s, Ok ())
      else let s2 = cache_push (cache_drop_existing s r) r
           in case prune_records_if_needed N Op s2 (rec_key r) of
                (s3, Inl e) \<Rightarrow> (s3, Err e)
              | (s3, Inr _) \<Rightarrow>
                  (s3 \<lparr> spawned := spawned s3 @ [WriteRecordFile r ty] \<rparr>, Ok ()))"

definition store_get :: "store_ops \<Rightarrow> node_record_store \<Rightarrow> record_key \<Rightarrow> kad_record option" where
  "store_get Op s key =
     (case find (\<lambda>r. rec_key r = key) (records_cache s) of
        Some r \<Rightarrow> Some r
      | None \<Rightarrow> if \<not> hmap_contains (records s) key then None else read_from_disk Op s key)"

definition store_put ::
    "net_ops \<Rightarrow> 'a codec \<Rightarrow> node_record_store \<Rightarrow> kad_record
      \<Rightarrow> node_record_store \<times> (store_error, unit) result" where
  "store_put N C s r =
     (if length (rec_value r) \<ge> max_value_bytes (store_config s) then (s, Err ValueTooLarge)
      else
        let forward = (s \<lparr> unverified_events := unverified_events s @ [r] \<rparr>, Ok ())
        in case header_from_record C r of
             Inl _ \<Rightarrow> (s, Ok ())
           | Inr kind \<Rightarrow>
               if kind = KChunkWithPayment \<or> kind = KRegisterWithPayment then forward
               else case map_of (records s) (rec_key r) of
                      Some (_, ChunkType) \<Rightarrow> (s, Ok ())
                    | Some (_, NonChunkType existing) \<Rightarrow>
                        if xor_from_content N (rec_value r) = existing then (s, Ok ()) else forward
                    | _ \<Rightarrow> forward)"

subsection \<open>Start and quoting\<close>

definition process_entry ::
    "net_ops \<Rightarrow> store_ops \<Rightarrow> 'a codec \<Rightarrow> bytes \<times> bytes \<Rightarrow> string \<times> bytes
      \<Rightarrow> (record_key \<times> network_address \<times> record_type) option" where
  "process_entry N Op C details entry =
     (case entry of (filename, bs) \<Rightarrow>
        case get_data_from_filename Op filename of
          None \<Rightarrow> None
        | Some key \<Rightarrow>
            (case get_record_from_bytes Op bs key details of
               None \<Rightarrow> None
             | Some r \<Rightarrow>
                 (case is_record_of_type_chunk C r of
                    Inr True \<Rightarrow> Some (key, from_record_key key, ChunkType)
                  | Inr False \<Rightarrow>
                      Some (key, from_record_key key, NonChunkType (xor_from_content N (rec_value r)))
                  | Inl _ \<Rightarrow> None)))"

definition update_records_from_an_existing_store ::
    "net_ops \<Rightarrow> store_ops \<Rightarrow> 'a codec \<Rightarrow> bytes \<times> bytes \<Rightarrow> (string, bytes) hash_map \<Rightarrow> record_index" where
  "update_records_from_an_existing_store N Op C details files =
     fold (\<lambda>(k, v). AList.update k v) (List.map_filter (process_entry N Op C details) files) []"

definition with_config ::
    "net_ops \<Rightarrow> store_ops \<Rightarrow> 'a codec \<Rightarrow> system_time \<Rightarrow> bytes \<Rightarrow> bytes \<Rightarrow> peer_id
      \<Rightarrow> node_record_store_config \<Rightarrow> (string, bytes) hash_map \<Rightarrow> (usize \<times> system_time) option
      \<Rightarrow> node_record_store" where
  "with_config N Op C now aes_key starter local_id config files metrics_file =
     (let (payments, started) = case_option (0, now) id metrics_file;
          s = \<lparr> local_peer = local_id, store_config = config,
                records = update_records_from_an_existing_store N Op C (aes_key, starter) files,
                records_cache = [], records_cache_map = [], responsible_distance_range = None,
                received_payment_count = payments, store_cipher = aes_key, nonce_starter = starter,
                store_timestamp = started, farthest_record = None, disk = files,
                quoting_file = metrics_file, spawned = [], sent_cmds = [], unverified_events = [] \<rparr>
      in flush_historic_quoting_metrics (s \<lparr> farthest_record := calculate_farthest N s \<rparr>))"

definition positive_input_0_1_sigmoid :: "real \<Rightarrow> real" where
  "positive_input_0_1_sigmoid x = 1 / (1 + exp (- 30 * (x - 1 / 2)))"

definition calculate_cost_for_records :: "nat \<Rightarrow> nat" where
  "calculate_cost_for_records records_stored =
     (let ori_cost = positive_input_0_1_sigmoid (real records_stored / real MAX_RECORDS_COUNT)
            * real MAX_STORE_COST;
          charge = max MIN_STORE_COST (nat \<lfloor>ori_cost\<rfloor>)
      in min MAX_STORE_COST charge)"

definition get_records_within_distance_range ::
    "net_ops \<Rightarrow> node_record_store \<Rightarrow> record_key list \<Rightarrow> nat \<Rightarrow> nat" where
  "get_records_within_distance_range N s keys distance_range =
     length (filter (key_in_range N (local_peer s) distance_range) keys)"

definition store_cost ::
    "net_ops \<Rightarrow> system_time \<Rightarrow> node_record_store \<Rightarrow> record_key \<Rightarrow> nano_tokens \<times> quoting_metrics" where
  "store_cost N now s key =
     (let elapsed = (if store_timestamp s \<le> now then as_secs (now - store_timestamp s) else 0);
          metrics = \<lparr> close_records_stored = length (records s),
                      qm_max_records = max_records (store_config s),
                      qm_received_payment_count = received_payment_count s,
                      live_time = of_nat elapsed \<rparr>;
          metrics = (case responsible_distance_range s of
                       Some distance_range \<Rightarrow> metrics \<lparr> close_records_stored :=
                         get_records_within_distance_range N s (map fst (records s)) distance_range \<rparr>
                     | None \<Rightarrow> metrics);
          cost = (if store_contains s key then 0
                  else calculate_cost_for_records (close_records_stored metrics))
      in (NanoTokens (of_nat cost), metrics))"

definition payment_received :: "node_record_store \<Rightarrow> node_record_store" where
  "payment_received s =
     flush_historic_quoting_metrics
       (s \<lparr> received_payment_count := saturating_add (received_payment_count s) 1 \<rparr>)"

definition set_responsible_distance_range :: "node_record_store \<Rightarrow> nat \<Rightarrow> node_record_store" where
  "set_responsible_distance_range s bucket = s \<lparr> responsible_distance_range := Some bucket \<rparr>"

fun apply_store_cmd :: "net_ops \<Rightarrow> store_ops \<Rightarrow> node_record_store \<Rightarrow> store_cmd \<Rightarrow> node_record_store" where
  "apply_store_cmd N Op s (AddLocalRecordAsStored key ty) = mark_as_stored N s key ty"
| "apply_store_cmd N Op s (RemoveFailedLocalRecord key) = store_remove N Op s key"

subsection \<open>The store of a node and of a client (record\_store\_api.rs)\<close>

text \<open>A client has no store: its operations do nothing.\<close>

datatype unified_record_store = ClientStore | NodeStore node_record_store

fun unified_get :: "store_ops \<Rightarrow> unified_record_store \<Rightarrow> record_key \<Rightarrow> kad_record option" where
  "unified_get Op ClientStore key = None"
| "unified_get Op (NodeStore s) key = store_get Op s key"

fun unified_put ::
    "net_ops \<Rightarrow> 'a codec \<Rightarrow> unified_record_store \<Rightarrow> kad_record
      \<Rightarrow> unified_record_store \<times> (store_error, unit) result" where
  "unified_put N C ClientStore r = (ClientStore, Ok ())"
| "unified_put N C (NodeStore s) r = map_prod NodeStore id (store_put N C s r)"

fun unified_remove ::
    "net_ops \<Rightarrow> store_ops \<Rightarrow> unified_record_store \<Rightarrow> record_key \<Rightarrow> unified_record_store" where
  "unified_remove N Op ClientStore key = ClientStore"
| "unified_remove N Op (NodeStore s) key = NodeStore (store_remove N Op s key)"

fun unified_contains :: "unified_record_store \<Rightarrow> record_key \<Rightarrow> bool" where
  "unified_contains ClientStore key = False"
| "unified_contains (NodeStore s) key = store_contains s key"

fun unified_record_addresses :: "unified_record_store \<Rightarrow> (network_address, record_type) hash_map" where
  "unified_record_addresses ClientStore = []"
| "unified_record_addresses (NodeStore s) = record_addresses s"

fun record_addresses_ref :: "unified_record_store \<Rightarrow> record_index" where
  "record_addresses_ref ClientStore = []"
| "record_addresses_ref (NodeStore s) = records s"

fun unified_put_verified ::
    "net_ops \<Rightarrow> store_ops \<Rightarrow> unified_record_store \<Rightarrow> kad_record \<Rightarrow> record_type
      \<Rightarrow> unified_record_store \<times> (store_error, unit) result" where
  "unified_put_verified N Op ClientStore r ty = (ClientStore, Ok ())"
| "unified_put_verified N Op (NodeStore s) r ty = map_prod NodeStore id (put_verified N Op s r ty)"

fun unified_store_cost ::
    "net_ops \<Rightarrow> system_time \<Rightarrow> unified_record_store \<Rightarrow> record_key \<Rightarrow> nano_tokens \<times> quoting_metrics" where
  "unified_store_cost N now ClientStore key = (nano_zero, quoting_metrics_new)"
| "unified_store_cost N now (NodeStore s) key = store_cost N now s key"

fun unified_payment_received :: "unified_record_store \<Rightarrow> unified_record_store" where
  "unified_payment_received ClientStore = ClientStore"
| "unified_payment_received (NodeStore s) = NodeStore (payment_received s)"

fun get_farthest_replication_distance_bucket :: "unified_record_store \<Rightarrow> nat option" where
  "get_farthest_replication_distance_bucket ClientStore = None"
| "get_farthest_replication_distance_bucket (NodeStore s) = responsible_distance_range s"

fun set_distance_range :: "unified_record_store \<Rightarrow> nat \<Rightarrow> unified_record_store" where
  "set_distance_range ClientStore d = ClientStore"
| "set_distance_range (NodeStore s) d = NodeStore (set_responsible_distance_range s d)"

fun unified_get_farthest :: "unified_record_store \<Rightarrow> record_key option" where
  "unified_get_farthest ClientStore = None"
| "unified_get_farthest (NodeStore s) = get_farthest s"

fun unified_mark_as_stored ::
    "net_ops \<Rightarrow> unified_record_store \<Rightarrow> record_key \<Rightarrow> record_type \<Rightarrow> unified_record_store" where
  "unified_mark_as_stored N ClientStore key ty = ClientStore"
| "unified_mark_as_stored N (NodeStore s) key ty = NodeStore (mark_as_stored N s key ty)"

fun unified_cleanup :: "net_ops \<Rightarrow> store_ops \<Rightarrow> unified_record_store \<Rightarrow> unified_record_store" where
  "unified_cleanup N Op ClientStore = ClientStore"
| "unified_cleanup N Op (NodeStore s) = NodeStore (cleanup_unrelevant_records N Op s)"

subsection \<open>The invariant of the index\<close>

definition store_keys :: "node_record_store \<Rightarrow> record_key set" where
  "store_keys s = fst ` set (records s)"

text \<open>The farthest record is one of the index with the largest distance, and there is none
  exactly when the index is empty.\<close>

definition farthest_ok ::
    "net_ops \<Rightarrow> peer_id \<Rightarrow> record_index \<Rightarrow> (record_key \<times> distance) option \<Rightarrow> bool" where
  "farthest_ok N p m f \<longleftrightarrow>
     (case f of
        None \<Rightarrow> m = []
      | Some (key, d) \<Rightarrow>
          key \<in> fst ` set m \<and> d = record_distance N p key
          \<and> (\<forall>k \<in> fst ` set m. record_distance N p k \<le> d))"

definition addresses_ok :: "record_index \<Rightarrow> bool" where
  "addresses_ok m \<longleftrightarrow> (\<forall>(k, a, _) \<in> set m. a = from_record_key k)"

definition store_inv :: "net_ops \<Rightarrow> node_record_store \<Rightarrow> bool" where
  "store_inv N s \<longleftrightarrow> hmap_inv (records s) \<and> addresses_ok (records s)
     \<and> farthest_ok N (local_peer s) (records s) (farthest_record s)"

lemma last_sort_key_max:
  assumes "k \<in> set ks"
  shows "f k \<le> (f (last (sort_key f ks)) :: 'b::linorder)"
proof -
  have "set (sort_key f ks) \<noteq> {}" using assms by auto
  then have ne: "sort_key f ks \<noteq> []" by (simp only: set_empty not_False_eq_True)
  have "sorted (map f (sort_key f ks))" by simp
  then have "sorted (map f (butlast (sort_key f ks)) @ [f (last (sort_key f ks))])"
    using ne by (metis append_butlast_last_id list.simps(8,9) map_append)
  moreover have "k \<in> set (butlast (sort_key f ks)) \<or> k = last (sort_key f ks)"
    using assms ne by (metis append_butlast_last_id in_set_conv_decomp rotate1.simps(2) set_ConsD
        set_rotate1 set_sort)
  ultimately show ?thesis by (auto simp: sorted_append)
qed

lemma calculate_farthest_ok:
  "farthest_ok N (local_peer s) (records s) (calculate_farthest N s)"
proof (cases "records s")
  case Nil
  then show ?thesis by (simp add: farthest_ok_def calculate_farthest_def)
next
  case (Cons a m)
  let ?d = "record_distance N (local_peer s)" and ?ks = "map fst (records s)"
  let ?l = "last (sort_key ?d ?ks)"
  have ne: "sort_key ?d ?ks \<noteq> []"
    using Cons by (metis length_sort list.simps(9) list.size(3) list.distinct(1) length_0_conv)
  then have "?l \<in> set ?ks" using last_in_set by (metis set_sort)
  moreover have "?d k \<le> ?d ?l" if k: "k \<in> set ?ks" for k
    by (rule last_sort_key_max [OF k])
  ultimately show ?thesis
    using ne by (simp add: farthest_ok_def calculate_farthest_def Let_def)
qed

lemma addresses_ok_subset: "addresses_ok m \<Longrightarrow> set m' \<subseteq> set m \<Longrightarrow> addresses_ok m'"
  by (auto simp: addresses_ok_def)

lemma addresses_ok_update:
  "addresses_ok m \<Longrightarrow> addresses_ok (AList.update k (from_record_key k, ty) m)"
  using set_update_subset [of k "(from_record_key k, ty)" m] by (auto simp: addresses_ok_def)

text \<open>The invariant only depends on the peer, the index and the farthest record.\<close>

lemma store_inv_cong:
  "local_peer s' = local_peer s \<Longrightarrow> records s' = records s \<Longrightarrow>
   farthest_record s' = farthest_record s \<Longrightarrow> store_inv N s' = store_inv N s"
  by (simp add: store_inv_def)

lemma farthest_ok_insert:
  assumes "farthest_ok N p m f" and "d = record_distance N p k"
  shows "farthest_ok N p (AList.update k v m)
    (case f of Some (k', d') \<Rightarrow> if d > d' then Some (k, d) else Some (k', d') | None \<Rightarrow> Some (k, d))"
proof (cases f)
  case None
  then show ?thesis using assms by (simp add: farthest_ok_def)
next
  case (Some kd)
  obtain k' d' where kd: "kd = (k', d')" by (cases kd)
  have "\<forall>x \<in> fst ` set m. record_distance N p x \<le> d'" and k': "k' \<in> fst ` set m"
    and d': "d' = record_distance N p k'"
    using assms(1) Some kd by (auto simp: farthest_ok_def)
  then have "\<forall>x \<in> fst ` set m. record_distance N p x \<le> max d d'"
    by (meson max.coboundedI2)
  then show ?thesis
    using assms(2) Some kd k' d' by (auto simp: farthest_ok_def max_def not_less split: if_splits)
qed

lemma store_inv_mark_as_stored:
  assumes "store_inv N s"
  shows "store_inv N (mark_as_stored N s key ty)"
  using assms farthest_ok_insert [of N "local_peer s" "records s" "farthest_record s" _ key
      "(from_record_key key, ty)"]
  by (auto simp: store_inv_def mark_as_stored_def Let_def addresses_ok_update record_distance_def
      split: option.splits)

lemma store_inv_calculate:
  assumes "hmap_inv (records s)" and "addresses_ok (records s)"
  shows "store_inv N (s \<lparr> farthest_record := calculate_farthest N s \<rparr>)"
  using assms calculate_farthest_ok [of N s] by (simp add: store_inv_def)

lemma store_remove_fields [simp]:
  "local_peer (store_remove N Op s key) = local_peer s"
  "store_config (store_remove N Op s key) = store_config s"
  "records (store_remove N Op s key) = AList.delete key (records s)"
  "records_cache (store_remove N Op s key) = filter (\<lambda>r. rec_key r \<noteq> key) (records_cache s)"
  "records_cache_map (store_remove N Op s key) = records_cache_map s"
  "spawned (store_remove N Op s key) = spawned s @ [RemoveRecordFile (generate_filename Op key)]"
  "sent_cmds (store_remove N Op s key) = sent_cmds s"
  "disk (store_remove N Op s key) = disk s"
  "store_cipher (store_remove N Op s key) = store_cipher s"
  "nonce_starter (store_remove N Op s key) = nonce_starter s"
  by (auto simp: store_remove_def Let_def split: option.splits)

lemma store_inv_remove:
  assumes "store_inv N s"
  shows "store_inv N (store_remove N Op s key)"
proof -
  let ?s1 = "s \<lparr> records := AList.delete key (records s),
                 records_cache := filter (\<lambda>r. rec_key r \<noteq> key) (records_cache s) \<rparr>"
  have hm: "hmap_inv (records ?s1)" using assms by (simp add: store_inv_def)
  have ad: "addresses_ok (records ?s1)"
    using assms addresses_ok_subset [OF _ set_delete_subset] by (simp add: store_inv_def)
  show ?thesis
  proof (cases "\<exists>d. farthest_record s = Some (key, d)")
    case True
    then have "store_inv N (store_remove N Op s key)
        \<longleftrightarrow> store_inv N (?s1 \<lparr> farthest_record := calculate_farthest N ?s1 \<rparr>)"
      by (intro store_inv_cong) (auto simp: store_remove_def Let_def)
    then show ?thesis using store_inv_calculate [OF hm ad] by simp
  next
    case False
    then have "store_inv N (store_remove N Op s key) \<longleftrightarrow> store_inv N ?s1"
      by (intro store_inv_cong) (auto simp: store_remove_def Let_def split: option.splits)
    moreover have "farthest_ok N (local_peer ?s1) (records ?s1) (farthest_record ?s1)"
      using assms False by (auto simp: store_inv_def farthest_ok_def split: option.splits)
    ultimately show ?thesis using hm ad by (simp add: store_inv_def)
  qed
qed

lemma store_inv_prune:
  "store_inv N s \<Longrightarrow> store_inv N (fst (prune_records_if_needed N Op s key))"
  by (auto simp: prune_records_if_needed_def store_inv_remove split: option.splits)

lemma cache_fields [simp]:
  "local_peer (cache_push s r) = local_peer s" "records (cache_push s r) = records s"
  "farthest_record (cache_push s r) = farthest_record s" "store_config (cache_push s r) = store_config s"
  "spawned (cache_push s r) = spawned s" "sent_cmds (cache_push s r) = sent_cmds s"
  "local_peer (cache_drop_existing s r) = local_peer s" "records (cache_drop_existing s r) = records s"
  "farthest_record (cache_drop_existing s r) = farthest_record s"
  "store_config (cache_drop_existing s r) = store_config s"
  "spawned (cache_drop_existing s r) = spawned s" "sent_cmds (cache_drop_existing s r) = sent_cmds s"
  by (auto simp: cache_push_def cache_drop_existing_def update_cache_indices_def Let_def
      split: option.splits list.splits)

lemma store_inv_cache [simp]:
  "store_inv N (cache_push (cache_drop_existing s r) r) = store_inv N s"
  by (rule store_inv_cong) simp_all

lemma store_inv_put_verified:
  assumes "store_inv N s"
  shows "store_inv N (fst (put_verified N Op s r ty))"
proof -
  let ?s2 = "cache_push (cache_drop_existing s r) r"
  obtain s3 res where p: "prune_records_if_needed N Op ?s2 (rec_key r) = (s3, res)"
    by (cases "prune_records_if_needed N Op ?s2 (rec_key r)")
  then have "store_inv N s3" using store_inv_prune [of N ?s2 Op "rec_key r"] assms by simp
  then show ?thesis
    using assms p store_inv_cong [of "s3 \<lparr> spawned := spawned s3 @ [WriteRecordFile r ty] \<rparr>" s3 N]
    by (simp add: put_verified_def Let_def split: sum.splits)
qed

lemma store_inv_run_task: "store_inv N s \<Longrightarrow> store_inv N (run_task Op ok t s)"
  by (cases t) (simp_all add: store_inv_def split: option.splits)

lemma store_inv_apply_cmd: "store_inv N s \<Longrightarrow> store_inv N (apply_store_cmd N Op s c)"
  by (cases c) (simp_all add: store_inv_mark_as_stored store_inv_remove)

lemma store_inv_removes: "store_inv N s \<Longrightarrow> store_inv N (foldl (store_remove N Op) s ks)"
  by (induction ks arbitrary: s) (simp_all add: store_inv_remove)

lemma store_inv_retain:
  assumes "store_inv N s" and "s' = s \<lparr> records := hmap_retain p (records s) \<rparr>"
  shows "store_inv N (s' \<lparr> farthest_record := calculate_farthest N s' \<rparr>)"
proof (rule store_inv_calculate)
  show "hmap_inv (records s')" using assms by (simp add: store_inv_def)
  have "set (hmap_retain p (records s)) \<subseteq> set (records s)" by (auto simp: hmap_retain_def)
  then show "addresses_ok (records s')"
    using assms by (auto simp: store_inv_def intro: addresses_ok_subset)
qed

lemma store_inv_cleanup:
  assumes "store_inv N s"
  shows "store_inv N (cleanup_unrelevant_records N Op s)"
proof (cases "responsible_distance_range s")
  case None
  then show ?thesis using assms by (simp add: cleanup_unrelevant_records_def)
next
  case (Some b)
  then show ?thesis
    unfolding cleanup_unrelevant_records_def Let_def
    using assms by (simp add: store_inv_removes store_inv_retain [OF assms refl])
qed

lemma store_inv_flush [simp]: "store_inv N (flush_historic_quoting_metrics s) = store_inv N s"
  by (simp add: flush_historic_quoting_metrics_def store_inv_def)

lemma process_entry_address:
  "process_entry N Op C details e = Some (k, a, ty) \<Longrightarrow> a = from_record_key k"
  by (auto simp: process_entry_def split: prod.splits option.splits sum.splits bool.splits)

lemma store_inv_with_config:
  "store_inv N (with_config N Op C now aes_key starter p cfg files metrics)"
proof -
  let ?es = "List.map_filter (process_entry N Op C (aes_key, starter)) files"
  let ?r = "update_records_from_an_existing_store N Op C (aes_key, starter) files"
  have "hmap_inv ?r" by (simp add: update_records_from_an_existing_store_def fold_update_inv)
  moreover have "addresses_ok ?es"
    by (auto simp: addresses_ok_def map_filter_def dest: process_entry_address)
  then have "addresses_ok ?r"
    using addresses_ok_subset fold_update_set [of ?es "[]"]
    by (auto simp: update_records_from_an_existing_store_def)
  ultimately have inv: "store_inv N (s \<lparr> farthest_record := calculate_farthest N s \<rparr>)"
    if "records s = ?r" for s
    using that by (intro store_inv_calculate) simp_all
  obtain payments started where "case_option (0, now) id metrics = (payments, started)" by fastforce
  then show ?thesis
    unfolding with_config_def Let_def
    by (simp only: prod.case store_inv_flush) (rule inv, simp only: node_record_store.simps)
qed

subsection \<open>Bounded stores as an interface\<close>

text \<open>What the layers above rely on when a store is full: a new item replaces an item of
  largest distance, or is refused when it is farther than all items. The consequence, proved
  once for every such store, is that after any sequence of additions the store holds the
  closest items of all that were offered.\<close>

locale closest_store =
  fixes ks :: "'s \<Rightarrow> 'k set" and add :: "'s \<Rightarrow> 'r \<Rightarrow> 's" and key_of :: "'r \<Rightarrow> 'k"
    and dist :: "'k \<Rightarrow> 'd::linorder" and cap :: nat
    and inv :: "'s \<Rightarrow> bool" and fresh :: "'s \<Rightarrow> 'k \<Rightarrow> bool"
  assumes finite_ks: "inv s \<Longrightarrow> finite (ks s) \<and> card (ks s) \<le> cap"
    and fresh_new: "fresh s k \<Longrightarrow> k \<notin> ks s"
    and add_inv: "inv s \<Longrightarrow> fresh s (key_of r) \<Longrightarrow> inv (add s r)"
    and add_fresh: "inv s \<Longrightarrow> fresh s (key_of r) \<Longrightarrow> fresh s k \<Longrightarrow> k \<noteq> key_of r \<Longrightarrow> fresh (add s r) k"
    and add_room: "inv s \<Longrightarrow> fresh s (key_of r) \<Longrightarrow> card (ks s) < cap \<Longrightarrow>
      ks (add s r) = insert (key_of r) (ks s)"
    and add_far: "inv s \<Longrightarrow> fresh s (key_of r) \<Longrightarrow> card (ks s) = cap \<Longrightarrow>
      (\<forall>k \<in> ks s. dist k < dist (key_of r)) \<Longrightarrow> ks (add s r) = ks s"
    and add_near: "inv s \<Longrightarrow> fresh s (key_of r) \<Longrightarrow> card (ks s) = cap \<Longrightarrow>
      \<not> (\<forall>k \<in> ks s. dist k < dist (key_of r)) \<Longrightarrow>
      \<exists>f \<in> ks s. (\<forall>k \<in> ks s. dist k \<le> dist f) \<and> ks (add s r) = insert (key_of r) (ks s - {f})"
begin

definition closest :: "'k set \<Rightarrow> 'k set \<Rightarrow> bool" where
  "closest K offered \<longleftrightarrow> K \<subseteq> offered \<and> finite offered \<and> card K = min cap (card offered)
     \<and> (\<forall>k \<in> K. \<forall>x \<in> offered - K. dist k \<le> dist x)"

lemma closest_add:
  assumes "closest (ks s) A" and "inv s" and "fresh s (key_of r)" and "key_of r \<notin> A"
  shows "closest (ks (add s r)) (insert (key_of r) A)"
proof (cases "card (ks s) < cap")
  case True
  have fin: "finite (ks s)" using finite_ks [OF assms(2)] by blast
  have "card (ks s) = card A" using True assms(1) by (simp add: closest_def)
  moreover have "ks s \<subseteq> A" and "finite A" using assms(1) by (simp_all add: closest_def)
  ultimately have eq: "ks s = A" by (intro card_subset_eq)
  have "card (insert (key_of r) A) \<le> cap" using True eq fin by (simp add: card_insert_if)
  then show ?thesis
    unfolding add_room [OF assms(2,3) True] eq closest_def using fin eq by simp
next
  case False
  then have full: "card (ks s) = cap" using finite_ks [OF assms(2)] by simp
  have fin: "finite (ks s)" using finite_ks [OF assms(2)] by blast
  have A: "ks s \<subseteq> A" "finite A" "card (ks s) = min cap (card A)"
    "\<forall>k \<in> ks s. \<forall>x \<in> A - ks s. dist k \<le> dist x"
    using assms(1) by (simp_all add: closest_def)
  have le: "cap \<le> card A" using min.cobounded2 [of cap "card A"] full A(3) by linarith
  show ?thesis
  proof (cases "\<forall>k \<in> ks s. dist k < dist (key_of r)")
    case True
    have "dist k \<le> dist x" if "k \<in> ks s" "x \<in> insert (key_of r) A - ks s" for k x
      using that True A(4) by (metis Diff_iff insert_iff less_imp_le)
    moreover have "cap \<le> card (insert (key_of r) A)" using le A(2) by (simp add: card_insert_if)
    ultimately show ?thesis
      unfolding closest_def add_far [OF assms(2,3) full True] using A(1,2) full by auto
  next
    case False
    obtain f where f: "f \<in> ks s" "\<forall>k \<in> ks s. dist k \<le> dist f"
      and ks': "ks (add s r) = insert (key_of r) (ks s - {f})"
      using add_near [OF assms(2,3) full False] by blast
    obtain k where k: "k \<in> ks s" "dist (key_of r) \<le> dist k" using False by (auto simp: not_less)
    have rf: "dist (key_of r) \<le> dist f" using k(2) f(2) k(1) by (blast intro: order.trans)
    have "card (ks s) = Suc (card (ks s - {f}))" by (rule card.remove [OF fin f(1)])
    then have "card (ks (add s r)) = cap"
      unfolding ks' using fin full fresh_new [OF assms(3)] by (simp add: card_insert_if)
    moreover have "dist k \<le> dist x" if "k \<in> ks (add s r)" "x \<in> insert (key_of r) A - ks (add s r)" for k x
    proof -
      have x: "x = f \<or> x \<in> A - ks s" using that(2) ks' by auto
      have kf: "dist k \<le> dist f" using that(1) ks' f(2) rf by auto
      show ?thesis
      proof (cases "x = f")
        case False
        then have "dist f \<le> dist x" using x A(4) f(1) by blast
        then show ?thesis using kf by (rule order.trans [rotated])
      qed (simp add: kf)
    qed
    moreover have "ks (add s r) \<subseteq> insert (key_of r) A" using ks' A(1) by blast
    moreover have "cap \<le> card (insert (key_of r) A)" using le A(2) by (simp add: card_insert_if)
    ultimately show ?thesis
      unfolding closest_def using A(2) by simp
  qed
qed

lemma closest_run:
  assumes "inv s" and "closest (ks s) A" and "distinct (map key_of rs)"
    and "\<forall>r \<in> set rs. fresh s (key_of r) \<and> key_of r \<notin> A"
  shows "closest (ks (foldl add s rs)) (A \<union> key_of ` set rs) \<and> inv (foldl add s rs)"
  using assms
proof (induction rs arbitrary: s A)
  case Nil
  then show ?case by simp
next
  case (Cons r rs)
  have r: "fresh s (key_of r)" "key_of r \<notin> A" using Cons.prems(4) by simp_all
  have "inv (add s r)" by (rule add_inv [OF Cons.prems(1) r(1)])
  moreover have "closest (ks (add s r)) (insert (key_of r) A)"
    by (rule closest_add [OF Cons.prems(2,1) r])
  moreover have "\<forall>x \<in> set rs. fresh (add s r) (key_of x) \<and> key_of x \<notin> insert (key_of r) A"
  proof
    fix x assume x: "x \<in> set rs"
    then have "key_of x \<in> key_of ` set rs" by (rule imageI)
    then have ne: "key_of x \<noteq> key_of r" using Cons.prems(3) by auto
    have "fresh s (key_of x)" and "key_of x \<notin> A" and "fresh s (key_of r)"
      using Cons.prems(4) x by simp_all
    then show "fresh (add s r) (key_of x) \<and> key_of x \<notin> insert (key_of r) A"
      using ne add_fresh [OF Cons.prems(1)] by blast
  qed
  ultimately show ?case
    using Cons.IH [of "add s r" "insert (key_of r) A"] Cons.prems(3) by simp
qed

end

subsection \<open>One put after the other\<close>

text \<open>A put whose tasks have run and whose commands have been handled before the next one.\<close>

definition run_spawned :: "store_ops \<Rightarrow> node_record_store \<Rightarrow> node_record_store" where
  "run_spawned Op s = fold (run_task Op True) (spawned s) (s \<lparr> spawned := [] \<rparr>)"

definition handle_sent :: "net_ops \<Rightarrow> store_ops \<Rightarrow> node_record_store \<Rightarrow> node_record_store" where
  "handle_sent N Op s = foldl (apply_store_cmd N Op) (s \<lparr> sent_cmds := [] \<rparr>) (sent_cmds s)"

definition put_settled ::
    "net_ops \<Rightarrow> store_ops \<Rightarrow> node_record_store \<Rightarrow> kad_record \<times> record_type \<Rightarrow> node_record_store" where
  "put_settled N Op s rt =
     handle_sent N Op (run_spawned Op (fst (put_verified N Op s (fst rt) (snd rt))))"

definition settled :: "net_ops \<Rightarrow> store_ops \<Rightarrow> peer_id \<Rightarrow> nat \<Rightarrow> node_record_store \<Rightarrow> bool" where
  "settled N Op p cap s \<longleftrightarrow> store_inv N s \<and> local_peer s = p \<and> max_records (store_config s) = cap
     \<and> 0 < cap \<and> length (records s) \<le> cap \<and> spawned s = [] \<and> sent_cmds s = []
     \<and> (\<forall>r. prepare_record_bytes Op r (encryption_details s) \<noteq> None)"

definition fresh_key :: "node_record_store \<Rightarrow> record_key \<Rightarrow> bool" where
  "fresh_key s k \<longleftrightarrow> k \<notin> fst ` set (records_cache_map s) \<and> k \<notin> store_keys s"

lemma mark_as_stored_fields [simp]:
  "local_peer (mark_as_stored N s k ty) = local_peer s"
  "store_config (mark_as_stored N s k ty) = store_config s"
  "records (mark_as_stored N s k ty) = AList.update k (from_record_key k, ty) (records s)"
  "records_cache (mark_as_stored N s k ty) = records_cache s"
  "records_cache_map (mark_as_stored N s k ty) = records_cache_map s"
  "spawned (mark_as_stored N s k ty) = spawned s"
  "sent_cmds (mark_as_stored N s k ty) = sent_cmds s"
  "disk (mark_as_stored N s k ty) = disk s"
  "store_cipher (mark_as_stored N s k ty) = store_cipher s"
  "nonce_starter (mark_as_stored N s k ty) = nonce_starter s"
  by (auto simp: mark_as_stored_def Let_def split: option.splits)

lemma cache_cipher [simp]:
  "store_cipher (cache_push s r) = store_cipher s" "nonce_starter (cache_push s r) = nonce_starter s"
  "disk (cache_push s r) = disk s"
  by (auto simp: cache_push_def Let_def split: list.splits)

lemma cache_push_keys:
  "fst ` set (records_cache_map (cache_push s r)) \<subseteq> insert (rec_key r) (fst ` set (records_cache_map s))"
  by (auto simp: cache_push_def Let_def simp flip: image_iff split: list.splits)

lemma fresh_not_cached:
  assumes "fresh_key s (rec_key r)"
  shows "\<not> cache_same_value s r" and "cache_drop_existing s r = s"
proof -
  have "map_of (records_cache_map s) (rec_key r) = None"
    using assms unfolding fresh_key_def map_of_eq_None_iff by simp
  then show "\<not> cache_same_value s r" and "cache_drop_existing s r = s"
    by (simp_all add: cache_same_value_def cache_drop_existing_def)
qed

lemma run_removes:
  "\<exists>dk. fold (run_task Op True) (map RemoveRecordFile fs) s = s \<lparr> disk := dk \<rparr>"
proof (induction fs arbitrary: s)
  case Nil
  show ?case by (intro exI [of _ "disk s"]) simp
next
  case (Cons f fs)
  obtain dk where "fold (run_task Op True) (map RemoveRecordFile fs)
      (s \<lparr> disk := AList.delete f (disk s) \<rparr>) = (s \<lparr> disk := AList.delete f (disk s) \<rparr>) \<lparr> disk := dk \<rparr>"
    using Cons.IH by blast
  then show ?case by auto
qed

lemma settle_write:
  assumes "prepare_record_bytes Op r (encryption_details s) = Some bs" and "sent_cmds s = []"
    and "spawned s = map RemoveRecordFile fs @ [WriteRecordFile r ty]"
  shows "\<exists>dk. handle_sent N Op (run_spawned Op s)
    = mark_as_stored N (s \<lparr> spawned := [], disk := dk, sent_cmds := [] \<rparr>) (rec_key r) ty"
proof -
  obtain dk where "fold (run_task Op True) (map RemoveRecordFile fs) (s \<lparr> spawned := [] \<rparr>)
      = s \<lparr> spawned := [], disk := dk \<rparr>"
    using run_removes [of Op fs "s \<lparr> spawned := [] \<rparr>"] by auto
  then have "run_spawned Op s = s \<lparr> spawned := [], sent_cmds := [AddLocalRecordAsStored (rec_key r) ty],
      disk := AList.update (generate_filename Op (rec_key r)) bs dk \<rparr>"
    using assms by (simp add: run_spawned_def encryption_details_def)
  then show ?thesis
    by (auto simp: handle_sent_def)
qed

text \<open>The state after a settled put of a fresh key: an index \<open>m\<close> that the record was added
  to, or no change of the index when the store is full and the record is too far.\<close>

definition index_after_put ::
    "net_ops \<Rightarrow> node_record_store \<Rightarrow> record_key \<Rightarrow> record_type \<Rightarrow> record_index" where
  "index_after_put N s k ty =
     (let add = AList.update k (from_record_key k, ty) in
      if length (records s) < max_records (store_config s) then add (records s)
      else case farthest_record s of
             Some (f, d) \<Rightarrow> if d < record_distance N (local_peer s) k then records s
                            else add (AList.delete f (records s))
           | None \<Rightarrow> add (records s))"

lemma put_settled_fresh:
  assumes "settled N Op p cap s" and "fresh_key s (rec_key r)"
    and "s' = put_settled N Op s (r, ty)"
  shows "records s' = index_after_put N s (rec_key r) ty \<and> local_peer s' = p
    \<and> store_config s' = store_config s \<and> spawned s' = [] \<and> sent_cmds s' = []
    \<and> encryption_details s' = encryption_details s
    \<and> records_cache_map s' = records_cache_map (cache_push s r)"
proof -
  let ?s2 = "cache_push s r"
  note st = assms(1) [unfolded settled_def]
  note fr = fresh_not_cached [OF assms(2)]
  obtain bs where bs: "prepare_record_bytes Op r (encryption_details s) = Some bs" using st by blast
  obtain s3 res where pr: "prune_records_if_needed N Op ?s2 (rec_key r) = (s3, res)"
    by (cases "prune_records_if_needed N Op ?s2 (rec_key r)")
  show ?thesis
  proof (cases res)
    case (Inl e)
    then have s3: "s3 = ?s2" and m: "index_after_put N s (rec_key r) ty = records s"
      using pr st by (auto simp: prune_records_if_needed_def index_after_put_def
          split: if_splits option.splits)
    then have "s' = ?s2 \<lparr> spawned := [], sent_cmds := [] \<rparr>"
      using assms(3) Inl fr pr st
      by (simp add: put_settled_def put_verified_def run_spawned_def handle_sent_def)
    then show ?thesis using m st by (simp add: encryption_details_def)
  next
    case (Inr u)
    have "\<exists>fs. spawned s3 = map RemoveRecordFile fs"
      using Inr pr st by (auto simp: prune_records_if_needed_def Cons_eq_map_conv
          split: if_splits option.splits)
    then obtain fs where fs: "spawned s3 = map RemoveRecordFile fs" by blast
    have m: "index_after_put N s (rec_key r) ty
        = AList.update (rec_key r) (from_record_key (rec_key r), ty) (records s3)"
      and same: "local_peer s3 = p" "store_config s3 = store_config s" "sent_cmds s3 = []"
        "encryption_details s3 = encryption_details s"
        "records_cache_map s3 = records_cache_map ?s2"
      using Inr pr st
      by (auto simp: prune_records_if_needed_def index_after_put_def encryption_details_def Let_def
          split: if_splits option.splits)
    let ?s4 = "s3 \<lparr> spawned := spawned s3 @ [WriteRecordFile r ty] \<rparr>"
    have "s' = handle_sent N Op (run_spawned Op ?s4)"
      using assms(3) Inr fr pr by (simp add: put_settled_def put_verified_def)
    moreover obtain dk where "handle_sent N Op (run_spawned Op ?s4)
        = mark_as_stored N (?s4 \<lparr> spawned := [], disk := dk, sent_cmds := [] \<rparr>) (rec_key r) ty"
      using settle_write [of Op r ?s4 bs fs ty N] bs fs same by (auto simp: encryption_details_def)
    ultimately show ?thesis using m same by (simp add: encryption_details_def)
  qed
qed

lemma store_inv_settle:
  assumes "store_inv N s"
  shows "store_inv N (run_spawned Op s)" and "store_inv N (handle_sent N Op s)"
proof -
  have "store_inv N (fold (run_task Op True) ts t)" if "store_inv N t" for ts t
    using that by (induction ts arbitrary: t) (simp_all add: store_inv_run_task)
  moreover have "store_inv N (foldl (apply_store_cmd N Op) t cs)" if "store_inv N t" for cs t
    using that by (induction cs arbitrary: t) (simp_all add: store_inv_apply_cmd)
  moreover have "store_inv N (s \<lparr> spawned := [] \<rparr>)" and "store_inv N (s \<lparr> sent_cmds := [] \<rparr>)"
    using assms by (simp_all add: store_inv_def)
  ultimately show "store_inv N (run_spawned Op s)" and "store_inv N (handle_sent N Op s)"
    by (simp_all add: run_spawned_def handle_sent_def)
qed

lemma card_store_keys: "store_inv N s \<Longrightarrow> card (store_keys s) = length (records s)"
  unfolding store_keys_def store_inv_def hmap_inv_def
  by (metis distinct_card length_map list.set_map)

lemma index_after_put_room:
  assumes "length (records s) < max_records (store_config s)"
  shows "fst ` set (index_after_put N s k ty) = insert k (store_keys s)"
  using assms by (simp add: index_after_put_def store_keys_def)

lemma index_after_put_full:
  assumes "store_inv N s" and "max_records (store_config s) \<le> length (records s)"
    and "0 < max_records (store_config s)"
  obtains f where "f \<in> store_keys s"
    and "\<forall>x \<in> store_keys s. record_distance N (local_peer s) x \<le> record_distance N (local_peer s) f"
    and "index_after_put N s k ty =
      (if record_distance N (local_peer s) f < record_distance N (local_peer s) k then records s
       else AList.update k (from_record_key k, ty) (AList.delete f (records s)))"
proof -
  have "records s \<noteq> []" using assms(2,3) by auto
  then obtain f where "farthest_record s = Some (f, record_distance N (local_peer s) f)"
    and "f \<in> fst ` set (records s)"
    and "\<forall>x \<in> fst ` set (records s). record_distance N (local_peer s) x \<le> record_distance N (local_peer s) f"
    using assms(1) by (auto simp: store_inv_def farthest_ok_def split: option.splits)
  then show ?thesis
    using that [of f] assms(2) by (simp add: index_after_put_def store_keys_def)
qed

lemma fresh_key_after_put:
  assumes "settled N Op p cap s" and "fresh_key s (rec_key r)" and "fresh_key s k" and "k \<noteq> rec_key r"
  shows "fresh_key (put_settled N Op s (r, ty)) k"
proof -
  note f = put_settled_fresh [OF assms(1,2) refl, of ty]
  have "fst ` set (index_after_put N s (rec_key r) ty) \<subseteq> insert (rec_key r) (store_keys s)"
    by (auto simp: index_after_put_def store_keys_def Let_def simp flip: image_iff split: option.splits)
  then show ?thesis
    using f assms(3,4) cache_push_keys [of s r] by (auto simp: fresh_key_def store_keys_def)
qed

lemma settled_put:
  assumes "settled N Op p cap s" and "fresh_key s (rec_key r)"
  shows "settled N Op p cap (put_settled N Op s (r, ty))"
proof -
  note f = put_settled_fresh [OF assms refl, of ty]
  note st = assms(1) [unfolded settled_def]
  have inv: "store_inv N (put_settled N Op s (r, ty))"
    using st by (simp add: put_settled_def store_inv_settle store_inv_put_verified)
  have "length (index_after_put N s (rec_key r) ty) \<le> cap"
  proof (cases "length (records s) < cap")
    case True
    then show ?thesis using st by (simp add: index_after_put_def hmap_update_length)
  next
    case False
    obtain g where "g \<in> store_keys s"
      and g: "index_after_put N s (rec_key r) ty \<in> {records s,
        AList.update (rec_key r) (from_record_key (rec_key r), ty) (AList.delete g (records s))}"
      using index_after_put_full [of N s "rec_key r" ty] st False by (metis insert_iff not_less)
    then have "length (AList.delete g (records s)) < length (records s)"
      by (intro delete_length) (simp add: store_keys_def)
    then show ?thesis using g st False by (auto simp: hmap_update_length split: if_splits)
  qed
  then show ?thesis using f inv st by (simp add: settled_def)
qed

interpretation node_store: closest_store store_keys "put_settled N Op" "\<lambda>rt. rec_key (fst rt)"
    "record_distance N p" cap "settled N Op p cap" fresh_key for N Op p cap
proof unfold_locales
  fix s :: node_record_store and rt :: "kad_record \<times> record_type"
  obtain r ty where rt: "rt = (r, ty)" by (cases rt)
  assume st: "settled N Op p cap s"
  have card: "card (store_keys s) = length (records s)" and fin: "finite (store_keys s)"
    using st card_store_keys [of N s] by (simp_all add: settled_def store_keys_def)
  then show "finite (store_keys s) \<and> card (store_keys s) \<le> cap"
    using st by (simp add: settled_def)
  assume fr: "fresh_key s (rec_key (fst rt))"
  show "settled N Op p cap (put_settled N Op s rt)"
    using st fr rt settled_put by simp
  show "fresh_key (put_settled N Op s rt) k" if "fresh_key s k" "k \<noteq> rec_key (fst rt)" for k
    using that st fr rt fresh_key_after_put by simp
  have ks: "store_keys (put_settled N Op s rt) = fst ` set (index_after_put N s (rec_key r) ty)"
    using put_settled_fresh [OF st _ refl, of r ty] fr rt by (simp add: store_keys_def)
  show "store_keys (put_settled N Op s rt) = insert (rec_key (fst rt)) (store_keys s)"
    if "card (store_keys s) < cap"
    using that st card ks rt by (simp add: index_after_put_room settled_def)
  have full: "\<exists>f \<in> store_keys s.
      (\<forall>x \<in> store_keys s. record_distance N p x \<le> record_distance N p f)
      \<and> index_after_put N s (rec_key r) ty =
      (if record_distance N p f < record_distance N p (rec_key r) then records s
       else AList.update (rec_key r) (from_record_key (rec_key r), ty) (AList.delete f (records s)))"
    if "card (store_keys s) = cap"
    using that st card index_after_put_full [of N s "rec_key r" ty]
    unfolding settled_def by (metis le_refl)
  show "store_keys (put_settled N Op s rt) = store_keys s"
    if "card (store_keys s) = cap"
      "\<forall>k \<in> store_keys s. record_distance N p k < record_distance N p (rec_key (fst rt))"
    using full [OF that(1)] that(2) ks rt by (auto simp: store_keys_def)
  show "\<exists>f \<in> store_keys s.
      (\<forall>k \<in> store_keys s. record_distance N p k \<le> record_distance N p f)
      \<and> store_keys (put_settled N Op s rt) = insert (rec_key (fst rt)) (store_keys s - {f})"
    if c: "card (store_keys s) = cap"
      and near: "\<not> (\<forall>k \<in> store_keys s. record_distance N p k < record_distance N p (rec_key (fst rt)))"
  proof -
    obtain f where f: "f \<in> store_keys s"
      "\<forall>x \<in> store_keys s. record_distance N p x \<le> record_distance N p f"
      "index_after_put N s (rec_key r) ty =
        (if record_distance N p f < record_distance N p (rec_key r) then records s
         else AList.update (rec_key r) (from_record_key (rec_key r), ty) (AList.delete f (records s)))"
      using full [OF c] by blast
    have "\<not> record_distance N p f < record_distance N p (rec_key r)"
      using near f(2) rt by (auto intro: le_less_trans)
    then show ?thesis using f ks rt by (intro bexI [of _ f]) (simp_all add: store_keys_def)
  qed
qed (simp add: fresh_key_def)


subsection \<open>An example store\<close>

definition example_store_ops :: store_ops where
  "example_store_ops = \<lparr> hex_encode = map (\<lambda>b. char_of (unat b)), 
     hex_decode = \<lambda>f. Some (map (\<lambda>c. of_nat (of_char c)) f),
     aes_encrypt = \<lambda>_ _ bs. Some bs, aes_decrypt = \<lambda>_ _ bs. Some bs, encrypt_records = False \<rparr>"

definition example_store :: "nat \<Rightarrow> nat \<Rightarrow> node_record_store" where
  "example_store cap cache_size = \<lparr> local_peer = [0],
     store_config = \<lparr> max_records = cap, max_value_bytes = MAX_PACKET_SIZE,
       records_cache_size = cache_size \<rparr>,
     records = [], records_cache = [], records_cache_map = [], responsible_distance_range = None,
     received_payment_count = 0, store_cipher = [], nonce_starter = [], store_timestamp = 0,
     farthest_record = None, disk = [], quoting_file = None, spawned = [], sent_cmds = [],
     unverified_events = [] \<rparr>"

lemma example_store_inv: "store_inv N (example_store cap c)"
  by (simp add: store_inv_def example_store_def addresses_ok_def farthest_ok_def)


subsection \<open>Quoting\<close>

lemma sigmoid_mono: "mono positive_input_0_1_sigmoid"
proof (rule monoI)
  fix x y :: real
  assume "x \<le> y"
  then have "exp (- 30 * (y - 1 / 2)) \<le> exp (- 30 * (x - 1 / 2))" by simp
  moreover have "0 < 1 + exp (- 30 * (y - 1 / 2))" by (intro add_pos_pos zero_less_one exp_gt_zero)
  ultimately show "positive_input_0_1_sigmoid x \<le> positive_input_0_1_sigmoid y"
    unfolding positive_input_0_1_sigmoid_def by (intro frac_le) simp_all
qed

lemma cost_mono: "mono calculate_cost_for_records"
proof (rule monoI)
  fix m n :: nat
  assume "m \<le> n"
  then have "real m / real MAX_RECORDS_COUNT \<le> real n / real MAX_RECORDS_COUNT"
    by (simp add: divide_right_mono)
  then have "positive_input_0_1_sigmoid (real m / real MAX_RECORDS_COUNT)
      \<le> positive_input_0_1_sigmoid (real n / real MAX_RECORDS_COUNT)"
    by (rule monoD [OF sigmoid_mono])
  then have "positive_input_0_1_sigmoid (real m / real MAX_RECORDS_COUNT) * real MAX_STORE_COST
      \<le> positive_input_0_1_sigmoid (real n / real MAX_RECORDS_COUNT) * real MAX_STORE_COST"
    by (rule mult_right_mono) simp
  then show "calculate_cost_for_records m \<le> calculate_cost_for_records n"
    unfolding calculate_cost_for_records_def Let_def
    by (intro min.mono max.mono nat_mono floor_mono order_refl)
qed

lemma cost_range: "1 \<le> calculate_cost_for_records n \<and> calculate_cost_for_records n \<le> 1000000"
  by (simp add: calculate_cost_for_records_def Let_def MAX_STORE_COST_def MIN_STORE_COST_def)


subsection \<open>Records that arrive from the network\<close>

text \<open>A record that arrives from the network is passed on to validation exactly when it is
  below the size limit, its header parses, and it carries a chunk or register payment, or the
  store does not hold it as a chunk or with the same content. The index never changes, and only
  an oversized record is an error.\<close>

theorem store_put_forwards_iff:
  "store_put N C s r =
     (s \<lparr> unverified_events := unverified_events s @
        (if length (rec_value r) < max_value_bytes (store_config s)
            \<and> (header_from_record C r \<in> {Ok KChunkWithPayment, Ok KRegisterWithPayment}
               \<or> is_ok (header_from_record C r)
                  \<and> \<not> (\<exists>a. map_of (records s) (rec_key r)
                       \<in> {Some (a, ChunkType), Some (a, NonChunkType (xor_from_content N (rec_value r)))}))
         then [r] else []) \<rparr>,
      if length (rec_value r) < max_value_bytes (store_config s) then Ok () else Err ValueTooLarge)"
  by (auto simp: store_put_def Let_def is_ok_iff split: sum.splits option.splits record_type.splits)

subsection \<open>The cache\<close>

text \<open>The map holds the position of every record of the cache, and nothing else.\<close>

definition cache_coherent :: "node_record_store \<Rightarrow> bool" where
  "cache_coherent s \<longleftrightarrow>
     (\<forall>k i. map_of (records_cache_map s) k = Some i
        \<longleftrightarrow> i < length (records_cache s) \<and> rec_key (records_cache s ! i) = k)"

lemma cache_coherent_unique:
  assumes "cache_coherent s" and "i < length (records_cache s)" and "j < length (records_cache s)"
    and "rec_key (records_cache s ! i) = rec_key (records_cache s ! j)"
  shows "i = j"
  using assms unfolding cache_coherent_def by (metis option.inject)

lemma map_of_fold_update:
  assumes "inj_on g (set is)"
  shows "map_of (fold (\<lambda>i. AList.update (g i) i) is m) k = Some i \<longleftrightarrow>
    (i \<in> set is \<and> g i = k) \<or> (k \<notin> g ` set is \<and> map_of m k = Some i)"
  using assms
proof (induction "is" arbitrary: m)
  case Nil
  then show ?case by simp
next
  case (Cons j js)
  have "inj_on g (set js)" using Cons.prems by simp
  then have "map_of (fold (\<lambda>i. AList.update (g i) i) js (AList.update (g j) j m)) k = Some i \<longleftrightarrow>
      (i \<in> set js \<and> g i = k) \<or> (k \<notin> g ` set js \<and> map_of (AList.update (g j) j m) k = Some i)"
    by (rule Cons.IH)
  moreover have "g j \<notin> g ` set js \<or> j \<in> set js" using Cons.prems by auto
  ultimately show ?case
    using Cons.prems by (auto simp: update_conv image_iff split: if_splits)
qed

lemma remove_at_nth:
  "i < length xs \<Longrightarrow> j < length xs - 1 \<Longrightarrow> remove_at i xs ! j = (if j < i then xs ! j else xs ! Suc j)"
  by (auto simp: remove_at_def nth_append min_def)

lemma remove_at_length: "i < length xs \<Longrightarrow> length (remove_at i xs) = length xs - 1"
  by (simp add: remove_at_def)

lemma find_remove_at:
  "i < length xs \<Longrightarrow> \<not> P (xs ! i) \<Longrightarrow> find P (remove_at i xs) = find P xs"
proof (induction xs arbitrary: i)
  case (Cons x xs)
  then show ?case by (cases i) (auto simp: remove_at_def)
qed simp

lemma find_append: "find P (xs @ ys) = (case find P xs of Some x \<Rightarrow> Some x | None \<Rightarrow> find P ys)"
  by (induction xs) simp_all

text \<open>A cache without an entry of a key whose map is right for all other keys.\<close>

definition cache_without :: "record_key \<Rightarrow> node_record_store \<Rightarrow> bool" where
  "cache_without key s \<longleftrightarrow>
     (\<forall>x \<in> set (records_cache s). rec_key x \<noteq> key)
     \<and> (\<forall>k j. k \<noteq> key \<longrightarrow> (map_of (records_cache_map s) k = Some j \<longleftrightarrow>
          j < length (records_cache s) \<and> rec_key (records_cache s ! j) = k))"

lemma cache_without_none:
  assumes "cache_coherent s" and "map_of (records_cache_map s) key = None"
  shows "cache_without key s"
proof -
  have "\<forall>x \<in> set (records_cache s). rec_key x \<noteq> key"
    using assms unfolding cache_coherent_def by (metis in_set_conv_nth option.distinct(1))
  then show ?thesis
    using assms(1) by (simp add: cache_coherent_def cache_without_def)
qed

lemma cache_without_remove:
  assumes "cache_coherent s" and "map_of (records_cache_map s) key = Some i"
    and "s1 = update_cache_indices i (s \<lparr> records_cache := remove_at i (records_cache s) \<rparr>)"
  shows "cache_without key s1"
proof -
  let ?xs = "records_cache s" and ?ys = "remove_at i (records_cache s)"
  let ?key = "\<lambda>j. rec_key (?ys ! j)"
  define f where "f j = (if j < i then j else Suc j)" for j
  have uniq: "a = b" if "a < length ?xs" "b < length ?xs" "rec_key (?xs ! a) = rec_key (?xs ! b)" for a b
    using cache_coherent_unique [OF assms(1)] that by blast
  have co: "map_of (records_cache_map s) x = Some j \<longleftrightarrow> j < length ?xs \<and> rec_key (?xs ! j) = x" for x j
    using assms(1) by (simp add: cache_coherent_def)
  have i: "i < length ?xs" "rec_key (?xs ! i) = key" using assms(2) co by auto
  have len: "length ?xs = Suc (length ?ys)" using i(1) by (simp add: remove_at_length)
  have f: "f j < length ?xs" "f j \<noteq> i" "?ys ! j = ?xs ! f j" if "j < length ?ys" for j
    using that i(1) len by (simp_all add: f_def remove_at_nth)
  have same: "j = j'" if "j < length ?ys" "j' < length ?ys" "?key j = ?key j'" for j j'
  proof -
    have "f j = f j'" using uniq f that by metis
    then show ?thesis by (auto simp: f_def split: if_splits)
  qed
  have neq: "?key j \<noteq> key" if "j < length ?ys" for j
    using f [OF that] i uniq by metis
  have old: "j < length ?ys \<and> ?key j = k" if "j < i" "rec_key (?xs ! j) = k" for j k
    using that i(1) len f(3) [of j] by (simp add: f_def)
  have shift: "j - 1 < length ?ys \<and> i \<le> j - 1 \<and> ?key (j - 1) = k"
    if "i < j" "j < length ?xs" "rec_key (?xs ! j) = k" for j k
    using that len f(3) [of "j - 1"] by (auto simp: f_def)
  have map: "map_of (records_cache_map s1) k = Some j \<longleftrightarrow>
      (i \<le> j \<and> j < length ?ys \<and> ?key j = k)
      \<or> (k \<notin> ?key ` set [i..<length ?ys] \<and> j < length ?xs \<and> rec_key (?xs ! j) = k)" for k j
  proof -
    have "inj_on ?key (set [i..<length ?ys])" using same by (auto intro: inj_onI)
    from map_of_fold_update [OF this, of "records_cache_map s" k j]
    show ?thesis using assms(3) co [of k j] by (simp add: update_cache_indices_def)
  qed
  have "map_of (records_cache_map s1) k = Some j \<longleftrightarrow> j < length ?ys \<and> ?key j = k"
    if ne: "k \<noteq> key" for k j
  proof
    assume l: "map_of (records_cache_map s1) k = Some j"
    show "j < length ?ys \<and> ?key j = k"
    proof (cases "i \<le> j \<and> j < length ?ys \<and> ?key j = k")
      case False
      then have j: "k \<notin> ?key ` set [i..<length ?ys]" "j < length ?xs" "rec_key (?xs ! j) = k"
        using l map by blast+
      have "j \<noteq> i" using j(3) ne i(2) by auto
      moreover have "\<not> i < j" using shift [of j k] j by force
      ultimately show ?thesis using old j(3) by simp
    qed simp
  next
    assume r: "j < length ?ys \<and> ?key j = k"
    show "map_of (records_cache_map s1) k = Some j"
    proof (cases "i \<le> j")
      case False
      have "k \<notin> ?key ` set [i..<length ?ys]"
      proof
        assume "k \<in> ?key ` set [i..<length ?ys]"
        then obtain j' where "i \<le> j'" "j' < length ?ys" "?key j' = k" by auto
        then show False using same [of j j'] r False by simp
      qed
      then show ?thesis
        using False r f [of j] map [of k j] by (simp add: f_def)
    qed (use r map in simp)
  qed
  moreover have "\<forall>x \<in> set ?ys. rec_key x \<noteq> key" using neq by (metis in_set_conv_nth)
  moreover have "records_cache s1 = ?ys" using assms(3) by (simp add: update_cache_indices_def)
  ultimately show ?thesis by (simp add: cache_without_def)
qed

lemma cache_drop_without:
  "cache_coherent s \<Longrightarrow> cache_without (rec_key r) (cache_drop_existing s r)"
  by (auto simp: cache_drop_existing_def cache_without_none intro: cache_without_remove [OF _ _ refl]
      split: option.splits)

lemma cache_push_finds:
  assumes "cache_without (rec_key r) s"
  shows "find (\<lambda>x. rec_key x = rec_key r) (records_cache (cache_push s r)) = Some r"
proof -
  have none: "find (\<lambda>x. rec_key x = rec_key r) (records_cache s) = None"
    "find (\<lambda>x. rec_key x = rec_key r) (tl (records_cache s)) = None"
    using assms by (cases "records_cache s"; auto simp: cache_without_def find_None_iff)+
  then show ?thesis
    by (auto simp: cache_push_def Let_def find_append split: list.splits)
qed

lemma cache_push_coherent:
  assumes "cache_without (rec_key r) s"
    and "length (records_cache s) < records_cache_size (store_config s)"
  shows "cache_coherent (cache_push s r)"
proof -
  have "rec_key (records_cache s ! j) \<noteq> rec_key r" if "j < length (records_cache s)" for j
    using assms(1) that by (simp add: cache_without_def)
  then show ?thesis
    using assms by (auto simp: cache_coherent_def cache_without_def cache_push_def Let_def
        update_conv nth_append less_Suc_eq)
qed

lemma find_cache_drop:
  assumes "cache_coherent s" and "k \<noteq> rec_key r"
  shows "find (\<lambda>x. rec_key x = k) (records_cache (cache_drop_existing s r))
    = find (\<lambda>x. rec_key x = k) (records_cache s)"
  using assms find_remove_at [of _ "records_cache s" "\<lambda>x. rec_key x = k"]
  by (auto simp: cache_drop_existing_def update_cache_indices_def cache_coherent_def
      split: option.splits)

lemma cache_drop_length: "length (records_cache (cache_drop_existing s r)) \<le> length (records_cache s)"
  by (auto simp: cache_drop_existing_def update_cache_indices_def remove_at_def split: option.splits)

lemma cache_same_value_finds:
  assumes "cache_coherent s" and "cache_same_value s r"
  shows "map_option rec_value (find (\<lambda>x. rec_key x = rec_key r) (records_cache s)) = Some (rec_value r)"
proof -
  obtain i where i: "i < length (records_cache s)" "rec_key (records_cache s ! i) = rec_key r"
    "rec_value (records_cache s ! i) = rec_value r"
    using assms by (auto simp: cache_coherent_def cache_same_value_def split: option.splits)
  then obtain x where x: "find (\<lambda>x. rec_key x = rec_key r) (records_cache s) = Some x"
    by (metis (mono_tags, lifting) find_None_iff2 not_None_eq nth_mem)
  then obtain j where "j < length (records_cache s)" "records_cache s ! j = x" "rec_key x = rec_key r"
    by (auto simp: find_Some_iff)
  then have "x = records_cache s ! i" using i cache_coherent_unique [OF assms(1)] by metis
  then show ?thesis using i x by simp
qed

text \<open>The effect of one put on what \<open>get\<close> finds, with room in the cache and in the store.\<close>

lemma put_verified_cache:
  assumes "cache_coherent s" and "length (records_cache s) < records_cache_size (store_config s)"
    and "length (records s) < max_records (store_config s)"
    and "s' = fst (put_verified N Op s r ty)"
  shows "cache_coherent s' \<and> records s' = records s \<and> store_config s' = store_config s
     \<and> disk s' = disk s \<and> encryption_details s' = encryption_details s
     \<and> length (records_cache s') \<le> Suc (length (records_cache s))
     \<and> map_option rec_value (find (\<lambda>x. rec_key x = k) (records_cache s'))
       = (if k = rec_key r then Some (rec_value r)
          else map_option rec_value (find (\<lambda>x. rec_key x = k) (records_cache s)))"
proof (cases "cache_same_value s r")
  case True
  then have "s' = s" using assms(4) by (simp add: put_verified_def)
  then show ?thesis using assms(1) cache_same_value_finds [OF assms(1) True] by simp
next
  case False
  let ?s1 = "cache_drop_existing s r" and ?s2 = "cache_push (cache_drop_existing s r) r"
  have w: "cache_without (rec_key r) ?s1" by (rule cache_drop_without [OF assms(1)])
  have room: "length (records_cache ?s1) < records_cache_size (store_config ?s1)"
    using assms(2) cache_drop_length [of s r] by simp
  have s': "s' = ?s2 \<lparr> spawned := spawned ?s2 @ [WriteRecordFile r ty] \<rparr>"
    using False assms(3,4) by (simp add: put_verified_def prune_records_if_needed_def Let_def)
  have "cache_coherent ?s2" by (rule cache_push_coherent [OF w room])
  moreover have "records_cache ?s2 = records_cache ?s1 @ [r]"
    using room by (simp add: cache_push_def Let_def)
  moreover have "disk ?s1 = disk s" "encryption_details ?s1 = encryption_details s"
    by (auto simp: cache_drop_existing_def update_cache_indices_def encryption_details_def
        split: option.splits)
  ultimately show ?thesis
    using s' cache_push_finds [OF w] find_cache_drop [OF assms(1), of k r] cache_drop_length [of s r]
    by (auto simp: cache_coherent_def encryption_details_def find_append split: option.splits)
qed

lemma puts_cache:
  assumes "records_cache s = []" and "records_cache_map s = []"
    and "length rs \<le> records_cache_size (store_config s)"
    and "length (records s) < max_records (store_config s)"
    and "s' = foldl (\<lambda>s (r, ty). fst (put_verified N Op s r ty)) s rs"
  shows "cache_coherent s' \<and> records s' = records s \<and> store_config s' = store_config s
     \<and> disk s' = disk s \<and> encryption_details s' = encryption_details s
     \<and> length (records_cache s') \<le> length rs
     \<and> map_option rec_value (find (\<lambda>x. rec_key x = k) (records_cache s'))
       = map_option (\<lambda>rt. rec_value (fst rt)) (find (\<lambda>rt. rec_key (fst rt) = k) (rev rs))"
  using assms(3,5)
proof (induction rs arbitrary: s' rule: rev_induct)
  case Nil
  then show ?case using assms(1,2) by (simp add: cache_coherent_def)
next
  case (snoc rt rs)
  obtain r ty where rt: "rt = (r, ty)" by (cases rt)
  define s1 where "s1 = foldl (\<lambda>s (r, ty). fst (put_verified N Op s r ty)) s rs"
  note IH = snoc.IH [OF _ s1_def]
  have len: "length rs < records_cache_size (store_config s)" using snoc.prems by simp
  then have s1: "cache_coherent s1" "records s1 = records s" "store_config s1 = store_config s"
    "length (records_cache s1) \<le> length rs" using IH by simp_all
  have "s' = fst (put_verified N Op s1 r ty)" using snoc.prems rt s1_def by simp
  from put_verified_cache [OF s1(1) _ _ this, of k] show ?case
    using IH len s1 rt assms(4) by auto
qed



text \<open>Once the cache overflows the positions in the map are wrong. With a cache of two
  records, after the first eviction an update removes another record than the one it replaces,
  and \<open>get\<close> returns the value from before the update.\<close>

theorem get_returns_stale_value:
  "map_option rec_value (store_get example_store_ops
     (foldl (\<lambda>s (r, ty). fst (put_verified example_net example_store_ops s r ty)) (example_store 9 2)
       [(\<lparr> rec_key = [1], rec_value = [1] \<rparr>, ChunkType), (\<lparr> rec_key = [2], rec_value = [2] \<rparr>, ChunkType),
        (\<lparr> rec_key = [3], rec_value = [3] \<rparr>, ChunkType), (\<lparr> rec_key = [2], rec_value = [4] \<rparr>, ChunkType)])
     [2]) = Some [2]"
  by (simp add: example_store_def put_verified_def cache_same_value_def cache_drop_existing_def
      cache_push_def update_cache_indices_def remove_at_def prune_records_if_needed_def store_get_def Let_def)

text \<open>A record that is refused because the store is full stays in the cache. A second put
  of the same record reports success, although it is not stored and nothing will write it.\<close>

theorem refused_record_reported_stored:
  assumes "put_verified N Op s r ty = (s1, Err MaxRecords)" and "\<not> store_contains s (rec_key r)"
  shows "put_verified N Op s1 r ty = (s1, Ok ()) \<and> \<not> store_contains s1 (rec_key r)
     \<and> spawned s1 = spawned s"
proof -
  have s1: "s1 = cache_push (cache_drop_existing s r) r"
    using assms(1) by (auto simp: put_verified_def prune_records_if_needed_def Let_def
        split: if_splits option.splits)
  moreover have "cache_same_value (cache_push s2 r) r" for s2
    by (auto simp: cache_push_def cache_same_value_def Let_def update_conv nth_append split: list.splits)
  ultimately show ?thesis
    using assms(2) by (simp add: put_verified_def store_contains_def)
qed

theorem refused_record_reported_stored_witness:
  "put_verified example_net example_store_ops
     (fst (put_verified example_net example_store_ops
        ((example_store 1 2) \<lparr> records := [([1], from_record_key [1], ChunkType)],
           farthest_record := Some ([1], 0) \<rparr>) \<lparr> rec_key = [2], rec_value = [3] \<rparr> ChunkType))
     \<lparr> rec_key = [2], rec_value = [3] \<rparr> ChunkType
   = (fst (put_verified example_net example_store_ops
        ((example_store 1 2) \<lparr> records := [([1], from_record_key [1], ChunkType)],
           farthest_record := Some ([1], 0) \<rparr>) \<lparr> rec_key = [2], rec_value = [3] \<rparr> ChunkType), Ok ())"
proof -
  let ?s = "(example_store 1 2) \<lparr> records := [([1], from_record_key [1], ChunkType)],
      farthest_record := Some ([1], 0) \<rparr>"
  let ?r = "\<lparr> rec_key = [2], rec_value = [3] \<rparr> :: kad_record"
  have "put_verified example_net example_store_ops ?s ?r ChunkType
      = (fst (put_verified example_net example_store_ops ?s ?r ChunkType), Err MaxRecords)"
    by (simp add: example_store_def put_verified_def cache_same_value_def cache_drop_existing_def
        cache_push_def prune_records_if_needed_def Let_def record_distance_def addr_distance_def
        as_kbucket_key_def from_peer_def from_record_key_def example_net_def)
  from refused_record_reported_stored [OF this]
  show ?thesis by (simp add: store_contains_def hmap_contains_def)
qed

text \<open>C40: an update of the farthest record of a full store prunes the record it updates: the
  file's removal and its writing are spawned together. When the removal runs last, the record is
  in the index, but neither in the cache nor on disk.\<close>

theorem update_of_farthest_can_lose_record:
  assumes "max_records (store_config s) \<le> length (records s)"
    and "farthest_record s = Some (rec_key r, record_distance N (local_peer s) (rec_key r))"
    and "\<not> cache_same_value s r" and "\<not> encrypt_records Op"
    and "put_verified N Op s r ty = (s1, res)"
    and "remove = RemoveRecordFile (generate_filename Op (rec_key r))"
    and "s2 = mark_as_stored N (run_task Op True remove (run_task Op True (WriteRecordFile r ty) s1))
           (rec_key r) ty"
  shows "res = Ok () \<and> spawned s1 = spawned s @ [remove, WriteRecordFile r ty]
     \<and> store_contains s2 (rec_key r) \<and> store_get Op s2 (rec_key r) = None"
proof -
  let ?s2 = "cache_push (cache_drop_existing s r) r"
  have s1: "s1 = (store_remove N Op ?s2 (rec_key r))
        \<lparr> spawned := spawned s @ [remove, WriteRecordFile r ty] \<rparr>" and "res = Ok ()"
    using assms(1-3,5,6) by (auto simp: put_verified_def prune_records_if_needed_def Let_def)
  moreover have "find (\<lambda>x. rec_key x = rec_key r) (filter (\<lambda>x. rec_key x \<noteq> rec_key r) xs) = None"
    for xs :: "kad_record list"
    by (simp add: find_None_iff)
  ultimately show ?thesis
    using assms(4,6,7)
    by (simp add: store_contains_def hmap_contains_def update_conv store_get_def read_from_disk_def
        prepare_record_bytes_def delete_conv)
qed

text \<open>An update of a record of a full store, other than the farthest, drops the farthest
  record although the number of records does not grow.\<close>

theorem update_when_full_drops_farthest:
  assumes "store_inv N s" and "max_records (store_config s) \<le> length (records s)"
    and "farthest_record s = Some (f, d)" and "f \<noteq> rec_key r" and "store_contains s (rec_key r)"
    and "\<not> cache_same_value s r" and "put_verified N Op s r ty = (s1, res)"
  shows "res = Ok () \<and> \<not> store_contains s1 f \<and> length (records s1) < length (records s)"
proof -
  have k: "rec_key r \<in> fst ` set (records s)"
    using assms(5) by (simp add: store_contains_def hmap_contains_iff)
  then have f: "f \<in> fst ` set (records s)" and "\<not> d < record_distance N (local_peer s) (rec_key r)"
    using assms(1,3) by (auto simp: store_inv_def farthest_ok_def not_less)
  then have "res = Ok ()" and "records s1 = AList.delete f (records s)"
    using assms(2,3,6,7) by (auto simp: put_verified_def prune_records_if_needed_def Let_def)
  then show ?thesis
    using delete_length [OF f] by (simp add: store_contains_def hmap_contains_iff)
qed

definition full_store :: node_record_store where
  "full_store = (example_store 2 2)
     \<lparr> records := [([1], from_record_key [1], ScratchpadType), ([2], from_record_key [2], ScratchpadType)],
       farthest_record := Some ([1], 3) \<rparr>"

lemma full_store_eval:
  "record_distance example_net [0] [1] = 3" "record_distance example_net [0] [2] = 2"
  by (simp_all add: record_distance_def addr_distance_def as_kbucket_key_def from_peer_def
      from_record_key_def example_net_def)

lemma full_store_inv: "store_inv example_net full_store"
  by (simp add: full_store_def example_store_def store_inv_def hmap_inv_def addresses_ok_def
      farthest_ok_def full_store_eval)

theorem update_of_farthest_can_lose_record_witness:
  "store_get example_store_ops
     (mark_as_stored example_net
       (run_task example_store_ops True (RemoveRecordFile (generate_filename example_store_ops [1]))
         (run_task example_store_ops True
           (WriteRecordFile \<lparr> rec_key = [1], rec_value = [9] \<rparr> ScratchpadType)
           (fst (put_verified example_net example_store_ops full_store
                   \<lparr> rec_key = [1], rec_value = [9] \<rparr> ScratchpadType)))) [1] ScratchpadType) [1] = None"
proof -
  let ?r = "\<lparr> rec_key = [1], rec_value = [9] \<rparr> :: kad_record"
  have "max_records (store_config full_store) \<le> length (records full_store)"
    and "farthest_record full_store
      = Some (rec_key ?r, record_distance example_net (local_peer full_store) (rec_key ?r))"
    and "\<not> cache_same_value full_store ?r" and "\<not> encrypt_records example_store_ops"
    by (simp_all add: full_store_def example_store_def full_store_eval cache_same_value_def
        example_store_ops_def)
  from update_of_farthest_can_lose_record [OF this prod.collapse [symmetric] refl refl]
  show ?thesis by simp
qed

theorem update_when_full_drops_farthest_witness:
  "\<not> store_contains (fst (put_verified example_net example_store_ops full_store
       \<lparr> rec_key = [2], rec_value = [9] \<rparr> ScratchpadType)) [1]"
proof -
  let ?r = "\<lparr> rec_key = [2], rec_value = [9] \<rparr> :: kad_record"
  have "max_records (store_config full_store) \<le> length (records full_store)"
    and "farthest_record full_store = Some ([1], 3)" and "[1] \<noteq> rec_key ?r"
    and "store_contains full_store (rec_key ?r)" and "\<not> cache_same_value full_store ?r"
    by (simp_all add: full_store_def example_store_def cache_same_value_def store_contains_def
        hmap_contains_def)
  from update_when_full_drops_farthest [OF full_store_inv this prod.collapse [symmetric]]
  show ?thesis by blast
qed

subsection \<open>Restart\<close>

lemma fold_update_distinct:
  "distinct (map fst (m @ kvs)) \<Longrightarrow> fold (\<lambda>(k, v). AList.update k v) kvs m = m @ kvs"
proof (induction kvs arbitrary: m)
  case (Cons a kvs)
  obtain k v where a: "a = (k, v)" by (cases a)
  have "k \<notin> fst ` set m" using Cons.prems a by auto
  then have "AList.update k v m = m @ [a]" unfolding a by (induction m) auto
  then show ?case using Cons a by simp
qed simp

definition restored_entry :: "net_ops \<Rightarrow> 'a codec \<Rightarrow> kad_record \<Rightarrow> record_key \<times> network_address \<times> record_type" where
  "restored_entry N C r = (rec_key r, from_record_key (rec_key r),
     if header_from_record C r = Ok KChunk then ChunkType
     else NonChunkType (xor_from_content N (rec_value r)))"

lemma process_entry_file:
  assumes "hex_decode Op (hex_encode Op (rec_key r)) = Some (rec_key r)" and "\<not> encrypt_records Op"
    and "is_ok (header_from_record C r)"
  shows "process_entry N Op C details (generate_filename Op (rec_key r), rec_value r)
    = Some (restored_entry N C r)"
proof -
  obtain kind where "header_from_record C r = Ok kind" using assms(3) by (auto simp: is_ok_iff)
  moreover obtain k v where "r = \<lparr> rec_key = k, rec_value = v \<rparr>" by (cases r)
  ultimately show ?thesis
    using assms(1,2)
    by (simp add: process_entry_def get_data_from_filename_def generate_filename_def
        get_record_from_bytes_def is_record_of_type_chunk_def restored_entry_def split: bool.split)
qed



subsection \<open>Cleaning up\<close>

lemma removes_records:
  "records (foldl (store_remove N Op) s ks) = filter (\<lambda>(k, _). k \<notin> set ks) (records s)"
proof (induction ks arbitrary: s)
  case (Cons k ks)
  then show ?case
    by (auto simp: AList.delete_eq case_prod_unfold intro!: filter_cong)
qed simp

text \<open>The clean-up of a store that is more than 60 percent full of a default store drops
  exactly the records outside the node's range, and otherwise drops nothing.\<close>

theorem cleanup_exact:
  "store_keys (cleanup_unrelevant_records N Op s) =
     (case responsible_distance_range s of
        Some b \<Rightarrow> if 78643 \<le> length (records s)
                  then {k \<in> store_keys s. key_in_range N (local_peer s) b k} else store_keys s
      | None \<Rightarrow> store_keys s)"
  by (auto simp: cleanup_unrelevant_records_def removes_records store_keys_def hmap_retain_def
      MAX_RECORDS_COUNT_def Let_def split: option.splits)

end
