(* ===== verification/Replication.thy ===== *)
theory Replication
  imports Record_Store
begin

section \<open>The replication fetcher (sn\_networking/src/replication\_fetcher.rs)\<close>

text \<open>
  The keys a node still has to fetch from its peers and the fetches in progress. The time of a
  call is an argument, in nanoseconds. Events that report failed holders are a field of the
  state. \<open>K_VALUE\<close> is the constant of the networking library, 20.
\<close>

type_synonym fetch_key = "record_key \<times> record_type"

record replication_fetcher =
  rf_self :: peer_id
  to_be_fetched :: "(record_key \<times> record_type \<times> peer_id, nat) hash_map"
  on_going_fetches :: "(fetch_key, peer_id \<times> nat) hash_map"
  rf_distance_range :: "nat option"
  farthest_acceptable_distance :: "distance option"
  failed_events :: "peer_id list list"

definition K_VALUE :: nat where
  "K_VALUE = 20"

definition MAX_PARALLEL_FETCH :: nat where
  "MAX_PARALLEL_FETCH = K_VALUE"

definition FETCH_TIMEOUT :: nat where
  "FETCH_TIMEOUT = from_secs 20"

definition PENDING_TIMEOUT :: nat where
  "PENDING_TIMEOUT = from_secs 900"

definition fetcher_new :: "peer_id \<Rightarrow> replication_fetcher" where
  "fetcher_new self_peer_id =
     \<lparr> rf_self = self_peer_id, to_be_fetched = [], on_going_fetches = [], rf_distance_range = None,
       farthest_acceptable_distance = None, failed_events = [] \<rparr>"

definition set_replication_distance_range :: "replication_fetcher \<Rightarrow> nat \<Rightarrow> replication_fetcher" where
  "set_replication_distance_range f d = f \<lparr> rf_distance_range := Some d \<rparr>"

subsection \<open>Choosing the next keys\<close>

definition prune_expired_keys_and_slow_nodes :: "nat \<Rightarrow> replication_fetcher \<Rightarrow> replication_fetcher" where
  "prune_expired_keys_and_slow_nodes now f =
     (let failed_fetches = filter (\<lambda>(_, _, time_out). time_out < now) (on_going_fetches f);
          failed_holders = remdups (map (\<lambda>(_, peer_id, _). peer_id) failed_fetches);
          f1 = f \<lparr> on_going_fetches :=
                     hmap_retain (\<lambda>_ (_, time_out). \<not> time_out < now) (on_going_fetches f),
                   to_be_fetched :=
                     hmap_retain (\<lambda>(_, _, holder) _. holder \<notin> set failed_holders) (to_be_fetched f) \<rparr>
      in if failed_holders = [] then f1
         else f1 \<lparr> failed_events := failed_events f1 @ [failed_holders] \<rparr>)"

fun fetch_loop ::
    "nat \<Rightarrow> ((record_key \<times> record_type \<times> peer_id) \<times> nat) list \<Rightarrow> (fetch_key, peer_id \<times> nat) hash_map
      \<Rightarrow> (peer_id \<times> record_key \<times> record_type) list \<times> (fetch_key, peer_id \<times> nat) hash_map" where
  "fetch_loop now [] on_going = ([], on_going)"
| "fetch_loop now (((key, t, holder), _) # rest) on_going =
     (let (fetch, on_going') =
            (if length on_going < MAX_PARALLEL_FETCH \<and> \<not> hmap_contains on_going (key, t)
             then ([(holder, key, t)],
                   AList.update (key, t) (holder, now + FETCH_TIMEOUT) on_going)
             else ([], on_going))
      in if length on_going' \<ge> MAX_PARALLEL_FETCH then (fetch, on_going')
         else case fetch_loop now rest on_going' of (others, og) \<Rightarrow> (fetch @ others, og))"

definition next_keys_to_fetch ::
    "net_ops \<Rightarrow> nat \<Rightarrow> replication_fetcher \<Rightarrow> replication_fetcher \<times> (peer_id \<times> record_key) list" where
  "next_keys_to_fetch N now f0 =
     (let f = prune_expired_keys_and_slow_nodes now f0
      in if length (on_going_fetches f) \<ge> MAX_PARALLEL_FETCH then (f, [])
         else
           let to_be_fetched_sorted =
                 sort_key (\<lambda>((key, _, _), _). record_distance N (rf_self f) key) (to_be_fetched f);
               (data_to_fetch, on_going) = fetch_loop now to_be_fetched_sorted (on_going_fetches f)
           in (f \<lparr> on_going_fetches := on_going,
                   to_be_fetched := fold (\<lambda>(holder, key, t). AList.delete (key, t, holder))
                                      data_to_fetch (to_be_fetched f) \<rparr>,
               map (\<lambda>(holder, key, t). (holder, key)) data_to_fetch))"

subsection \<open>Incoming keys\<close>

definition remove_stored_keys :: "record_index \<Rightarrow> replication_fetcher \<Rightarrow> replication_fetcher" where
  "remove_stored_keys existing f =
     (let keep = (\<lambda>key t. case map_of existing key of Some (_, ty) \<Rightarrow> t \<noteq> ty | None \<Rightarrow> True)
      in f \<lparr> to_be_fetched := hmap_retain (\<lambda>(key, t, _) _. keep key t) (to_be_fetched f),
             on_going_fetches := hmap_retain (\<lambda>(key, t) _. keep key t) (on_going_fetches f) \<rparr>)"

definition new_incoming ::
    "net_ops \<Rightarrow> replication_fetcher \<Rightarrow> peer_id \<Rightarrow> (network_address \<times> record_type) list \<Rightarrow> record_index
      \<Rightarrow> (network_address \<times> record_type) list" where
  "new_incoming N f holder incoming_keys locally_stored =
     filter (\<lambda>(addr, t). \<not> hmap_contains locally_stored (to_record_key N addr)
               \<and> \<not> hmap_contains (to_be_fetched f) (to_record_key N addr, t, holder)) incoming_keys"

definition in_farthest :: "net_ops \<Rightarrow> replication_fetcher \<Rightarrow> network_address \<Rightarrow> bool" where
  "in_farthest N f addr =
     (case farthest_acceptable_distance f of
        Some farthest \<Rightarrow> addr_distance N (from_peer (rf_self f)) addr \<le> farthest
      | None \<Rightarrow> True)"

definition in_fetch_range :: "net_ops \<Rightarrow> replication_fetcher \<Rightarrow> network_address \<Rightarrow> bool" where
  "in_fetch_range N f addr =
     (case rf_distance_range f of
        Some d \<Rightarrow> case_option 0 id (ilog2 (addr_distance N (from_peer (rf_self f)) addr)) \<le> d
      | None \<Rightarrow> True)"

definition fetch_new_data ::
    "net_ops \<Rightarrow> nat \<Rightarrow> replication_fetcher \<Rightarrow> peer_id \<Rightarrow> network_address \<times> record_type
      \<Rightarrow> replication_fetcher \<times> (peer_id \<times> record_key) list" where
  "fetch_new_data N now f holder data =
     (case data of (addr, t) \<Rightarrow>
        let key = to_record_key N addr
        in if hmap_contains (on_going_fetches f) (key, t) then (f, [])
           else (f \<lparr> on_going_fetches :=
                       AList.update (key, t) (holder, now + FETCH_TIMEOUT) (on_going_fetches f) \<rparr>,
                 [(holder, key)]))"

definition add_keys ::
    "net_ops \<Rightarrow> nat \<Rightarrow> replication_fetcher \<Rightarrow> peer_id \<Rightarrow> (network_address \<times> record_type) list
      \<Rightarrow> record_index \<Rightarrow> replication_fetcher \<times> (peer_id \<times> record_key) list" where
  "add_keys N now f holder incoming_keys locally_stored =
     (let new_keys = new_incoming N f holder incoming_keys locally_stored;
          f1 = remove_stored_keys locally_stored f;
          new_keys = filter (\<lambda>(addr, _). in_farthest N f1 addr) new_keys;
          (f2, keys_to_fetch, new_keys) =
            (case new_keys of
               [data] \<Rightarrow> (case fetch_new_data N now f1 holder data of (f', ks) \<Rightarrow> (f', ks, []))
             | _ \<Rightarrow> (f1, [], new_keys));
          f3 = f2 \<lparr> to_be_fetched := hmap_retain (\<lambda>_ time_out. time_out > now) (to_be_fetched f2) \<rparr>;
          new_keys = filter (\<lambda>(addr, _). in_fetch_range N f3 addr) new_keys;
          f4 = f3 \<lparr> to_be_fetched :=
                 fold (\<lambda>(addr, t) m.
                         let entry = (to_record_key N addr, t, holder)
                         in if hmap_contains m entry then m
                            else AList.update entry (now + PENDING_TIMEOUT) m)
                   new_keys (to_be_fetched f3) \<rparr>;
          (f5, others) = next_keys_to_fetch N now f4
      in (f5, keys_to_fetch @ others))"

definition set_farthest_on_full ::
    "net_ops \<Rightarrow> replication_fetcher \<Rightarrow> record_key option \<Rightarrow> replication_fetcher" where
  "set_farthest_on_full N f farthest_in =
     (case farthest_in of
        None \<Rightarrow> f
      | Some key \<Rightarrow>
          let new_farthest = record_distance N (rf_self f) key
          in if (case farthest_acceptable_distance f of
                   Some old_farthest \<Rightarrow> new_farthest \<ge> old_farthest | None \<Rightarrow> False) then f
             else f \<lparr> to_be_fetched :=
                        hmap_retain (\<lambda>(key, _, _) _. record_distance N (rf_self f) key \<le> new_farthest)
                          (to_be_fetched f),
                      on_going_fetches :=
                        hmap_retain (\<lambda>(key, _) _. record_distance N (rf_self f) key \<le> new_farthest)
                          (on_going_fetches f),
                      farthest_acceptable_distance := Some new_farthest \<rparr>)"

definition notify_about_new_put ::
    "net_ops \<Rightarrow> nat \<Rightarrow> replication_fetcher \<Rightarrow> record_key \<Rightarrow> record_type
      \<Rightarrow> replication_fetcher \<times> (peer_id \<times> record_key) list" where
  "notify_about_new_put N now f new_put ty =
     next_keys_to_fetch N now
       (f \<lparr> to_be_fetched := hmap_retain (\<lambda>(key, t, _) _. key \<noteq> new_put \<or> t \<noteq> ty) (to_be_fetched f),
            on_going_fetches := hmap_retain (\<lambda>(key, _) _. key \<noteq> new_put) (on_going_fetches f) \<rparr>)"

definition notify_fetch_early_completed ::
    "net_ops \<Rightarrow> nat \<Rightarrow> replication_fetcher \<Rightarrow> record_key \<Rightarrow> record_type
      \<Rightarrow> replication_fetcher \<times> (peer_id \<times> record_key) list" where
  "notify_fetch_early_completed N now f key_in ty =
     next_keys_to_fetch N now
       (f \<lparr> to_be_fetched :=
              hmap_retain (\<lambda>(key, t, _) _. if t = ty then key \<noteq> key_in else True) (to_be_fetched f),
            on_going_fetches :=
              hmap_retain (\<lambda>(key, t) _. if t = ty then key \<noteq> key_in else True) (on_going_fetches f) \<rparr>)"

subsection \<open>The loop\<close>

text \<open>What the loop returns and how the fetches in progress grow: the keys it takes were not
  in progress, are pairwise different, and are in progress afterwards; it stops only at the
  limit.\<close>

definition task_of :: "peer_id \<times> record_key \<times> record_type \<Rightarrow> fetch_key" where
  "task_of d = (case d of (_, key, t) \<Rightarrow> (key, t))"

definition loop_post ::
    "nat \<Rightarrow> ((record_key \<times> record_type \<times> peer_id) \<times> nat) list \<Rightarrow> (fetch_key, peer_id \<times> nat) hash_map
      \<Rightarrow> (peer_id \<times> record_key \<times> record_type) list \<Rightarrow> (fetch_key, peer_id \<times> nat) hash_map \<Rightarrow> bool" where
  "loop_post now es og out og' \<longleftrightarrow>
     hmap_inv og' \<and> fst ` set og' = fst ` set og \<union> task_of ` set out
     \<and> distinct (map task_of out) \<and> task_of ` set out \<inter> fst ` set og = {}
     \<and> length og' = length og + length out
     \<and> (length og \<le> MAX_PARALLEL_FETCH \<longrightarrow> length og' \<le> MAX_PARALLEL_FETCH)
     \<and> (\<forall>(h, k, t) \<in> set out. (k, t, h) \<in> fst ` set es)
     \<and> set og' \<subseteq> set og \<union> (\<lambda>(h, k, t). ((k, t), h, now + FETCH_TIMEOUT)) ` set out"

lemma loop_post_skip: "loop_post now es og out og' \<Longrightarrow> loop_post now (e # es) og out og'"
  by (auto simp: loop_post_def)

lemma loop_post_take:
  assumes "loop_post now es (AList.update (key, t) (holder, now + FETCH_TIMEOUT) og) out og'"
    and nin: "(key, t) \<notin> fst ` set og" and len: "length og < MAX_PARALLEL_FETCH"
  shows "loop_post now (((key, t, holder), x) # es) og ((holder, key, t) # out) og'"
proof -
  let ?og1 = "AList.update (key, t) (holder, now + FETCH_TIMEOUT) og"
  have og1: "fst ` set ?og1 = insert (key, t) (fst ` set og)" "length ?og1 = Suc (length og)"
    "set ?og1 \<subseteq> insert ((key, t), holder, now + FETCH_TIMEOUT) (set og)"
    using nin set_update_subset [of "(key, t)" "(holder, now + FETCH_TIMEOUT)" og]
    by (simp_all add: hmap_update_length)
  have p: "hmap_inv og'" "fst ` set og' = fst ` set ?og1 \<union> task_of ` set out"
    "distinct (map task_of out)" "task_of ` set out \<inter> fst ` set ?og1 = {}"
    "length og' = length ?og1 + length out"
    "length ?og1 \<le> MAX_PARALLEL_FETCH \<longrightarrow> length og' \<le> MAX_PARALLEL_FETCH"
    "\<forall>(h, k, t) \<in> set out. (k, t, h) \<in> fst ` set es"
    "set og' \<subseteq> set ?og1 \<union> (\<lambda>(h, k, t). ((k, t), h, now + FETCH_TIMEOUT)) ` set out"
    using assms(1) unfolding loop_post_def by - (elim conjE, assumption)+
  have task: "task_of (holder, key, t) = (key, t)" by (simp add: task_of_def)
  have dis: "(key, t) \<notin> task_of ` set out" "task_of ` set out \<inter> fst ` set og = {}"
    using p(4) unfolding og1(1) by blast+
  show ?thesis
    unfolding loop_post_def
  proof (intro conjI)
    show "fst ` set og' = fst ` set og \<union> task_of ` set ((holder, key, t) # out)"
      unfolding p(2) og1(1) by (simp add: task)
    show "distinct (map task_of ((holder, key, t) # out))" using p(3) dis(1) by (simp add: task)
    show "task_of ` set ((holder, key, t) # out) \<inter> fst ` set og = {}"
      using dis(2) nin by (simp add: task)
    show "length og' = length og + length ((holder, key, t) # out)" unfolding p(5) og1(2) by simp
    show "length og \<le> MAX_PARALLEL_FETCH \<longrightarrow> length og' \<le> MAX_PARALLEL_FETCH"
      using p(6) len unfolding og1(2) by simp
    show "\<forall>(h', k', t') \<in> set ((holder, key, t) # out).
        (k', t', h') \<in> fst ` set (((key, t, holder), x) # es)"
      using p(7) by auto
    show "set og' \<subseteq> set og \<union> (\<lambda>(h, k, t). ((k, t), h, now + FETCH_TIMEOUT)) ` set ((holder, key, t) # out)"
      using p(8) og1(3) by auto
  qed (rule p(1))
qed

lemma fetch_loop_Cons:
  "fetch_loop now (((key, t, holder), x) # es) og =
     (if length og < MAX_PARALLEL_FETCH \<and> (key, t) \<notin> fst ` set og
      then let og1 = AList.update (key, t) (holder, now + FETCH_TIMEOUT) og
           in if length og1 \<ge> MAX_PARALLEL_FETCH then ([(holder, key, t)], og1)
              else map_prod (Cons (holder, key, t)) id (fetch_loop now es og1)
      else if length og \<ge> MAX_PARALLEL_FETCH then ([], og) else fetch_loop now es og)"
  by (simp add: hmap_contains_iff Let_def map_prod_def case_prod_unfold)

declare fetch_loop.simps(2) [simp del]

lemma fetch_loop_post:
  assumes "fetch_loop now es og = (out, og')" and "hmap_inv og"
  shows "loop_post now es og out og'"
  using assms
proof (induction es arbitrary: og out og')
  case Nil
  then show ?case by (auto simp: loop_post_def)
next
  case (Cons e es)
  obtain key t holder x where e: "e = ((key, t, holder), x)" by (metis surj_pair)
  let ?og1 = "AList.update (key, t) (holder, now + FETCH_TIMEOUT) og"
  have stop: "loop_post now es og2 [] og2" if "hmap_inv og2" for og2
    using that by (auto simp: loop_post_def)
  show ?case
  proof (cases "length og < MAX_PARALLEL_FETCH \<and> (key, t) \<notin> fst ` set og")
    case True
    have inv: "hmap_inv ?og1" using Cons.prems(2) by simp
    obtain out1 where "out = (holder, key, t) # out1" and "loop_post now es ?og1 out1 og'"
    proof (cases "length ?og1 \<ge> MAX_PARALLEL_FETCH")
      case full: True
      then show ?thesis
        using Cons.prems(1) True that [of "[]"] stop [OF inv] by (simp add: e fetch_loop_Cons)
    next
      case False
      obtain out2 og2 where r: "fetch_loop now es ?og1 = (out2, og2)" by (cases "fetch_loop now es ?og1")
      then show ?thesis
        using Cons.prems(1) True False that [of out2] Cons.IH [OF r inv]
        by (simp add: e fetch_loop_Cons)
    qed
    then show ?thesis using loop_post_take True e by simp
  next
    case False
    then have "(out, og') = ([], og) \<or> fetch_loop now es og = (out, og')"
      using Cons.prems(1) unfolding e fetch_loop_Cons by (auto split: if_splits)
    then show ?thesis
    proof
      assume "fetch_loop now es og = (out, og')"
      from Cons.IH [OF this Cons.prems(2)] show ?thesis by (rule loop_post_skip)
    qed (use stop [OF Cons.prems(2)] in \<open>simp add: loop_post_skip\<close>)
  qed
qed

text \<open>The loop stops before the end of its list only at the limit; otherwise everything that
  was offered is in progress.\<close>

lemma fetch_loop_complete:
  assumes "fetch_loop now es og = (out, og')" and "length og' < MAX_PARALLEL_FETCH" and "hmap_inv og"
  shows "\<forall>((k, t, _), _) \<in> set es. (k, t) \<in> fst ` set og'"
  using assms
proof (induction es arbitrary: og out)
  case Nil
  then show ?case by simp
next
  case (Cons e es)
  obtain key t holder x where e: "e = ((key, t, holder), x)" by (metis surj_pair)
  have post: "loop_post now (e # es) og out og'" by (rule fetch_loop_post [OF Cons.prems(1,3)])
  then have len: "length og < MAX_PARALLEL_FETCH" and sub: "fst ` set og \<subseteq> fst ` set og'"
    using Cons.prems(2) by (auto simp: loop_post_def)
  obtain og1 out1 where og1: "hmap_inv og1" "fetch_loop now es og1 = (out1, og')"
    "(key, t) \<in> fst ` set og1"
  proof (cases "(key, t) \<in> fst ` set og")
    case True
    then show ?thesis
      using that [of og out] Cons.prems(1,3) len by (simp add: e fetch_loop_Cons)
  next
    case False
    let ?og1 = "AList.update (key, t) (holder, now + FETCH_TIMEOUT) og"
    have "\<not> length ?og1 \<ge> MAX_PARALLEL_FETCH"
      using Cons.prems(1,2) False len by (auto simp: e fetch_loop_Cons Let_def split: if_splits)
    then show ?thesis
      using that [of ?og1 "fst (fetch_loop now es ?og1)"] Cons.prems(1,3) False len
      by (auto simp: e fetch_loop_Cons Let_def map_prod_def split: prod.splits)
  qed
  have "loop_post now es og1 out1 og'" by (rule fetch_loop_post [OF og1(2,1)])
  then have "fst ` set og1 \<subseteq> fst ` set og'" unfolding loop_post_def by blast
  then have "(key, t) \<in> fst ` set og'" using og1(3) by blast
  then show ?case using Cons.IH [OF og1(2) Cons.prems(2) og1(1)] e by simp
qed

text \<open>What is taken is never farther than what is left over.\<close>

lemma fetch_loop_sorted:
  assumes "fetch_loop now es og = (out, og')" and "hmap_inv og"
    and "sorted (map (\<lambda>e. d (fst (fst e))) es)" and "((k, t, h), x) \<in> set es"
    and "(k, t) \<notin> fst ` set og'" and "(h', k', t') \<in> set out"
  shows "d k' \<le> (d k :: 'b::linorder)"
  using assms
proof (induction es arbitrary: og out)
  case Nil
  then show ?case by simp
next
  case (Cons e es)
  obtain key ty holder y where e: "e = ((key, ty, holder), y)" by (metis surj_pair)
  have len: "length og < MAX_PARALLEL_FETCH"
    using Cons.prems(1,6) by (auto simp: e fetch_loop_Cons split: if_splits)
  have grow: "fst ` set og \<subseteq> fst ` set og'"
    using fetch_loop_post [OF Cons.prems(1,2)] by (auto simp: loop_post_def)
  show ?case
  proof (cases "(key, ty) \<in> fst ` set og")
    case True
    then have "fetch_loop now es og = (out, og')"
      using Cons.prems(1) len by (simp add: e fetch_loop_Cons)
    moreover have "((k, t, h), x) \<in> set es" using Cons.prems(4,5) True grow e by auto
    ultimately show ?thesis using Cons.IH Cons.prems(2,3,5,6) by simp
  next
    case False
    let ?og1 = "AList.update (key, ty) (holder, now + FETCH_TIMEOUT) og"
    obtain out1 where out: "out = (holder, key, ty) # out1"
      and rest: "out1 = [] \<and> og' = ?og1 \<or> fetch_loop now es ?og1 = (out1, og')"
      using Cons.prems(1) False len
      by (auto simp: e fetch_loop_Cons Let_def map_prod_def split: if_splits prod.splits)
    have inv: "hmap_inv ?og1" using Cons.prems(2) by simp
    have "fst ` set ?og1 \<subseteq> fst ` set og'"
      using rest
    proof
      assume "fetch_loop now es ?og1 = (out1, og')"
      from fetch_loop_post [OF this inv] show ?thesis by (auto simp: loop_post_def)
    qed simp
    then have "(key, ty) \<in> fst ` set og'" by (simp only: keys_update insert_subset)
    then have mem: "((k, t, h), x) \<in> set es" using Cons.prems(4,5) e by auto
    then have key: "d key \<le> d k" using Cons.prems(3) e by auto
    show ?thesis
    proof (cases "(h', k', t') \<in> set out1")
      case True
      then have "fetch_loop now es ?og1 = (out1, og')" using rest by auto
      moreover have "sorted (map (\<lambda>e. d (fst (fst e))) es)" using Cons.prems(3) by simp
      ultimately show ?thesis by (rule Cons.IH [OF _ inv _ mem Cons.prems(5) True])
    qed (use Cons.prems(6) out key in simp)
  qed
qed

subsection \<open>The next keys\<close>

lemma fold_delete_keys:
  "fst ` set (fold (\<lambda>d. AList.delete (g d)) ds m) = fst ` set m - g ` set ds"
  by (induction ds arbitrary: m) auto

lemma fold_delete_subset: "set (fold (\<lambda>d. AList.delete (g d)) ds m) \<subseteq> set m"
proof (induction ds arbitrary: m)
  case (Cons d ds)
  then show ?case using set_delete_subset [of "g d" m] by fastforce
qed simp

lemma fold_delete_inv: "hmap_inv m \<Longrightarrow> hmap_inv (fold (\<lambda>d. AList.delete (g d)) ds m)"
  by (induction ds arbitrary: m) simp_all

definition entry_of :: "peer_id \<times> record_key \<times> record_type \<Rightarrow> record_key \<times> record_type \<times> peer_id" where
  "entry_of d = (case d of (holder, key, t) \<Rightarrow> (key, t, holder))"

lemma next_keys_cases:
  obtains (full) "MAX_PARALLEL_FETCH \<le> length (on_going_fetches (prune_expired_keys_and_slow_nodes now f))"
      and "next_keys_to_fetch N now f = (prune_expired_keys_and_slow_nodes now f, [])"
    | (fetch) out og where
      "length (on_going_fetches (prune_expired_keys_and_slow_nodes now f)) < MAX_PARALLEL_FETCH"
      and "fetch_loop now (sort_key (\<lambda>e. record_distance N (rf_self f) (fst (fst e)))
             (to_be_fetched (prune_expired_keys_and_slow_nodes now f)))
           (on_going_fetches (prune_expired_keys_and_slow_nodes now f)) = (out, og)"
      and "next_keys_to_fetch N now f =
        ((prune_expired_keys_and_slow_nodes now f) \<lparr> on_going_fetches := og,
            to_be_fetched := fold (\<lambda>d. AList.delete (entry_of d)) out
              (to_be_fetched (prune_expired_keys_and_slow_nodes now f)) \<rparr>,
         map (\<lambda>d. (fst d, fst (snd d))) out)"
proof -
  let ?f = "prune_expired_keys_and_slow_nodes now f"
  have self: "rf_self ?f = rf_self f"
    by (simp add: prune_expired_keys_and_slow_nodes_def Let_def)
  obtain out og where r: "fetch_loop now (sort_key (\<lambda>e. record_distance N (rf_self f) (fst (fst e)))
      (to_be_fetched ?f)) (on_going_fetches ?f) = (out, og)" by fastforce
  show ?thesis
  proof (cases "MAX_PARALLEL_FETCH \<le> length (on_going_fetches ?f)")
    case True
    then show ?thesis by (intro full) (simp_all add: next_keys_to_fetch_def)
  next
    case False
    then show ?thesis
      using r by (intro fetch [of out og])
        (simp_all add: next_keys_to_fetch_def self case_prod_unfold entry_of_def Let_def)
  qed
qed

lemma prune_fields [simp]:
  "rf_self (prune_expired_keys_and_slow_nodes now f) = rf_self f"
  "rf_distance_range (prune_expired_keys_and_slow_nodes now f) = rf_distance_range f"
  "farthest_acceptable_distance (prune_expired_keys_and_slow_nodes now f) = farthest_acceptable_distance f"
  by (simp_all add: prune_expired_keys_and_slow_nodes_def Let_def)

lemma prune_maps:
  "hmap_inv (to_be_fetched f) \<Longrightarrow> hmap_inv (to_be_fetched (prune_expired_keys_and_slow_nodes now f))"
  "hmap_inv (on_going_fetches f) \<Longrightarrow> hmap_inv (on_going_fetches (prune_expired_keys_and_slow_nodes now f))"
  "set (to_be_fetched (prune_expired_keys_and_slow_nodes now f)) \<subseteq> set (to_be_fetched f)"
  "set (on_going_fetches (prune_expired_keys_and_slow_nodes now f)) \<subseteq> set (on_going_fetches f)"
  "length (on_going_fetches (prune_expired_keys_and_slow_nodes now f)) \<le> length (on_going_fetches f)"
  by (auto simp: prune_expired_keys_and_slow_nodes_def Let_def hmap_retain_def
      intro: hmap_inv_retain [unfolded hmap_retain_def])

lemma loop_post_new:
  assumes "loop_post now es og out og'" and "(h, k, t) \<in> set out"
  shows "\<not> hmap_contains og (k, t) \<and> map_of og' (k, t) = Some (h, now + FETCH_TIMEOUT)"
proof -
  have p: "hmap_inv og'" "fst ` set og' = fst ` set og \<union> task_of ` set out"
    "distinct (map task_of out)" "task_of ` set out \<inter> fst ` set og = {}"
    "set og' \<subseteq> set og \<union> (\<lambda>(h, k, t). ((k, t), h, now + FETCH_TIMEOUT)) ` set out"
    using assms(1) by (simp_all add: loop_post_def)
  have "task_of (h, k, t) \<in> task_of ` set out" using assms(2) by (rule imageI)
  then have kt: "(k, t) \<in> task_of ` set out" by (simp add: task_of_def)
  then have nin: "(k, t) \<notin> fst ` set og" using p(4) by blast
  obtain v where v: "((k, t), v) \<in> set og'" using p(2) kt by force
  then have "((k, t), v) \<notin> set og" using nin by force
  then obtain h' where h': "(h', k, t) \<in> set out" "v = (h', now + FETCH_TIMEOUT)"
    using v p(5) by auto
  moreover have "task_of (h', k, t) = task_of (h, k, t)" by (simp add: task_of_def)
  ultimately have "h' = h" using p(3) assms(2) by (metis distinct_map inj_onD prod.inject)
  then show ?thesis
    using v h' nin p(1) by (simp add: hmap_contains_iff hmap_inv_def map_of_is_SomeI)
qed


subsection \<open>All operations\<close>

datatype fetcher_event =
    AddKeys nat peer_id "(network_address \<times> record_type) list" record_index
  | NewPut nat record_key record_type
  | FetchCompleted nat record_key record_type
  | NextKeys nat
  | FarthestOnFull "record_key option"
  | DistanceRange nat

fun fetcher_step :: "net_ops \<Rightarrow> replication_fetcher \<Rightarrow> fetcher_event \<Rightarrow> replication_fetcher" where
  "fetcher_step N f (AddKeys now holder keys stored) = fst (add_keys N now f holder keys stored)"
| "fetcher_step N f (NewPut now key ty) = fst (notify_about_new_put N now f key ty)"
| "fetcher_step N f (FetchCompleted now key ty) = fst (notify_fetch_early_completed N now f key ty)"
| "fetcher_step N f (NextKeys now) = fst (next_keys_to_fetch N now f)"
| "fetcher_step N f (FarthestOnFull key) = set_farthest_on_full N f key"
| "fetcher_step N f (DistanceRange d) = set_replication_distance_range f d"

text \<open>No key beyond the farthest acceptable distance waits or is being fetched.\<close>

definition acceptable :: "net_ops \<Rightarrow> peer_id \<Rightarrow> distance option \<Rightarrow> record_key \<Rightarrow> bool" where
  "acceptable N p farthest k =
     (case farthest of Some d \<Rightarrow> record_distance N p k \<le> d | None \<Rightarrow> True)"

definition fetcher_inv :: "net_ops \<Rightarrow> replication_fetcher \<Rightarrow> bool" where
  "fetcher_inv N f \<longleftrightarrow> hmap_inv (to_be_fetched f) \<and> hmap_inv (on_going_fetches f)
     \<and> (\<forall>e \<in> set (to_be_fetched f). acceptable N (rf_self f) (farthest_acceptable_distance f) (fst (fst e)))
     \<and> (\<forall>e \<in> set (on_going_fetches f). acceptable N (rf_self f) (farthest_acceptable_distance f) (fst (fst e)))"

lemma in_farthest_acceptable: "in_farthest N f addr = acceptable N (rf_self f) (farthest_acceptable_distance f) (to_record_key N addr)"
  by (simp add: in_farthest_def acceptable_def record_distance_def distance_of_record_key split: option.split)

lemma fetcher_inv_shrink:
  assumes "fetcher_inv N f" and "rf_self f' = rf_self f"
    and "farthest_acceptable_distance f' = farthest_acceptable_distance f"
    and "hmap_inv (to_be_fetched f')" and "hmap_inv (on_going_fetches f')"
    and "set (to_be_fetched f') \<subseteq> set (to_be_fetched f)"
    and "set (on_going_fetches f') \<subseteq> set (on_going_fetches f)"
  shows "fetcher_inv N f'"
  using assms by (auto simp: fetcher_inv_def)

lemma fetcher_inv_retain:
  assumes "fetcher_inv N f" and "rf_self f' = rf_self f"
    and "farthest_acceptable_distance f' = farthest_acceptable_distance f"
    and "to_be_fetched f' = hmap_retain p (to_be_fetched f)"
    and "on_going_fetches f' = hmap_retain q (on_going_fetches f)"
  shows "fetcher_inv N f'"
  by (rule fetcher_inv_shrink [OF assms(1-3)])
    (use assms in \<open>auto simp: fetcher_inv_def hmap_retain_def
      intro: hmap_inv_retain [unfolded hmap_retain_def]\<close>)

lemma fetcher_inv_prune:
  assumes "fetcher_inv N f"
  shows "fetcher_inv N (prune_expired_keys_and_slow_nodes now f)"
proof (rule fetcher_inv_shrink [OF assms prune_fields(1,3) _ _ prune_maps(3,4)])
qed (use assms in \<open>simp_all add: fetcher_inv_def prune_maps(1,2)\<close>)

lemma fetcher_inv_next:
  assumes "fetcher_inv N f"
  shows "fetcher_inv N (fst (next_keys_to_fetch N now f))"
proof (cases rule: next_keys_cases [of now f N])
  case full
  then show ?thesis using assms by (simp add: fetcher_inv_prune)
next
  case (fetch out og)
  let ?f = "prune_expired_keys_and_slow_nodes now f"
  have inv: "fetcher_inv N ?f" by (rule fetcher_inv_prune [OF assms])
  then have "hmap_inv (on_going_fetches ?f)" by (simp add: fetcher_inv_def)
  from fetch_loop_post [OF fetch(2) this]
  have og: "hmap_inv og" "set og \<subseteq> set (on_going_fetches ?f)
      \<union> (\<lambda>(h, k, t). ((k, t), h, now + FETCH_TIMEOUT)) ` set out"
    "\<forall>(h, k, t) \<in> set out. (k, t, h) \<in> fst ` set (to_be_fetched ?f)"
    by (auto simp: loop_post_def)
  have "acceptable N (rf_self f) (farthest_acceptable_distance f) (fst (fst e))" if "e \<in> set og" for e
  proof (cases "e \<in> set (on_going_fetches ?f)")
    case True
    then show ?thesis using inv by (simp add: fetcher_inv_def)
  next
    case False
    then obtain h k t where "e = ((k, t), h, now + FETCH_TIMEOUT)" "(h, k, t) \<in> set out"
      using og(2) \<open>e \<in> set og\<close> by auto
    then show ?thesis using og(3) inv by (force simp: fetcher_inv_def)
  qed
  moreover have "set (fold (\<lambda>d. AList.delete (entry_of d)) out (to_be_fetched ?f)) \<subseteq> set (to_be_fetched ?f)"
    by (rule fold_delete_subset)
  ultimately show ?thesis
    using fetch(3) inv og(1) by (auto simp: fetcher_inv_def fold_delete_inv)
qed

lemma fetcher_inv_add_entries:
  assumes "hmap_inv m" and "\<forall>e \<in> set m. P (fst (fst e))" and "\<forall>x \<in> set xs. P (to_record_key N (fst x))"
    and "m' = fold (\<lambda>(addr, t) m. let entry = (to_record_key N addr, t, holder)
           in if hmap_contains m entry then m else AList.update entry v m) xs m"
  shows "hmap_inv m' \<and> (\<forall>e \<in> set m'. P (fst (fst e)))"
  using assms
proof (induction xs arbitrary: m)
  case (Cons x xs)
  obtain addr t where x: "x = (addr, t)" by (cases x)
  let ?e = "(to_record_key N addr, t, holder)"
  let ?m = "if hmap_contains m ?e then m else AList.update ?e v m"
  have "hmap_inv ?m" using Cons.prems(1) by simp
  moreover have "\<forall>e \<in> set ?m. P (fst (fst e))"
    using Cons.prems(2,3) set_update_subset [of ?e v m] x by auto
  moreover have "\<forall>x \<in> set xs. P (to_record_key N (fst x))" using Cons.prems(3) by simp
  ultimately show ?case
    by (rule Cons.IH) (use Cons.prems(4) x in \<open>simp add: Let_def\<close>)
qed simp

lemma fetcher_inv_new_data:
  assumes "fetcher_inv N f" and "acceptable N (rf_self f) (farthest_acceptable_distance f) (to_record_key N addr)"
  shows "fetcher_inv N (fst (fetch_new_data N now f holder (addr, t)))"
proof -
  have "set (AList.update (to_record_key N addr, t) (holder, now + FETCH_TIMEOUT) (on_going_fetches f))
      \<subseteq> insert ((to_record_key N addr, t), holder, now + FETCH_TIMEOUT) (set (on_going_fetches f))"
    by (rule set_update_subset)
  then show ?thesis
    using assms by (auto simp: fetch_new_data_def fetcher_inv_def Let_def)
qed

lemma remove_stored_fields [simp]:
  "rf_self (remove_stored_keys stored f) = rf_self f"
  "rf_distance_range (remove_stored_keys stored f) = rf_distance_range f"
  "farthest_acceptable_distance (remove_stored_keys stored f) = farthest_acceptable_distance f"
  by (simp_all add: remove_stored_keys_def Let_def)

text \<open>The shape of \<open>add_keys\<close>: the state before the next keys are chosen, and what is fetched at
  once.\<close>

lemma add_keys_cases:
  obtains (single) addr t where
      "filter (\<lambda>(addr, _). in_farthest N (remove_stored_keys stored f) addr)
         (new_incoming N f holder keys stored) = [(addr, t)]"
      "add_keys N now f holder keys stored =
         (let (f2, ks) = fetch_new_data N now (remove_stored_keys stored f) holder (addr, t);
              (f5, others) = next_keys_to_fetch N now
                (f2 \<lparr> to_be_fetched := hmap_retain (\<lambda>_ time_out. time_out > now) (to_be_fetched f2) \<rparr>)
          in (f5, ks @ others))"
    | (list) xs where
      "set xs \<subseteq> set (filter (\<lambda>(addr, _). in_farthest N (remove_stored_keys stored f) addr)
         (new_incoming N f holder keys stored))"
      "add_keys N now f holder keys stored = next_keys_to_fetch N now
         ((remove_stored_keys stored f) \<lparr> to_be_fetched :=
            fold (\<lambda>(addr, t) m. let entry = (to_record_key N addr, t, holder)
                   in if hmap_contains m entry then m else AList.update entry (now + PENDING_TIMEOUT) m)
              xs (hmap_retain (\<lambda>_ time_out. time_out > now)
                   (to_be_fetched (remove_stored_keys stored f))) \<rparr>)"
proof -
  let ?f1 = "remove_stored_keys stored f"
  let ?ks = "filter (\<lambda>(addr, _). in_farthest N ?f1 addr) (new_incoming N f holder keys stored)"
  let ?f3 = "?f1 \<lparr> to_be_fetched := hmap_retain (\<lambda>_ time_out. time_out > now) (to_be_fetched ?f1) \<rparr>"
  show ?thesis
  proof (cases "\<exists>addr t. ?ks = [(addr, t)]")
    case True
    then obtain addr t where ks: "?ks = [(addr, t)]" by blast
    show ?thesis
      by (rule single [OF ks]) (unfold add_keys_def Let_def ks, simp add: case_prod_unfold)
  next
    case False
    then consider "?ks = []" | x y zs where "?ks = x # y # zs" by (metis list.exhaust surj_pair)
    then show ?thesis
    proof cases
      case 1
      show ?thesis by (rule list [of "[]"]) (unfold add_keys_def Let_def 1, simp_all add: case_prod_unfold)
    next
      case (2 x y zs)
      show ?thesis
        by (rule list [of "filter (\<lambda>(addr, _). in_fetch_range N ?f3 addr) (x # y # zs)"])
          (unfold add_keys_def Let_def 2, auto simp: case_prod_unfold)
    qed
  qed
qed

lemma fetcher_inv_add_keys:
  assumes "fetcher_inv N f"
  shows "fetcher_inv N (fst (add_keys N now f holder keys stored))"
proof -
  let ?f1 = "remove_stored_keys stored f"
  have inv: "fetcher_inv N ?f1"
    by (rule fetcher_inv_retain [OF assms]) (simp_all add: remove_stored_keys_def Let_def)
  have live: "fetcher_inv N (g \<lparr> to_be_fetched := hmap_retain p (to_be_fetched g) \<rparr>)"
    if "fetcher_inv N g" for g p
    by (rule fetcher_inv_retain [OF that, where q = "\<lambda>_ _. True"]) (simp_all add: hmap_retain_def)
  show ?thesis
  proof (cases rule: add_keys_cases [of N stored f holder keys now])
    case (single addr t)
    then have "(addr, t) \<in> set (filter (\<lambda>(addr, _). in_farthest N ?f1 addr) (new_incoming N f holder keys stored))"
      by simp
    then have "acceptable N (rf_self ?f1) (farthest_acceptable_distance ?f1) (to_record_key N addr)"
      by (simp add: in_farthest_acceptable)
    from fetcher_inv_new_data [OF inv this] show ?thesis
      using single(2) by (auto simp: case_prod_unfold Let_def intro!: fetcher_inv_next live)
  next
    case (list xs)
    let ?m = "hmap_retain (\<lambda>_ time_out. time_out > now) (to_be_fetched ?f1)"
    let ?ok = "acceptable N (rf_self ?f1) (farthest_acceptable_distance ?f1)"
    have "hmap_inv ?m" "\<forall>e \<in> set ?m. ?ok (fst (fst e))"
      using live [OF inv] by (simp_all add: fetcher_inv_def)
    moreover have "\<forall>x \<in> set xs. ?ok (to_record_key N (fst x))"
      using list(1) by (auto simp: in_farthest_acceptable)
    ultimately show ?thesis
      unfolding list(2)
      by (intro fetcher_inv_next)
        (use inv fetcher_inv_add_entries [OF _ _ _ refl, of ?m ?ok xs N holder "now + PENDING_TIMEOUT"]
          in \<open>simp add: fetcher_inv_def\<close>)
  qed
qed

lemma fetcher_inv_farthest:
  assumes "fetcher_inv N f"
  shows "fetcher_inv N (set_farthest_on_full N f key)"
  using assms
  by (auto simp: set_farthest_on_full_def fetcher_inv_def acceptable_def hmap_retain_set Let_def
      split: option.splits)

lemma fetcher_inv_step: "fetcher_inv N f \<Longrightarrow> fetcher_inv N (fetcher_step N f e)"
proof (cases e)
  case (NewPut now key ty)
  assume "fetcher_inv N f"
  then show ?thesis
    using NewPut by (auto simp: notify_about_new_put_def intro!: fetcher_inv_next intro: fetcher_inv_retain)
next
  case (FetchCompleted now key ty)
  assume "fetcher_inv N f"
  then show ?thesis
    using FetchCompleted
    by (auto simp: notify_fetch_early_completed_def intro!: fetcher_inv_next intro: fetcher_inv_retain)
next
  case (DistanceRange d)
  assume "fetcher_inv N f"
  then show ?thesis
    using DistanceRange by (simp add: set_replication_distance_range_def fetcher_inv_def)
qed (simp_all add: fetcher_inv_add_keys fetcher_inv_next fetcher_inv_farthest)

lemma fetcher_inv_reachable: "fetcher_inv N (foldl (fetcher_step N) (fetcher_new p) es)"
proof (induction es rule: rev_induct)
  case Nil
  then show ?case by (simp add: fetcher_inv_def fetcher_new_def)
next
  case (snoc e es)
  then show ?case by (simp add: fetcher_inv_step)
qed

lemma next_keys_frame [simp]:
  "rf_self (fst (next_keys_to_fetch N now f)) = rf_self f"
  "farthest_acceptable_distance (fst (next_keys_to_fetch N now f)) = farthest_acceptable_distance f"
  by (simp_all add: next_keys_to_fetch_def Let_def split: prod.split)

lemma fetch_new_data_frame [simp]:
  "rf_self (fst (fetch_new_data N now f holder data)) = rf_self f"
  "farthest_acceptable_distance (fst (fetch_new_data N now f holder data)) = farthest_acceptable_distance f"
  by (simp_all add: fetch_new_data_def Let_def split: prod.split)

lemma add_keys_frame [simp]:
  "rf_self (fst (add_keys N now f holder keys stored)) = rf_self f"
  "farthest_acceptable_distance (fst (add_keys N now f holder keys stored)) = farthest_acceptable_distance f"
  by (simp_all add: add_keys_def Let_def case_prod_unfold split: list.split)

lemma fetcher_self: "rf_self (foldl (fetcher_step N) (fetcher_new p) es) = p"
proof (induction es rule: rev_induct)
  case (snoc e es)
  then show ?case
    by (cases e) (simp_all add: notify_about_new_put_def notify_fetch_early_completed_def
        set_farthest_on_full_def set_replication_distance_range_def Let_def split: option.split)
qed (simp add: fetcher_new_def)

text \<open>C22: whatever replication lists, puts, timeouts and changes of range a node sees, its
  fetcher never holds a key farther than the farthest distance it accepts, neither waiting nor
  in progress, and holds each entry once.\<close>

theorem fetcher_stays_in_range:
  assumes "f = foldl (fetcher_step N) (fetcher_new p) es" and "farthest_acceptable_distance f = Some d"
  shows "hmap_inv (to_be_fetched f) \<and> hmap_inv (on_going_fetches f)
     \<and> (\<forall>((k, _, _), _) \<in> set (to_be_fetched f). record_distance N p k \<le> d)
     \<and> (\<forall>((k, _), _) \<in> set (on_going_fetches f). record_distance N p k \<le> d)"
  using fetcher_inv_reachable [of N p es] assms fetcher_self [of N p es]
  by (auto simp: fetcher_inv_def acceptable_def)

definition example_fetcher_events :: "fetcher_event list" where
  "example_fetcher_events =
     [DistanceRange 255, AddKeys 0 [2] [(ChunkAddress 1, ChunkType), (ChunkAddress 2, ChunkType)] [],
      FarthestOnFull (Some [1])]"

theorem fetcher_stays_in_range_witness:
  "list_all (\<lambda>((k, _), _). record_distance example_net [0] k \<le> record_distance example_net [0] [1])
     (on_going_fetches (foldl (fetcher_step example_net) (fetcher_new [0]) example_fetcher_events))"
proof -
  let ?f = "foldl (fetcher_step example_net) (fetcher_new [0]) example_fetcher_events"
  have "farthest_acceptable_distance ?f = Some (record_distance example_net [0] [1])"
    by (simp add: example_fetcher_events_def set_farthest_on_full_def set_replication_distance_range_def
        fetcher_new_def record_distance_def Let_def)
  from fetcher_stays_in_range [OF refl this] show ?thesis unfolding list_all_iff by blast
qed

text \<open>Only a replication list can exceed the limit of parallel fetches, by one fetch.\<close>

definition is_add :: "fetcher_event \<Rightarrow> bool" where
  "is_add e = (case e of AddKeys _ _ _ _ \<Rightarrow> True | _ \<Rightarrow> False)"

lemma next_keys_length:
  assumes "hmap_inv (on_going_fetches f)"
  shows "length (on_going_fetches (fst (next_keys_to_fetch N now f)))
    \<le> max MAX_PARALLEL_FETCH (length (on_going_fetches f))"
proof (cases rule: next_keys_cases [of now f N])
  case full
  then show ?thesis using prune_maps(5) [of now f] by simp
next
  case (fetch out og)
  from fetch_loop_post [OF fetch(2) prune_maps(2) [OF assms]]
  show ?thesis using fetch(1,3) by (auto simp: loop_post_def)
qed

lemma next_keys_length_le:
  assumes "hmap_inv (on_going_fetches f)" and "length (on_going_fetches f) \<le> n"
  shows "length (on_going_fetches (fst (next_keys_to_fetch N now f))) \<le> max MAX_PARALLEL_FETCH n"
  using next_keys_length [OF assms(1), of N now] assms(2) by simp

lemma new_data_length:
  assumes "hmap_inv (on_going_fetches f)"
  shows "hmap_inv (on_going_fetches (fst (fetch_new_data N now f holder data)))
    \<and> length (on_going_fetches (fst (fetch_new_data N now f holder data))) \<le> Suc (length (on_going_fetches f))"
  using assms by (auto simp: fetch_new_data_def Let_def hmap_update_length split: prod.splits)

lemma add_keys_length:
  assumes "hmap_inv (on_going_fetches f)"
  shows "length (on_going_fetches (fst (add_keys N now f holder keys stored)))
    \<le> max MAX_PARALLEL_FETCH (Suc (length (on_going_fetches f)))"
proof -
  let ?f1 = "remove_stored_keys stored f"
  have f1: "hmap_inv (on_going_fetches ?f1)" "length (on_going_fetches ?f1) \<le> length (on_going_fetches f)"
    using assms by (simp_all add: remove_stored_keys_def Let_def hmap_retain_length)
  show ?thesis
  proof (cases rule: add_keys_cases [of N stored f holder keys now])
    case (single addr t)
    obtain f2 ks where n: "fetch_new_data N now ?f1 holder (addr, t) = (f2, ks)" by fastforce
    have "hmap_inv (on_going_fetches f2)" "length (on_going_fetches f2) \<le> Suc (length (on_going_fetches f))"
      using new_data_length [OF f1(1), of N now holder "(addr, t)"] f1(2) n by simp_all
    then show ?thesis
      using single(2) n by (simp add: next_keys_length_le case_prod_unfold Let_def)
  next
    case (list xs)
    then show ?thesis using f1 by (simp add: next_keys_length_le)
  qed
qed

lemma step_length:
  assumes "fetcher_inv N f"
  shows "length (on_going_fetches (fetcher_step N f e))
    \<le> max MAX_PARALLEL_FETCH (length (on_going_fetches f) + (if is_add e then 1 else 0))"
proof -
  have "hmap_inv (on_going_fetches f)" using assms by (simp add: fetcher_inv_def)
  then show ?thesis
  proof (cases e)
    case (AddKeys now holder keys stored)
    then show ?thesis
      using add_keys_length [OF \<open>hmap_inv (on_going_fetches f)\<close>] by (simp add: is_add_def)
  next
    case (NewPut now key ty)
    then show ?thesis
      using \<open>hmap_inv (on_going_fetches f)\<close>
      by (simp add: is_add_def notify_about_new_put_def next_keys_length_le hmap_retain_length)
  next
    case (FetchCompleted now key ty)
    then show ?thesis
      using \<open>hmap_inv (on_going_fetches f)\<close>
      by (simp add: is_add_def notify_fetch_early_completed_def next_keys_length_le hmap_retain_length)
  next
    case (NextKeys now)
    then show ?thesis
      using next_keys_length [OF \<open>hmap_inv (on_going_fetches f)\<close>] by (simp add: is_add_def)
  next
    case (FarthestOnFull key)
    then show ?thesis
      by (auto simp: is_add_def set_farthest_on_full_def Let_def hmap_retain_length
          intro: max.coboundedI2 split: option.splits)
  qed (simp add: is_add_def set_replication_distance_range_def)
qed

text \<open>The number of fetches in progress is at most the limit plus the number of replication
  lists received: a list with one new key is fetched at once, beyond the limit.\<close>

theorem fetches_bounded:
  "length (on_going_fetches (foldl (fetcher_step N) (fetcher_new p) es))
     \<le> MAX_PARALLEL_FETCH + length (filter is_add es)"
proof (induction es rule: rev_induct)
  case Nil
  then show ?case by (simp add: fetcher_new_def)
next
  case (snoc e es)
  from step_length [OF fetcher_inv_reachable, of N p es e] show ?case
    using snoc by (cases "is_add e") (auto simp: max_def split: if_splits)
qed

text \<open>A key that is stored locally is never fetched again, whatever the type and hash of
  the stored record: a different version of a stored spend or register that a peer announces is
  ignored.\<close>

theorem add_keys_ignores_stored:
  "add_keys N now f holder keys stored =
     add_keys N now f holder (filter (\<lambda>(addr, _). \<not> hmap_contains stored (to_record_key N addr)) keys) stored"
proof -
  have "new_incoming N f holder keys stored = new_incoming N f holder
      (filter (\<lambda>(addr, _). \<not> hmap_contains stored (to_record_key N addr)) keys) stored"
    by (auto simp: new_incoming_def case_prod_unfold intro: filter_cong)
  then show ?thesis by (simp add: add_keys_def)
qed

text \<open>A replication list with one new key is fetched at once, whatever the distance range
  of the fetcher.\<close>

theorem new_data_fetched_out_of_range:
  assumes "\<not> hmap_contains stored (to_record_key N addr)"
    and "\<not> hmap_contains (to_be_fetched f) (to_record_key N addr, t, holder)"
    and "\<not> hmap_contains (on_going_fetches f) (to_record_key N addr, t)"
    and "farthest_acceptable_distance f = None"
  shows "(holder, to_record_key N addr) \<in> set (snd (add_keys N now f holder [(addr, t)] stored))"
proof -
  have ks: "filter (\<lambda>(addr, _). in_farthest N (remove_stored_keys stored f) addr)
      (new_incoming N f holder [(addr, t)] stored) = [(addr, t)]"
    using assms by (simp add: new_incoming_def in_farthest_def)
  have "\<not> hmap_contains (on_going_fetches (remove_stored_keys stored f)) (to_record_key N addr, t)"
    using assms(3) by (auto simp: hmap_contains_iff remove_stored_keys_def hmap_retain_set)
  then show ?thesis
    unfolding add_keys_def Let_def ks by (simp add: fetch_new_data_def case_prod_unfold Let_def)
qed

theorem new_data_fetched_out_of_range_witness:
  "([7], [3]) \<in> set (snd (add_keys example_net 0 (set_replication_distance_range (fetcher_new [0]) 0) [7]
     [(RecordKeyAddress [3], ChunkType)] []))"
  using new_data_fetched_out_of_range [of "[]" example_net "RecordKeyAddress [3]"
      "set_replication_distance_range (fetcher_new [0]) 0" ChunkType "[7]" 0]
  by (simp add: hmap_contains_def set_replication_distance_range_def fetcher_new_def)


end
