(* ===== verification/Get_Record.thy ===== *)
theory Get_Record
  imports Spend_Validation Registers
begin

section \<open>Fetching a record from the network (sn\_networking/src/event/kad.rs, cmd.rs, driver.rs)\<close>

text \<open>
  The queries for records in progress, and how the copies that peers return are accumulated
  until a quorum of peers has returned the same content. The caller of a query waits on a
  one-shot channel: a channel is a number, \<open>alive\<close> tells whether its receiver still exists, and
  the answers sent are a field of the state. The network itself is the sequence of events.
\<close>

type_synonym query_id = nat
type_synonym sender = nat
type_synonym get_answer = "(get_record_error, kad_record) result"
type_synonym result_map = "(xor_name, kad_record \<times> peer_id list) hash_map"

record pending_get =
  pg_key :: record_key
  pg_senders :: "sender list"
  pg_results :: result_map
  pg_cfg :: get_record_cfg

record get_state =
  gs_self :: peer_id
  pending_get_record :: "(query_id, pending_get) hash_map"
  answers :: "(sender \<times> get_answer) list"

record 'm get_ops =
  go_net :: net_ops
  go_spends :: "signed_spend list codec"
  go_registers :: "'m signed_register codec"
  go_reg :: "'m reg_ops"
  go_alive :: "sender \<Rightarrow> bool"

subsection \<open>The target of a query (driver.rs)\<close>

definition does_target_match :: "'m get_ops \<Rightarrow> get_record_cfg \<Rightarrow> kad_record \<Rightarrow> bool" where
  "does_target_match G cfg r =
     (case target_record cfg of
        Some target \<Rightarrow>
          if is_register cfg
          then (case try_deserialize_record (go_registers G) r of
                  Inl _ \<Rightarrow> False
                | Inr fetched \<Rightarrow>
                    (case try_deserialize_record (go_registers G) target of
                       Inl _ \<Rightarrow> False
                     | Inr target_register \<Rightarrow>
                         register_read (go_reg G) (base_register target_register)
                           = register_read (go_reg G) (base_register fetched)))
          else target = r
      | None \<Rightarrow> True)"

subsection \<open>Answers\<close>

fun send_all ::
    "(sender \<Rightarrow> bool) \<Rightarrow> sender list \<Rightarrow> get_answer
      \<Rightarrow> (sender \<times> get_answer) list \<times> (network_error, unit) result" where
  "send_all alive [] res = ([], Ok ())"
| "send_all alive (s # senders) res =
     (if alive s
      then case send_all alive senders res of (sent, r) \<Rightarrow> ((s, res) # sent, r)
      else ([], Err InternalMsgChannelDropped))"

definition send_record_after_checking_target ::
    "'m get_ops \<Rightarrow> sender list \<Rightarrow> kad_record \<Rightarrow> get_record_cfg
      \<Rightarrow> (sender \<times> get_answer) list \<times> (network_error, unit) result" where
  "send_record_after_checking_target G senders r cfg =
     send_all (go_alive G) senders
       (if does_target_match G cfg r then Ok r else Err (RecordDoesNotMatch r))"

definition reply :: "get_state \<Rightarrow> (sender \<times> get_answer) list \<times> (network_error, unit) result
    \<Rightarrow> get_state \<times> (network_error, unit) result" where
  "reply st sent = (st \<lparr> answers := answers st @ fst sent \<rparr>, snd sent)"

subsection \<open>Handlers\<close>

definition get_network_record ::
    "query_id \<Rightarrow> get_state \<Rightarrow> record_key \<Rightarrow> sender \<Rightarrow> get_record_cfg \<Rightarrow> get_state" where
  "get_network_record query_id st key sender cfg =
     (case find (\<lambda>(_, p). pg_key p = key) (pending_get_record st) of
        Some (q, p) \<Rightarrow>
          st \<lparr> pending_get_record :=
                 AList.update q (p \<lparr> pg_senders := pg_senders p @ [sender] \<rparr>) (pending_get_record st) \<rparr>
      | None \<Rightarrow>
          st \<lparr> pending_get_record :=
                 AList.update query_id
                   \<lparr> pg_key = key, pg_senders = [sender], pg_results = [], pg_cfg = cfg \<rparr>
                   (pending_get_record st) \<rparr>)"

definition add_result :: "net_ops \<Rightarrow> result_map \<Rightarrow> peer_id \<Rightarrow> kad_record \<Rightarrow> result_map \<times> nat" where
  "add_result N rm peer r =
     (let h = xor_from_content N (rec_value r)
      in case map_of rm h of
           Some (r0, peers) \<Rightarrow>
             let peers' = (if peer \<in> set peers then peers else peers @ [peer])
             in (AList.update h (r0, peers') rm, length peers')
         | None \<Rightarrow> (AList.update h (r, [peer]) rm, 1))"

definition accumulated_spends :: "signed_spend list codec \<Rightarrow> result_map \<Rightarrow> signed_spend list" where
  "accumulated_spends C rm =
     fold (\<lambda>(_, r, _) acc. case get_raw_signed_spends_from_record C r of
             Inr spends \<Rightarrow> bset_extend signed_spend_key acc spends
           | Inl _ \<Rightarrow> acc) rm []"

definition remove_expected :: "peer_id \<Rightarrow> get_record_cfg \<Rightarrow> get_record_cfg" where
  "remove_expected peer cfg = cfg \<lparr> expected_holders := filter (\<lambda>p. p \<noteq> peer) (expected_holders cfg) \<rparr>"

definition finish_found ::
    "'m get_ops \<Rightarrow> get_state \<Rightarrow> sender list \<Rightarrow> result_map \<Rightarrow> get_record_cfg \<Rightarrow> kad_record
      \<Rightarrow> get_state \<times> (network_error, unit) result" where
  "finish_found G st senders rm cfg r =
     (if length rm = 1 then reply st (send_record_after_checking_target G senders r cfg)
      else
        let spends = accumulated_spends (go_spends G) rm
        in if spends \<noteq> []
           then case try_serialize_record (go_spends G) spends KSpend of
                  Inl e \<Rightarrow> (st, Err (ProtocolError e))
                | Inr bs \<Rightarrow>
                    reply st (send_all (go_alive G) senders (Ok \<lparr> rec_key = rec_key r, rec_value = bs \<rparr>))
           else reply st (send_all (go_alive G) senders
                  (Err (SplitRecord (map (\<lambda>(h, r, ps). (h, r, ps)) rm)))))"

definition accumulate_get_record_found ::
    "'m get_ops \<Rightarrow> get_state \<Rightarrow> query_id \<Rightarrow> peer_id option \<Rightarrow> kad_record
      \<Rightarrow> get_state \<times> (network_error, unit) result" where
  "accumulate_get_record_found G st query_id peer r =
     (let peer_id = case_option (gs_self st) id peer
      in case map_of (pending_get_record st) query_id of
           None \<Rightarrow> (st, Err ReceivedKademliaEventDropped)
         | Some p \<Rightarrow>
             let cfg = remove_expected peer_id (pg_cfg p);
                 (rm, responded_peers) = add_result (go_net G) (pg_results p) peer_id r
             in if responded_peers \<ge> get_quorum_value (get_quorum cfg)
                then finish_found G
                       (st \<lparr> pending_get_record := AList.delete query_id (pending_get_record st) \<rparr>)
                       (pg_senders p) rm cfg r
                else (st \<lparr> pending_get_record :=
                             AList.update query_id (p \<lparr> pg_results := rm, pg_cfg := cfg \<rparr>)
                               (pending_get_record st) \<rparr>, Ok ()))"

definition handle_get_record_finished ::
    "'m get_ops \<Rightarrow> get_state \<Rightarrow> query_id \<Rightarrow> get_state \<times> (network_error, unit) result" where
  "handle_get_record_finished G st query_id =
     (case map_of (pending_get_record st) query_id of
        None \<Rightarrow> (st, Ok ())
      | Some p \<Rightarrow>
          let st1 = st \<lparr> pending_get_record := AList.delete query_id (pending_get_record st) \<rparr>;
              res = (case pg_results p of
                       (_, r, from_peers) # rest \<Rightarrow>
                         if rest = []
                         then Err (NotEnoughCopies r (get_quorum_value (get_quorum (pg_cfg p)))
                                     (length from_peers))
                         else Err (SplitRecord (map (\<lambda>(h, r, ps). (h, r, ps)) (pg_results p)))
                     | [] \<Rightarrow> Err RecordNotFound)
          in reply st1 (send_all (go_alive G) (pg_senders p) res))"

definition handle_get_record_not_found ::
    "'m get_ops \<Rightarrow> get_state \<Rightarrow> query_id \<Rightarrow> get_state \<times> (network_error, unit) result" where
  "handle_get_record_not_found G st query_id =
     (case map_of (pending_get_record st) query_id of
        None \<Rightarrow> (st, Err ReceivedKademliaEventDropped)
      | Some p \<Rightarrow>
          reply (st \<lparr> pending_get_record := AList.delete query_id (pending_get_record st) \<rparr>)
            (send_all (go_alive G) (pg_senders p) (Err RecordNotFound)))"

definition handle_get_record_timeout ::
    "'m get_ops \<Rightarrow> get_state \<Rightarrow> query_id \<Rightarrow> get_state \<times> (network_error, unit) result" where
  "handle_get_record_timeout G st query_id =
     (case map_of (pending_get_record st) query_id of
        None \<Rightarrow> (st, Err ReceivedKademliaEventDropped)
      | Some p \<Rightarrow>
          let st1 = st \<lparr> pending_get_record := AList.delete query_id (pending_get_record st) \<rparr>;
              timeout = reply st1 (send_all (go_alive G) (pg_senders p) (Err QueryTimeout))
          in case pg_results p of
               [(_, r, peers)] \<Rightarrow>
                 if length peers \<ge> get_quorum_value (get_quorum (pg_cfg p))
                 then reply st1 (send_record_after_checking_target G (pg_senders p) r (pg_cfg p))
                 else timeout
             | _ \<Rightarrow> timeout)"

text \<open>The events a driver sees. The handlers' errors are only logged.\<close>

datatype get_event =
    Requested query_id record_key sender get_record_cfg
  | Found query_id "peer_id option" kad_record
  | Finished query_id
  | NotFound query_id
  | TimedOut query_id

fun get_step :: "'m get_ops \<Rightarrow> get_state \<Rightarrow> get_event \<Rightarrow> get_state" where
  "get_step G st (Requested q key s cfg) = get_network_record q st key s cfg"
| "get_step G st (Found q peer r) = fst (accumulate_get_record_found G st q peer r)"
| "get_step G st (Finished q) = fst (handle_get_record_finished G st q)"
| "get_step G st (NotFound q) = fst (handle_get_record_not_found G st q)"
| "get_step G st (TimedOut q) = fst (handle_get_record_timeout G st q)"

definition get_init :: "peer_id \<Rightarrow> get_state" where
  "get_init self = \<lparr> gs_self = self, pending_get_record = [], answers = [] \<rparr>"

subsection \<open>What an answer rests on\<close>

text \<open>A copy that a peer returned for a query, and the two ways in which a record can be given to
  a caller: a quorum of different peers returned its content and it matches the target, or
  peers returned different versions of a spend, which are put together into one record.\<close>

definition found_by :: "peer_id \<Rightarrow> get_event list \<Rightarrow> query_id \<Rightarrow> peer_id \<Rightarrow> kad_record \<Rightarrow> bool" where
  "found_by self es q p r \<longleftrightarrow> (\<exists>o'. Found q o' r \<in> set es \<and> case_option self id o' = p)"

definition supported :: "net_ops \<Rightarrow> peer_id \<Rightarrow> get_event list \<Rightarrow> query_id \<Rightarrow> xor_name \<Rightarrow> peer_id list \<Rightarrow> bool" where
  "supported N self es q h ps \<longleftrightarrow>
     distinct ps \<and> (\<forall>p \<in> set ps. \<exists>r. found_by self es q p r \<and> xor_from_content N (rec_value r) = h)"

definition same_target :: "get_record_cfg \<Rightarrow> get_record_cfg \<Rightarrow> bool" where
  "same_target c d \<longleftrightarrow> get_quorum c = get_quorum d \<and> target_record c = target_record d
     \<and> is_register c = is_register d"

definition by_quorum ::
    "'m get_ops \<Rightarrow> peer_id \<Rightarrow> get_event list \<Rightarrow> query_id \<Rightarrow> get_record_cfg \<Rightarrow> kad_record \<Rightarrow> bool" where
  "by_quorum G self es q cfg r \<longleftrightarrow> does_target_match G cfg r
     \<and> (\<exists>ps. supported (go_net G) self es q (xor_from_content (go_net G) (rec_value r)) ps
          \<and> get_quorum_value (get_quorum cfg) \<le> length ps)"

definition by_spends :: "'m get_ops \<Rightarrow> peer_id \<Rightarrow> get_event list \<Rightarrow> query_id \<Rightarrow> kad_record \<Rightarrow> bool" where
  "by_spends G self es q r \<longleftrightarrow>
     (\<exists>spends. spends \<noteq> [] \<and> try_serialize_record (go_spends G) spends KSpend = Ok (rec_value r)
        \<and> (\<forall>sp \<in> set spends. \<exists>p r' l. found_by self es q p r'
             \<and> get_raw_signed_spends_from_record (go_spends G) r' = Ok l \<and> sp \<in> set l))"

definition justified :: "'m get_ops \<Rightarrow> peer_id \<Rightarrow> get_event list \<Rightarrow> kad_record \<Rightarrow> bool" where
  "justified G self es r \<longleftrightarrow>
     (\<exists>q key s cfg. Requested q key s cfg \<in> set es
        \<and> (by_quorum G self es q cfg r \<or> by_spends G self es q r))"

definition results_ok :: "net_ops \<Rightarrow> peer_id \<Rightarrow> get_event list \<Rightarrow> query_id \<Rightarrow> result_map \<Rightarrow> bool" where
  "results_ok N self es q rm \<longleftrightarrow> hmap_inv rm
     \<and> (\<forall>e \<in> set rm. supported N self es q (fst e) (snd (snd e))
          \<and> xor_from_content N (rec_value (fst (snd e))) = fst e
          \<and> (\<exists>p. found_by self es q p (fst (snd e))))"

definition entry_ok :: "net_ops \<Rightarrow> peer_id \<Rightarrow> get_event list \<Rightarrow> query_id \<Rightarrow> pending_get \<Rightarrow> bool" where
  "entry_ok N self es q p \<longleftrightarrow> results_ok N self es q (pg_results p)
     \<and> (\<exists>key s cfg. Requested q key s cfg \<in> set es \<and> same_target (pg_cfg p) cfg)"

definition get_inv :: "'m get_ops \<Rightarrow> peer_id \<Rightarrow> get_event list \<Rightarrow> get_state \<Rightarrow> bool" where
  "get_inv G self es st \<longleftrightarrow> gs_self st = self
     \<and> (\<forall>e \<in> set (pending_get_record st). entry_ok (go_net G) self es (fst e) (snd e))
     \<and> (\<forall>s r. (s, Inr r) \<in> set (answers st) \<longrightarrow> justified G self es r)"

lemma found_by_mono: "found_by self es q p r \<Longrightarrow> found_by self (es @ es') q p r"
  by (auto simp: found_by_def)

lemma supported_mono: "supported N self es q h ps \<Longrightarrow> supported N self (es @ es') q h ps"
  unfolding supported_def using found_by_mono by blast

lemma by_quorum_mono: "by_quorum G self es q cfg r \<Longrightarrow> by_quorum G self (es @ es') q cfg r"
  unfolding by_quorum_def by (elim conjE exE, intro conjI exI, assumption, erule supported_mono)

lemma by_spends_mono: "by_spends G self es q r \<Longrightarrow> by_spends G self (es @ es') q r"
  unfolding by_spends_def by (meson found_by_mono)

lemma justified_mono: "justified G self es r \<Longrightarrow> justified G self (es @ es') r"
  unfolding justified_def set_append Un_iff by (meson by_quorum_mono by_spends_mono)

lemma results_ok_mono: "results_ok N self es q rm \<Longrightarrow> results_ok N self (es @ es') q rm"
  unfolding results_ok_def by (meson found_by_mono supported_mono)

lemma entry_ok_mono: "entry_ok N self es q p \<Longrightarrow> entry_ok N self (es @ es') q p"
  unfolding entry_ok_def set_append Un_iff by (meson results_ok_mono)

lemma get_inv_mono: "get_inv G self es st \<Longrightarrow> get_inv G self (es @ es') st"
  unfolding get_inv_def by (meson entry_ok_mono justified_mono)

lemma does_target_match_cong:
  "same_target c d \<Longrightarrow> does_target_match G c r = does_target_match G d r"
  by (simp add: same_target_def does_target_match_def split: option.split)

lemma same_target_remove_expected: "same_target (remove_expected p c) d = same_target c d"
  by (simp add: same_target_def remove_expected_def)

text \<open>Adding a copy keeps the results supported.\<close>

lemma add_result_ok:
  assumes "results_ok N self es q rm" and "found_by self es q peer r"
    and "add_result N rm peer r = (rm', n)"
  shows "results_ok N self es q rm'"
    and "\<exists>r0 ps. map_of rm' (xor_from_content N (rec_value r)) = Some (r0, ps) \<and> n = length ps"
proof -
  let ?h = "xor_from_content N (rec_value r)"
  show "\<exists>r0 ps. map_of rm' ?h = Some (r0, ps) \<and> n = length ps"
    using assms(3) by (auto simp: add_result_def Let_def update_conv split: option.splits)
  obtain r0 ps where rm': "rm' = AList.update ?h (r0, ps) rm" and ps: "supported N self es q ?h ps"
    and r0: "xor_from_content N (rec_value r0) = ?h" "\<exists>p. found_by self es q p r0"
  proof (cases "map_of rm ?h")
    case None
    then show ?thesis
      using assms(2,3) that [of r "[peer]"] by (auto simp: add_result_def supported_def)
  next
    case (Some e)
    obtain r0 qs where e: "e = (r0, qs)" by (cases e)
    then have "(?h, r0, qs) \<in> set rm" using Some by (simp add: map_of_SomeD)
    then have "supported N self es q ?h qs" and r0: "xor_from_content N (rec_value r0) = ?h"
      "\<exists>p. found_by self es q p r0" using assms(1) by (force simp: results_ok_def)+
    then have "supported N self es q ?h (if peer \<in> set qs then qs else qs @ [peer])"
      using assms(2) by (auto simp: supported_def)
    then show ?thesis
      using assms(3) Some e r0 that [of r0 "if peer \<in> set qs then qs else qs @ [peer]"]
      by (simp add: add_result_def Let_def)
  qed
  show "results_ok N self es q rm'"
    unfolding results_ok_def
  proof (intro conjI ballI)
    show "hmap_inv rm'" using assms(1) rm' by (simp add: results_ok_def)
    fix e assume "e \<in> set rm'"
    then have "e = (?h, r0, ps) \<or> e \<in> set rm"
      using set_update_subset [of ?h "(r0, ps)" rm] rm' by blast
    then show "supported N self es q (fst e) (snd (snd e))"
      and "xor_from_content N (rec_value (fst (snd e))) = fst e"
      and "\<exists>p. found_by self es q p (fst (snd e))"
      using assms(1) ps r0 by (auto simp: results_ok_def)
  qed
qed

lemma accumulate_fold:
  "set (fold (\<lambda>(_, r, _) acc. case get_raw_signed_spends_from_record C r of
           Inr spends \<Rightarrow> bset_extend signed_spend_key acc spends | Inl _ \<Rightarrow> acc) rm acc)
   \<subseteq> set acc \<union> {sp. \<exists>e l. e \<in> set rm
      \<and> get_raw_signed_spends_from_record C (fst (snd e)) = Ok l \<and> sp \<in> set l}"
    (is "set (fold ?f rm acc) \<subseteq> _ \<union> ?found rm")
proof (induction rm arbitrary: acc)
  case (Cons e rm)
  have "set (?f e acc) \<subseteq> set acc \<union> ?found (e # rm)"
  proof (cases "get_raw_signed_spends_from_record C (fst (snd e))")
    case (Inr l)
    then have "set l \<subseteq> ?found (e # rm)"
      by (intro subsetI CollectI exI [of _ e] exI [of _ l]) simp
    then show ?thesis
      using bset_extend_subset [of signed_spend_key acc l] Inr by (auto simp: case_prod_unfold)
  qed (simp add: case_prod_unfold)
  moreover have "?found rm \<subseteq> ?found (e # rm)" by auto
  ultimately show ?case using Cons.IH [of "?f e acc"] by (simp only: fold_simps) blast
qed simp

lemma accumulated_spends_found:
  assumes "sp \<in> set (accumulated_spends C rm)"
  shows "\<exists>e l. e \<in> set rm \<and> get_raw_signed_spends_from_record C (fst (snd e)) = Ok l \<and> sp \<in> set l"
  using assms accumulate_fold [of C rm "[]"] unfolding accumulated_spends_def by fastforce

lemma send_all_answers: "(s, a) \<in> set (fst (send_all alive ss res)) \<Longrightarrow> a = res \<and> s \<in> set ss"
  by (induction ss) (auto split: if_splits prod.splits)

lemma send_all_oks:
  "(s, Inr r) \<in> set (fst (send_all alive ss res)) \<Longrightarrow> res = Ok r"
  using send_all_answers by metis

text \<open>The invariant of the queries in flight, one handler at a time.\<close>

lemma get_inv_reply:
  assumes "get_inv G self es st"
    and "\<And>s r. (s, Inr r) \<in> set (fst sent) \<Longrightarrow> justified G self es r"
  shows "get_inv G self es (fst (reply st sent))"
  using assms unfolding get_inv_def reply_def by auto

lemma get_inv_reply_err:
  "get_inv G self es st \<Longrightarrow> get_inv G self es (fst (reply st (send_all alive ss (Err e))))"
  by (rule get_inv_reply) (auto dest: send_all_oks)

lemma get_inv_delete:
  assumes "get_inv G self es st"
  shows "get_inv G self es (st \<lparr> pending_get_record := AList.delete q (pending_get_record st) \<rparr>)"
  using assms set_delete_subset [of q "pending_get_record st"] unfolding get_inv_def by auto

lemma get_inv_update:
  assumes "get_inv G self es st" and "entry_ok (go_net G) self es q p"
  shows "get_inv G self es (st \<lparr> pending_get_record := AList.update q p (pending_get_record st) \<rparr>)"
  using assms set_update_subset [of q p "pending_get_record st"] unfolding get_inv_def by auto

lemma get_inv_entry:
  assumes "get_inv G self es st" and "map_of (pending_get_record st) q = Some p"
  shows "entry_ok (go_net G) self es q p"
  using assms map_of_SomeD [of "pending_get_record st" q p] unfolding get_inv_def by fastforce

lemma get_inv_request:
  assumes "get_inv G self es st" and "Requested q key s cfg \<in> set es"
  shows "get_inv G self es (get_network_record q st key s cfg)"
proof (cases "find (\<lambda>(_, p). pg_key p = key) (pending_get_record st)")
  case None
  have "entry_ok (go_net G) self es q \<lparr> pg_key = key, pg_senders = [s], pg_results = [], pg_cfg = cfg \<rparr>"
    using assms(2) by (force simp: entry_ok_def results_ok_def same_target_def hmap_inv_def)
  then show ?thesis using None assms(1) by (simp add: get_network_record_def get_inv_update)
next
  case (Some e)
  then have "e \<in> set (pending_get_record st)" by (metis find_Some_iff nth_mem)
  then have "entry_ok (go_net G) self es (fst e) (snd e)" using assms(1) by (auto simp: get_inv_def)
  then have "entry_ok (go_net G) self es (fst e) ((snd e) \<lparr> pg_senders := pg_senders (snd e) @ [s] \<rparr>)"
    by (simp add: entry_ok_def)
  then show ?thesis
    using Some assms(1) by (simp add: get_network_record_def get_inv_update case_prod_unfold)
qed

lemma send_checked_justified:
  assumes "results_ok (go_net G) self es q rm" and "(h, r0, ps) \<in> set rm"
    and "xor_from_content (go_net G) (rec_value r) = h"
    and "get_quorum_value (get_quorum cfg) \<le> length ps"
    and "Requested q key s cfg' \<in> set es" and "same_target cfg cfg'"
    and "(t, Inr r') \<in> set (fst (send_record_after_checking_target G ss r cfg))"
  shows "justified G self es r'"
proof -
  have "does_target_match G cfg r" and r': "r' = r"
    using send_all_oks [OF assms(7) [unfolded send_record_after_checking_target_def]]
    by (auto split: if_splits)
  then have "does_target_match G cfg' r" using does_target_match_cong [OF assms(6)] by metis
  moreover have "supported (go_net G) self es q h ps"
    using assms(1,2) unfolding results_ok_def by fastforce
  moreover have "get_quorum cfg' = get_quorum cfg" using assms(6) by (simp add: same_target_def)
  ultimately have "by_quorum G self es q cfg' r"
    using assms(3,4) unfolding by_quorum_def by auto
  then show ?thesis using assms(5) r' unfolding justified_def by blast
qed

lemma accumulated_justified:
  assumes "results_ok (go_net G) self es q rm" and "accumulated_spends (go_spends G) rm \<noteq> []"
    and "try_serialize_record (go_spends G) (accumulated_spends (go_spends G) rm) KSpend = Ok (rec_value r)"
    and "Requested q key s cfg \<in> set es"
  shows "justified G self es r"
proof -
  have "\<exists>p r' l. found_by self es q p r' \<and> get_raw_signed_spends_from_record (go_spends G) r' = Ok l
          \<and> sp \<in> set l" if sp: "sp \<in> set (accumulated_spends (go_spends G) rm)" for sp
  proof -
    obtain e l where e: "e \<in> set rm" "get_raw_signed_spends_from_record (go_spends G) (fst (snd e)) = Ok l"
      "sp \<in> set l" using accumulated_spends_found [OF sp] by blast
    then obtain p where "found_by self es q p (fst (snd e))"
      using assms(1) unfolding results_ok_def by blast
    then show ?thesis using e by blast
  qed
  then have "by_spends G self es q r" using assms(2,3) unfolding by_spends_def by blast
  then show ?thesis using assms(4) unfolding justified_def by blast
qed

lemma get_inv_finish:
  assumes "get_inv G self es st" and "results_ok (go_net G) self es q rm"
    and "map_of rm (xor_from_content (go_net G) (rec_value r)) = Some (r0, ps)"
    and "get_quorum_value (get_quorum cfg) \<le> length ps"
    and "Requested q key s cfg' \<in> set es" and "same_target cfg cfg'"
  shows "get_inv G self es (fst (finish_found G st senders rm cfg r))"
proof -
  have m: "(xor_from_content (go_net G) (rec_value r), r0, ps) \<in> set rm"
    using assms(3) by (rule map_of_SomeD)
  have one: "get_inv G self es (fst (reply st (send_record_after_checking_target G senders r cfg)))"
    using assms(1) send_checked_justified [OF assms(2) m refl assms(4,5,6)] by (rule get_inv_reply)
  have many: "get_inv G self es (fst (reply st (send_all (go_alive G) senders
      (Ok \<lparr> rec_key = rec_key r, rec_value = bs \<rparr>))))"
    if bs: "try_serialize_record (go_spends G) (accumulated_spends (go_spends G) rm) KSpend = Ok bs"
      and ne: "accumulated_spends (go_spends G) rm \<noteq> []" for bs
  proof (rule get_inv_reply [OF assms(1)])
    fix t r' assume "(t, Inr r') \<in> set (fst (send_all (go_alive G) senders
      (Ok \<lparr> rec_key = rec_key r, rec_value = bs \<rparr>)))"
    then have "rec_value r' = bs" by (auto dest!: send_all_oks)
    then show "justified G self es r'"
      using accumulated_justified [OF assms(2) ne _ assms(5)] bs by simp
  qed
  show ?thesis
    using one many assms(1) unfolding finish_found_def Let_def
    by (simp add: get_inv_reply_err split: sum.split)
qed

lemma get_inv_found:
  assumes "get_inv G self es st" and "Found q peer r \<in> set es"
  shows "get_inv G self es (fst (accumulate_get_record_found G st q peer r))"
proof (cases "map_of (pending_get_record st) q")
  case (Some p)
  let ?peer = "case_option (gs_self st) id peer"
  let ?cfg = "remove_expected ?peer (pg_cfg p)"
  obtain rm n where add: "add_result (go_net G) (pg_results p) ?peer r = (rm, n)" by fastforce
  have self: "gs_self st = self" using assms(1) by (simp add: get_inv_def)
  have ok: "entry_ok (go_net G) self es q p" using get_inv_entry [OF assms(1) Some] .
  then obtain key s cfg' where req: "Requested q key s cfg' \<in> set es" and "same_target (pg_cfg p) cfg'"
    and res: "results_ok (go_net G) self es q (pg_results p)" unfolding entry_ok_def by blast
  then have tgt: "same_target ?cfg cfg'" by (simp add: same_target_remove_expected)
  have "found_by self es q ?peer r" using assms(2) self unfolding found_by_def by blast
  note add_ok = add_result_ok [OF res this add]
  obtain r0 ps where ps: "map_of rm (xor_from_content (go_net G) (rec_value r)) = Some (r0, ps)"
    and n: "n = length ps" using add_ok(2) by blast
  have upd: "entry_ok (go_net G) self es q (p \<lparr> pg_results := rm, pg_cfg := ?cfg \<rparr>)"
    using add_ok(1) req tgt unfolding entry_ok_def by auto
  show ?thesis
  proof (cases "get_quorum_value (get_quorum ?cfg) \<le> n")
    case True
    then show ?thesis
      using get_inv_finish [OF get_inv_delete [OF assms(1)] add_ok(1) ps _ req tgt] Some add n
      by (simp add: accumulate_get_record_found_def Let_def)
  next
    case False
    then show ?thesis
      using get_inv_update [OF assms(1) upd] Some add
      by (simp add: accumulate_get_record_found_def Let_def)
  qed
qed (use assms in \<open>simp add: accumulate_get_record_found_def\<close>)

lemma get_inv_timeout:
  assumes "get_inv G self es st"
  shows "get_inv G self es (fst (handle_get_record_timeout G st q))"
proof (cases "map_of (pending_get_record st) q")
  case (Some p)
  let ?st = "st \<lparr> pending_get_record := AList.delete q (pending_get_record st) \<rparr>"
  note del = get_inv_delete [OF assms, of q]
  note err = get_inv_reply_err [OF del, of "go_alive G" "pg_senders p" QueryTimeout]
  have "get_inv G self es (fst (reply ?st (send_record_after_checking_target G (pg_senders p) r (pg_cfg p))))"
    if one: "pg_results p = [(h, r, ps)]" and quorum: "get_quorum_value (get_quorum (pg_cfg p)) \<le> length ps"
    for h r ps
  proof (rule get_inv_reply [OF del])
    fix t r' assume sent: "(t, Inr r') \<in> set (fst (send_record_after_checking_target G (pg_senders p) r (pg_cfg p)))"
    obtain key s cfg' where req: "Requested q key s cfg' \<in> set es" and tgt: "same_target (pg_cfg p) cfg'"
      and res: "results_ok (go_net G) self es q (pg_results p)"
      using get_inv_entry [OF assms Some] unfolding entry_ok_def by blast
    have "(h, r, ps) \<in> set (pg_results p)" and "xor_from_content (go_net G) (rec_value r) = h"
      using one res by (simp_all add: results_ok_def)
    then show "justified G self es r'" by (rule send_checked_justified [OF res _ _ quorum req tgt sent])
  qed
  then show ?thesis
    using err Some by (auto simp: handle_get_record_timeout_def Let_def split: list.split prod.split)
qed (use assms in \<open>simp add: handle_get_record_timeout_def\<close>)

lemma get_inv_finished:
  assumes "get_inv G self es st"
  shows "get_inv G self es (fst (handle_get_record_finished G st q))"
  using assms get_inv_reply_err [OF get_inv_delete [OF assms, of q]]
  by (auto simp: handle_get_record_finished_def Let_def split: option.split list.split prod.split)

lemma get_inv_not_found:
  assumes "get_inv G self es st"
  shows "get_inv G self es (fst (handle_get_record_not_found G st q))"
  using assms get_inv_reply_err [OF get_inv_delete [OF assms, of q]]
  by (auto simp: handle_get_record_not_found_def split: option.split)

lemma get_inv_step:
  assumes "get_inv G self es st"
  shows "get_inv G self (es @ [e]) (get_step G st e)"
  using get_inv_mono [OF assms, of "[e]"]
  by (cases e) (simp_all add: get_inv_request get_inv_found get_inv_timeout get_inv_finished get_inv_not_found)

lemma get_inv_run: "get_inv G self es (foldl (get_step G) (get_init self) es)"
proof (induction es rule: rev_induct)
  case Nil
  show ?case by (simp add: get_inv_def get_init_def)
qed (simp add: get_inv_step)

subsection \<open>Who is answered\<close>

text \<open>The callers waiting in the queries in flight, the callers of a sequence of events, and the
  identifiers of their queries, which libp2p makes fresh.\<close>

definition waiting_of :: "(query_id, pending_get) hash_map \<Rightarrow> sender list" where
  "waiting_of l = callers_of pg_senders l"

fun requester :: "get_event \<Rightarrow> (query_id \<times> sender) list" where
  "requester (Requested q _ s _) = [(q, s)]"
| "requester _ = []"

definition requesters :: "get_event list \<Rightarrow> (query_id \<times> sender) list" where
  "requesters es = concat (map requester es)"

lemma waiting_delete:
  "hmap_inv l \<Longrightarrow> map_of l q = Some p
     \<Longrightarrow> mset (waiting_of l) = mset (pg_senders p) + mset (waiting_of (AList.delete q l))"
  unfolding waiting_of_def by (rule callers_delete)

lemma waiting_insert:
  "map_of l q = None \<Longrightarrow> mset (waiting_of (AList.update q p l)) = mset (pg_senders p) + mset (waiting_of l)"
  unfolding waiting_of_def by (rule callers_insert)

lemma waiting_update:
  "map_of l q = Some p \<Longrightarrow>
     mset (waiting_of (AList.update q p' l)) + mset (pg_senders p) = mset (pg_senders p') + mset (waiting_of l)"
  unfolding waiting_of_def by (rule callers_update)

lemma send_all_alive:
  "(\<And>s. alive s) \<Longrightarrow> map fst (fst (send_all alive ss res)) = ss"
  by (induction ss) (auto split: prod.split)

definition accounted :: "get_event list \<Rightarrow> get_state \<Rightarrow> bool" where
  "accounted es st \<longleftrightarrow> hmap_inv (pending_get_record st)
     \<and> fst ` set (pending_get_record st) \<subseteq> fst ` set (requesters es)
     \<and> mset (map fst (answers st)) + mset (waiting_of (pending_get_record st)) = mset (map snd (requesters es))"

lemma accounted_answer:
  assumes "accounted es st" and "map_of (pending_get_record st) q = Some p" and "\<And>s. go_alive G s"
  shows "accounted es (fst (reply (st \<lparr> pending_get_record := AList.delete q (pending_get_record st) \<rparr>)
           (send_all (go_alive G) (pg_senders p) res)))"
  using assms(1) waiting_delete [OF _ assms(2)] send_all_alive [of "go_alive G" "pg_senders p" res] assms(3)
    set_delete_subset [of q "pending_get_record st"]
  unfolding accounted_def reply_def by (auto simp: ac_simps)

lemma accounted_request:
  assumes "accounted es st" and "q \<notin> fst ` set (requesters es)"
  shows "accounted (es @ [Requested q key s cfg]) (get_network_record q st key s cfg)"
proof (cases "find (\<lambda>(_, p). pg_key p = key) (pending_get_record st)")
  case None
  have "map_of (pending_get_record st) q = None"
    using assms by (auto simp: accounted_def map_of_eq_None_iff)
  then show ?thesis
    using None assms(1) waiting_insert [of "pending_get_record st" q]
    by (auto simp: get_network_record_def accounted_def requesters_def keys_update)
next
  case (Some e)
  obtain q' p where e: "e = (q', p)" by (cases e)
  have "e \<in> set (pending_get_record st)" using Some by (metis find_Some_iff nth_mem)
  then have m: "map_of (pending_get_record st) q' = Some p"
    using assms(1) e by (simp add: accounted_def hmap_inv_def)
  have "mset (waiting_of (AList.update q' (p \<lparr> pg_senders := pg_senders p @ [s] \<rparr>) (pending_get_record st)))
      = add_mset s (mset (waiting_of (pending_get_record st)))"
    using waiting_update [OF m, of "p \<lparr> pg_senders := pg_senders p @ [s] \<rparr>"] by simp
  moreover have "q' \<in> fst ` set (pending_get_record st)" using m by (metis domI dom_map_of_conv_image_fst)
  ultimately show ?thesis
    using Some e assms(1) by (auto simp: get_network_record_def accounted_def requesters_def keys_update)
qed

lemma accounted_found:
  assumes "accounted es st" and "\<And>s. go_alive G s"
    and "\<And>spends. is_ok (try_serialize_record (go_spends G) spends KSpend)"
  shows "accounted es (fst (accumulate_get_record_found G st q peer r))"
proof (cases "map_of (pending_get_record st) q")
  case (Some p)
  note ans = accounted_answer [OF assms(1) Some assms(2)]
  let ?peer = "case_option (gs_self st) id peer"
  obtain rm n where add: "add_result (go_net G) (pg_results p) ?peer r = (rm, n)" by fastforce
  let ?st = "st \<lparr> pending_get_record := AList.delete q (pending_get_record st) \<rparr>"
  have fin: "accounted es (fst (finish_found G ?st (pg_senders p) rm cfg r))" for cfg
    using ans assms(3) [of "accumulated_spends (go_spends G) rm"]
    by (cases "try_serialize_record (go_spends G) (accumulated_spends (go_spends G) rm) KSpend")
      (simp_all add: finish_found_def send_record_after_checking_target_def Let_def)
  have "accounted es (st \<lparr> pending_get_record := AList.update q
      (p \<lparr> pg_results := rm, pg_cfg := cfg \<rparr>) (pending_get_record st) \<rparr>)" for cfg
  proof -
    have "q \<in> fst ` set (pending_get_record st)" using Some by (metis domI dom_map_of_conv_image_fst)
    then show ?thesis
      using assms(1) waiting_update [OF Some, of "p \<lparr> pg_results := rm, pg_cfg := cfg \<rparr>"]
      by (auto simp: accounted_def keys_update)
  qed
  then show ?thesis using fin Some add by (simp add: accumulate_get_record_found_def Let_def)
qed (use assms in \<open>simp add: accumulate_get_record_found_def\<close>)

lemma accounted_ends:
  assumes "accounted es st" and "\<And>s. go_alive G s"
  shows "accounted es (fst (handle_get_record_finished G st q))"
    and "accounted es (fst (handle_get_record_not_found G st q))"
    and "accounted es (fst (handle_get_record_timeout G st q))"
  using assms(1) accounted_answer [OF assms(1) _ assms(2)]
  by (auto simp: handle_get_record_finished_def handle_get_record_not_found_def Let_def
      handle_get_record_timeout_def send_record_after_checking_target_def
      split: option.split list.split)

lemma accounted_run:
  assumes "\<And>s. go_alive G s" and "\<And>spends. is_ok (try_serialize_record (go_spends G) spends KSpend)"
    and "distinct (map fst (requesters es))"
  shows "accounted es (foldl (get_step G) (get_init self) es)"
  using assms(3)
proof (induction es rule: rev_induct)
  case Nil
  show ?case by (simp add: accounted_def get_init_def requesters_def waiting_of_def)
next
  case (snoc e es)
  let ?st = "foldl (get_step G) (get_init self) es"
  have IH: "accounted es ?st" using snoc by (simp add: requesters_def)
  have other: "accounted (es @ [e]) st'" if "accounted es st'" "requester e = []" for st'
    using that by (simp add: accounted_def requesters_def)
  show ?case
  proof (cases e)
    case (Requested q key s cfg)
    then have "q \<notin> fst ` set (requesters es)" using snoc.prems by (simp add: requesters_def)
    then show ?thesis using accounted_request [OF IH] Requested by simp
  qed (use other accounted_found [OF IH assms(1,2)] accounted_ends [OF IH assms(1)] in simp_all)
qed

subsection \<open>Properties\<close>

text \<open>C17: a caller is given a record only when it was justified by the copies that peers returned
  for one query: as many different peers as the query's quorum asks for returned its content
  and it matches the query's target, or it is the collection of the spends that peers returned.\<close>

theorem get_answers_justified:
  assumes "(s, Ok r) \<in> set (answers (foldl (get_step G) (get_init self) es))"
  shows "\<exists>q key s' cfg. Requested q key s' cfg \<in> set es
     \<and> (by_quorum G self es q cfg r \<or> by_spends G self es q r)"
  using assms get_inv_run [of G self es] unfolding get_inv_def justified_def by blast


text \<open>A call for a record whose key is being fetched joins that query, and its own
  configuration is dropped: whatever quorum and target the second caller asks for, one copy
  answers it when the first caller was content with one.\<close>

theorem joined_query_ignores_cfg:
  assumes "go_alive G s1" and "go_alive G s2" and "get_quorum c1 = QOne" and "target_record c1 = None"
  shows "answers (foldl (get_step G) (get_init self)
           [Requested q1 key s1 c1, Requested q2 key s2 c2, Found q1 peer r]) = [(s1, Ok r), (s2, Ok r)]"
  using assms
  by (simp add: get_init_def get_network_record_def accumulate_get_record_found_def add_result_def
      remove_expected_def finish_found_def reply_def send_record_after_checking_target_def
      does_target_match_def Let_def)

text \<open>A caller that gave up takes the other callers of the same key with it: when the first
  receiver is dropped, the answer is sent to nobody and the query is forgotten.\<close>

theorem dropped_caller_starves_others:
  assumes "\<not> go_alive G s1" and "get_quorum c1 = QOne" and "target_record c1 = None"
  shows "foldl (get_step G) (get_init self)
           [Requested q1 key s1 c1, Requested q2 key s2 c2, Found q1 peer r] = get_init self"
  using assms
  by (simp add: get_init_def get_network_record_def accumulate_get_record_found_def add_result_def
      remove_expected_def finish_found_def reply_def send_record_after_checking_target_def
      does_target_match_def Let_def)

subsection \<open>Examples\<close>

definition unit_codec :: "'a codec" where
  "unit_codec = \<lparr> enc_header = (\<lambda>n. Some [145, ucast n]), dec_header = (\<lambda>_. None),
                  enc_payload = (\<lambda>_. Some [1]), dec_payload = (\<lambda>_. None) \<rparr>"

definition example_get :: "sender list \<Rightarrow> merkle_node list get_ops" where
  "example_get dropped = \<lparr> go_net = example_net, go_spends = unit_codec, go_registers = null_codec,
                           go_reg = list_merkle, go_alive = (\<lambda>s. s \<notin> set dropped) \<rparr>"

definition example_cfg :: "quorum \<Rightarrow> get_record_cfg" where
  "example_cfg quorum = \<lparr> get_quorum = quorum, cfg_retry_strategy = None, target_record = None,
                          expected_holders = [], is_register = False \<rparr>"

definition example_events :: "get_event list" where
  "example_events =
     [Requested 0 [1] 7 (example_cfg (QN 2)), Found 0 (Some [2]) \<lparr> rec_key = [1], rec_value = [5] \<rparr>,
      Found 0 (Some [3]) \<lparr> rec_key = [1], rec_value = [5] \<rparr>]"

lemma example_run:
  "foldl (get_step (example_get [])) (get_init [0]) example_events
   = \<lparr> gs_self = [0], pending_get_record = [], answers = [(7, Ok \<lparr> rec_key = [1], rec_value = [5] \<rparr>)] \<rparr>"
  by (simp add: example_events_def example_get_def example_cfg_def get_init_def get_network_record_def
      accumulate_get_record_found_def add_result_def remove_expected_def finish_found_def reply_def
      send_record_after_checking_target_def does_target_match_def Let_def)

theorem get_answers_justified_witness:
  "(7, Ok \<lparr> rec_key = [1], rec_value = [5] \<rparr>)
     \<in> set (answers (foldl (get_step (example_get [])) (get_init [0]) example_events))
   \<and> (\<exists>q key s' cfg. Requested q key s' cfg \<in> set example_events
     \<and> (by_quorum (example_get []) [0] example_events q cfg \<lparr> rec_key = [1], rec_value = [5] \<rparr>
        \<or> by_spends (example_get []) [0] example_events q \<lparr> rec_key = [1], rec_value = [5] \<rparr>))"
  using get_answers_justified [of 7 "\<lparr> rec_key = [1], rec_value = [5] \<rparr>" "example_get []" "[0]" example_events]
  by (simp add: example_run)


theorem joined_query_ignores_cfg_witness:
  "answers (foldl (get_step (example_get [])) (get_init [0])
     [Requested 0 [1] 7 (example_cfg QOne), Requested 1 [1] 8 (example_cfg QAll),
      Found 0 (Some [2]) \<lparr> rec_key = [1], rec_value = [5] \<rparr>])
   = [(7, Ok \<lparr> rec_key = [1], rec_value = [5] \<rparr>), (8, Ok \<lparr> rec_key = [1], rec_value = [5] \<rparr>)]"
  by (rule joined_query_ignores_cfg) (simp_all add: example_get_def example_cfg_def)

theorem dropped_caller_starves_others_witness:
  "foldl (get_step (example_get [7])) (get_init [0])
     [Requested 0 [1] 7 (example_cfg QOne), Requested 1 [1] 8 (example_cfg QOne),
      Found 0 (Some [2]) \<lparr> rec_key = [1], rec_value = [5] \<rparr>] = get_init [0]"
  by (rule dropped_caller_starves_others) (simp_all add: example_get_def example_cfg_def)

end
