(* ===== verification/Wallet_Keys.thy ===== *)
theory Wallet_Keys
  imports Payments
begin

section \<open>Keys of a wallet (sn\_transfers/src/wallet: keys.rs, encryption.rs, authentication.rs)\<close>

text \<open>
  The secret key of a wallet on disk, plain or encrypted under a password, and the manager that
  keeps the password for two minutes. The key derivation, the authenticated cipher, the hex
  encoding and the decoding of a BLS key are third-party libraries: the record \<open>key_ops\<close>. The
  files are fields of \<open>wallet_disk\<close>, each absent or holding the value that was serialised
  into it; reading and writing of a file succeeds. Paths in errors are left out, as there is
  one wallet directory. An index out of range is the error \<open>Panicked\<close>.
\<close>

datatype wallet_error =
    CurrentAndLoadedKeyMismatch
  | DoubleSpendAttemptedForCashNotes "unique_pubkey list"
  | InvalidAddressType
  | TotalPriceTooHigh
  | CouldNotSendMoney string
  | CouldNotSignTransaction string
  | CouldNotReceiveMoney string
  | CouldNotVerifyTransfer string
  | WalletFailedToGetSpend string
  | SpendProcessing string
  | UnconfirmedTxAfterRetries
  | PubKeyMismatch
  | PubkeyNotFound
  | MainSecretKeyNotFound
  | EncryptedMainSecretKeyNotFound
  | EncryptedMainSecretKeyRequiresPassword
  | FailedToSerializeEncryptedKey string
  | FailedToDeserializeEncryptedKey string
  | FailedToEncryptKey string
  | FailedToDecryptKey string
  | FailedToParseBlsKey
  | FailedToDecodeHexToKey
  | FailedToHexEncodeKey string
  | FailedToHexEncodeCashNote
  | WalletFailedToDecypherTransfer
  | NoPaymentForAddress xor_name
  | WalletQuoteExpired xor_name
  | DagError string
  | WalletTransferError t_error
  | BlsError
  | Serialisation
  | Deserialisation
  | Io
  | WalletPasswordIncorrect
  | WalletPasswordRequired
  | WalletPasswordExpired
  | WalletAlreadyEncrypted
  | Panicked

record key_ops =
  pbkdf2 :: "bytes \<Rightarrow> bytes \<Rightarrow> bytes"
  aead_seal :: "bytes \<Rightarrow> bytes \<Rightarrow> bytes \<Rightarrow> bytes option"
  aead_open :: "bytes \<Rightarrow> bytes \<Rightarrow> bytes \<Rightarrow> bytes option"
  key_hex :: "bytes \<Rightarrow> string"
  key_unhex :: "string \<Rightarrow> bytes option"
  sk_from_bytes :: "bytes \<Rightarrow> secret_key option"

record encrypted_secret_key =
  ek_encrypted_secret_key :: string
  ek_salt :: string
  ek_nonce :: string

record wallet_disk =
  d_secret_key :: "main_secret_key option"
  d_encrypted_key :: "encrypted_secret_key option"
  d_main_pubkey :: "main_pubkey option"
  d_wallet :: "(unique_pubkey, nano_tokens) btree_map option"
  d_cash_notes :: "(xor_name, string) hash_map"
  d_unconfirmed :: "signed_spend list option"
  d_confirmed :: "(xor_name, bytes) hash_map"
  d_payments :: "(xor_name, payment_details list) hash_map"

definition empty_disk :: wallet_disk where
  "empty_disk = \<lparr> d_secret_key = None, d_encrypted_key = None, d_main_pubkey = None, d_wallet = None,
                  d_cash_notes = [], d_unconfirmed = None, d_confirmed = [], d_payments = [] \<rparr>"

subsection \<open>Encryption (encryption.rs)\<close>

text \<open>The salt and the nonce are random: they are arguments.\<close>

definition encrypt_secret_key ::
    "key_ops \<Rightarrow> bytes \<Rightarrow> bytes \<Rightarrow> main_secret_key \<Rightarrow> string
      \<Rightarrow> (wallet_error, encrypted_secret_key) result" where
  "encrypt_secret_key K salt nonce sk password =
     (case aead_seal K (pbkdf2 K salt (str_bytes password)) nonce (be_bytes sk) of
        None \<Rightarrow> Err (FailedToEncryptKey ''Could not seal sealing key.'')
      | Some sealed \<Rightarrow>
          Ok \<lparr> ek_encrypted_secret_key = key_hex K sealed, ek_salt = key_hex K salt,
               ek_nonce = key_hex K nonce \<rparr>)"

definition ek_decrypt ::
    "key_ops \<Rightarrow> encrypted_secret_key \<Rightarrow> string \<Rightarrow> (wallet_error, main_secret_key) result" where
  "ek_decrypt K e password =
     and_then (ok_or (key_unhex K (ek_salt e)) (FailedToDecryptKey ''Invalid salt encoding.'')) (\<lambda>salt.
     and_then (ok_or (key_unhex K (ek_nonce e)) (FailedToDecryptKey ''Invalid nonce encoding.'')) (\<lambda>nonce.
       if length nonce < 12 then Err Panicked
       else
         and_then (ok_or (key_unhex K (ek_encrypted_secret_key e))
                    (FailedToDecryptKey ''Invalid encrypted secret key encoding.'')) (\<lambda>sealed.
         and_then (ok_or (aead_open K (pbkdf2 K salt (str_bytes password)) (take 12 nonce) sealed)
                    (FailedToDecryptKey ''Could not open encrypted key'')) (\<lambda>data.
           if length data < 32 then Err Panicked
           else ok_or (sk_from_bytes K (take 32 data)) BlsError))))"

text \<open>What the wallet relies on: hex decoding inverts encoding, opening inverts sealing under the
  same key and nonce, and the encoding of a secret key is decoded to it.\<close>

definition key_ops_correct :: "key_ops \<Rightarrow> bool" where
  "key_ops_correct K \<longleftrightarrow>
     (\<forall>bs. key_unhex K (key_hex K bs) = Some bs)
     \<and> (\<forall>k n m c. aead_seal K k n m = Some c \<longrightarrow> aead_open K k n c = Some m)
     \<and> (\<forall>sk. sk_from_bytes K (be_bytes sk) = Some sk)"

lemma encrypt_decrypt:
  assumes "key_ops_correct K" and "length nonce = 12"
    and "encrypt_secret_key K salt nonce sk password = Ok e"
  shows "ek_decrypt K e password = Ok sk"
  using assms
  by (auto simp: encrypt_secret_key_def ek_decrypt_def key_ops_correct_def split: option.splits)

subsection \<open>Key files (keys.rs)\<close>

definition store_new_pubkey :: "wallet_disk \<Rightarrow> main_pubkey \<Rightarrow> wallet_disk" where
  "store_new_pubkey d pk = d \<lparr> d_main_pubkey := Some pk \<rparr>"

definition store_main_secret_key ::
    "key_ops \<Rightarrow> bytes \<Rightarrow> bytes \<Rightarrow> wallet_disk \<Rightarrow> main_secret_key \<Rightarrow> string option
      \<Rightarrow> wallet_disk \<times> (wallet_error, unit) result" where
  "store_main_secret_key K salt nonce d sk password =
     (case password of
        Some pw \<Rightarrow>
          (case encrypt_secret_key K salt nonce sk pw of
             Inl e \<Rightarrow> (d, Err e)
           | Inr ek \<Rightarrow> (d \<lparr> d_encrypted_key := Some ek \<rparr>, Ok ()))
      | None \<Rightarrow> (d \<lparr> d_secret_key := Some sk \<rparr>, Ok ()))"

definition store_new_keypair ::
    "bls_ops \<Rightarrow> key_ops \<Rightarrow> bytes \<Rightarrow> bytes \<Rightarrow> wallet_disk \<Rightarrow> main_secret_key \<Rightarrow> string option
      \<Rightarrow> wallet_disk \<times> (wallet_error, unit) result" where
  "store_new_keypair B K salt nonce d sk password =
     store_main_secret_key K salt nonce (store_new_pubkey d (main_pubkey_of B sk)) sk password"

definition get_main_key_from_disk ::
    "key_ops \<Rightarrow> wallet_disk \<Rightarrow> string option \<Rightarrow> (wallet_error, main_secret_key) result" where
  "get_main_key_from_disk K d password =
     (case d_encrypted_key d of
        Some ek \<Rightarrow>
          and_then (ok_or password EncryptedMainSecretKeyRequiresPassword) (ek_decrypt K ek)
      | None \<Rightarrow> ok_or (d_secret_key d) MainSecretKeyNotFound)"

definition get_main_pubkey :: "wallet_disk \<Rightarrow> main_pubkey option" where
  "get_main_pubkey d = d_main_pubkey d"

subsection \<open>Authentication (authentication.rs)\<close>

definition PASSWORD_EXPIRATION_TIME_SECS :: nat where
  "PASSWORD_EXPIRATION_TIME_SECS = 120"

record authentication_manager =
  am_password :: "string option"
  am_password_expires_at :: "system_time option"

definition auth_new :: authentication_manager where
  "auth_new = \<lparr> am_password = None, am_password_expires_at = None \<rparr>"

definition verify_password :: "key_ops \<Rightarrow> wallet_disk \<Rightarrow> string \<Rightarrow> (wallet_error, unit) result" where
  "verify_password K d password =
     and_then (ok_or (d_encrypted_key d) EncryptedMainSecretKeyNotFound) (\<lambda>ek.
     and_then (ek_decrypt K ek password) (\<lambda>_. Ok ()))"

definition reset_password_expiration_time ::
    "system_time \<Rightarrow> authentication_manager \<Rightarrow> authentication_manager" where
  "reset_password_expiration_time now am =
     am \<lparr> am_password_expires_at := Some (now + from_secs PASSWORD_EXPIRATION_TIME_SECS) \<rparr>"

definition authenticate_with_password ::
    "key_ops \<Rightarrow> system_time \<Rightarrow> wallet_disk \<Rightarrow> authentication_manager \<Rightarrow> string
      \<Rightarrow> authentication_manager \<times> (wallet_error, unit) result" where
  "authenticate_with_password K now d am password =
     (case verify_password K d password of
        Inl e \<Rightarrow> (am, Err e)
      | Inr _ \<Rightarrow> (reset_password_expiration_time now (am \<lparr> am_password := Some password \<rparr>), Ok ()))"

definition authenticate ::
    "key_ops \<Rightarrow> system_time \<Rightarrow> wallet_disk \<Rightarrow> authentication_manager
      \<Rightarrow> authentication_manager \<times> (wallet_error, string option) result" where
  "authenticate K now d am =
     (if d_encrypted_key d \<noteq> None
      then case (am_password am, am_password_expires_at am) of
             (Some password, Some expiration_time) \<Rightarrow>
               if \<not> is_ok (verify_password K d password)
               then (am \<lparr> am_password := None \<rparr>, Err WalletPasswordIncorrect)
               else if now \<le> expiration_time
               then (reset_password_expiration_time now am, Ok (Some password))
               else (am \<lparr> am_password := None \<rparr>, Err WalletPasswordExpired)
           | _ \<Rightarrow> (am, Err WalletPasswordRequired)
      else (am, Ok None))"

text \<open>A manager hands out a password only for an encrypted wallet, only when the password opens
  it, and only within two minutes of the last use.\<close>

lemma authenticate_ok_iff:
  "snd (authenticate K now d am) = Ok (Some pw) \<longleftrightarrow>
     is_ok (verify_password K d pw) \<and> am_password am = Some pw
     \<and> (\<exists>t. am_password_expires_at am = Some t \<and> now \<le> t)"
  by (auto simp: authenticate_def verify_password_def result_simps split: option.splits)

lemma authenticate_renews:
  assumes "snd (authenticate K now d am) = Ok (Some pw)"
    and "later \<le> now + from_secs PASSWORD_EXPIRATION_TIME_SECS"
  shows "snd (authenticate K later d (fst (authenticate K now d am))) = Ok (Some pw)"
  using assms unfolding authenticate_ok_iff
  by (auto simp: authenticate_def verify_password_def reset_password_expiration_time_def
      split: option.splits)

lemma authenticate_after_login:
  assumes "authenticate_with_password K now d am pw = (am', Ok ())"
    and "later \<le> now + from_secs PASSWORD_EXPIRATION_TIME_SECS"
  shows "snd (authenticate K later d am') = Ok (Some pw)"
  using assms unfolding authenticate_ok_iff
  by (auto simp: authenticate_with_password_def reset_password_expiration_time_def is_ok_iff
      split: sum.splits)

end
