(* ===== verification/Wallets.thy ===== *)
theory Wallets
  imports Wallet_Keys Transactions
begin

section \<open>Wallets (sn\_transfers/src/wallet: wallet.rs, wallet\_file.rs, api.rs, watch\_only.rs, hot\_wallet.rs)\<close>

text \<open>
  The wallet of a client or a node: the notes it holds, its files, and the operations that
  deposit, spend and pay for storage. An operation takes the wallet and the disk and returns
  both with its result, also when it fails, since most operations change the state before
  they can fail. Random derivation indexes, salts and the clock are arguments. The lock on the
  wallet file excludes other processes for the duration of an operation, so each operation is
  one step. MessagePack is the pair \<open>note_to_vec\<close>, \<open>note_from_slice\<close>, and \<open>iter_order\<close> is the
  order in which a \<open>HashSet\<close> of notes is iterated.
\<close>

record wallet_ops =
  w_bls :: bls_ops
  w_net :: net_ops
  w_keys :: key_ops
  w_transfer :: transfer_ops
  note_to_vec :: "cash_note \<Rightarrow> bytes option"
  note_from_slice :: "bytes \<Rightarrow> cash_note option"
  spend_from_slice :: "bytes \<Rightarrow> signed_spend option"
  iter_order :: "cash_note list \<Rightarrow> cash_note list"
  royalties_pk :: main_pubkey

type_synonym available_notes = "(unique_pubkey, nano_tokens) btree_map"

record watch_only_wallet =
  wo_main_pubkey :: main_pubkey
  wo_available :: available_notes

record hot_wallet =
  hw_key :: main_secret_key
  hw_watchonly :: watch_only_wallet
  hw_unconfirmed :: "signed_spend list"
  hw_auth :: authentication_manager

subsection \<open>\<open>KeyLessWallet\<close> (wallet.rs)\<close>

definition keyless_balance :: "available_notes \<Rightarrow> nano_tokens" where
  "keyless_balance m = NanoTokens (fold (\<lambda>(_, value) balance. balance + as_nano value) m 0)"

text \<open>One attempt to read the wallet file: its content, content that does not parse because the
  file is being written, a read that would block, or another error.\<close>

datatype read_outcome =
    ReadWallet available_notes | ReadGarbled | ReadWouldBlock | ReadFailed

function load_attempts ::
    "(nat \<Rightarrow> read_outcome) \<Rightarrow> nat \<Rightarrow> (wallet_error, available_notes) result" where
  "load_attempts reads attempts =
     (if attempts < 10
      then case reads attempts of
             ReadWallet m \<Rightarrow> Ok m
           | ReadGarbled \<Rightarrow> load_attempts reads (attempts + 1)
           | ReadWouldBlock \<Rightarrow> load_attempts reads (attempts + 1)
           | ReadFailed \<Rightarrow> Err Io
      else Err Io)"
  by pat_completeness auto
termination by (relation "measure (\<lambda>(_, attempts). 10 - attempts)") auto

declare load_attempts.simps [simp del]

definition keyless_load_from ::
    "(nat \<Rightarrow> read_outcome) option \<Rightarrow> (wallet_error, available_notes option) result" where
  "keyless_load_from file =
     (case file of
        None \<Rightarrow> Ok None
      | Some reads \<Rightarrow> and_then (load_attempts reads 0) (\<lambda>m. Ok (Some m)))"

text \<open>A wallet file that nobody is writing.\<close>

definition wallet_file :: "wallet_disk \<Rightarrow> (nat \<Rightarrow> read_outcome) option" where
  "wallet_file d = map_option (\<lambda>m _. ReadWallet m) (d_wallet d)"

lemma keyless_load_wallet_file [simp]: "keyless_load_from (wallet_file d) = Ok (d_wallet d)"
  by (cases "d_wallet d") (simp_all add: keyless_load_from_def wallet_file_def load_attempts.simps)

subsection \<open>Files (wallet\_file.rs, cashnote.rs)\<close>

definition cn_to_hex :: "wallet_ops \<Rightarrow> cash_note \<Rightarrow> string option" where
  "cn_to_hex W cn = map_option (\<lambda>serialized. key_hex (w_keys W) (rev serialized)) (note_to_vec W cn)"

definition cn_from_hex :: "wallet_ops \<Rightarrow> string \<Rightarrow> cash_note option" where
  "cn_from_hex W hex = Option.bind (key_unhex (w_keys W) hex) (\<lambda>bs. note_from_slice W (rev bs))"

definition note_file :: "wallet_ops \<Rightarrow> unique_pubkey \<Rightarrow> xor_name" where
  "note_file W k = spend_address_of (w_net W) k"

definition store_wallet :: "wallet_disk \<Rightarrow> available_notes \<Rightarrow> wallet_disk" where
  "store_wallet d m = d \<lparr> d_wallet := Some m \<rparr>"

definition file_store_unconfirmed :: "wallet_disk \<Rightarrow> signed_spend list \<Rightarrow> wallet_disk" where
  "file_store_unconfirmed d spends = d \<lparr> d_unconfirmed := Some spends \<rparr>"

definition file_remove_unconfirmed ::
    "wallet_ops \<Rightarrow> wallet_disk \<Rightarrow> signed_spend list \<Rightarrow> wallet_disk \<times> (wallet_error, unit) result" where
  "file_remove_unconfirmed W d spends =
     (let d1 = d \<lparr> d_confirmed :=
                 fold (\<lambda>s. AList.update (note_file W (ss_unique_pubkey s)) (signed_spend_to_bytes (w_bls W) s))
                   spends (d_confirmed d) \<rparr>
      in case d_unconfirmed d1 of
           None \<Rightarrow> (d1, Err Io)
         | Some _ \<Rightarrow> (d1 \<lparr> d_unconfirmed := None \<rparr>, Ok ()))"

definition get_confirmed_spend ::
    "wallet_ops \<Rightarrow> wallet_disk \<Rightarrow> xor_name \<Rightarrow> (wallet_error, signed_spend option) result" where
  "get_confirmed_spend W d addr =
     (case map_of (d_confirmed d) addr of
        None \<Rightarrow> Ok None
      | Some bs \<Rightarrow> and_then (ok_or (spend_from_slice W bs) Deserialisation) (\<lambda>s. Ok (Some s)))"

definition has_confirmed_spend :: "wallet_disk \<Rightarrow> xor_name \<Rightarrow> bool" where
  "has_confirmed_spend d addr = hmap_contains (d_confirmed d) addr"

fun store_created_cash_notes ::
    "wallet_ops \<Rightarrow> wallet_disk \<Rightarrow> cash_note list \<Rightarrow> wallet_disk \<times> (wallet_error, unit) result" where
  "store_created_cash_notes W d [] = (d, Ok ())"
| "store_created_cash_notes W d (cn # cns) =
     (case cn_to_hex W cn of
        None \<Rightarrow> (d, Err FailedToHexEncodeCashNote)
      | Some hex \<Rightarrow>
          store_created_cash_notes W
            (d \<lparr> d_cash_notes :=
                   AList.update (note_file W (cn_unique_pubkey (w_bls W) cn)) hex (d_cash_notes d) \<rparr>) cns)"

fun remove_cash_notes ::
    "wallet_ops \<Rightarrow> wallet_disk \<Rightarrow> unique_pubkey list \<Rightarrow> wallet_disk \<times> (wallet_error, unit) result" where
  "remove_cash_notes W d [] = (d, Ok ())"
| "remove_cash_notes W d (k # ks) =
     (if hmap_contains (d_cash_notes d) (note_file W k)
      then remove_cash_notes W (d \<lparr> d_cash_notes := AList.delete (note_file W k) (d_cash_notes d) \<rparr>) ks
      else (d, Err Io))"

definition load_cash_notes_from_disk :: "wallet_ops \<Rightarrow> wallet_disk \<Rightarrow> cash_note list" where
  "load_cash_notes_from_disk W d = List.map_filter (\<lambda>(_, hex). cn_from_hex W hex) (d_cash_notes d)"

definition load_created_cash_note :: "wallet_ops \<Rightarrow> wallet_disk \<Rightarrow> unique_pubkey \<Rightarrow> cash_note option" where
  "load_created_cash_note W d k = Option.bind (map_of (d_cash_notes d) (note_file W k)) (cn_from_hex W)"

subsection \<open>Payments made (api.rs)\<close>

definition read_payment_transactions ::
    "wallet_disk \<Rightarrow> xor_name \<Rightarrow> (wallet_error, payment_details list) result" where
  "read_payment_transactions d name = ok_or (map_of (d_payments d) name) Io"

definition get_recent_payment :: "wallet_disk \<Rightarrow> xor_name \<Rightarrow> (wallet_error, payment_details) result" where
  "get_recent_payment d name =
     and_then (read_payment_transactions d name) (\<lambda>payments.
       if payments = [] then Err (NoPaymentForAddress name) else Ok (last payments))"

definition get_all_payments ::
    "wallet_disk \<Rightarrow> xor_name \<Rightarrow> (wallet_error, payment_details list) result" where
  "get_all_payments d name =
     and_then (read_payment_transactions d name) (\<lambda>payments.
       if payments = [] then Err (NoPaymentForAddress name) else Ok payments)"

definition insert_payment_transaction :: "wallet_disk \<Rightarrow> xor_name \<Rightarrow> payment_details \<Rightarrow> wallet_disk" where
  "insert_payment_transaction d name payment =
     d \<lparr> d_payments := AList.update name
           (case read_payment_transactions d name of Inr stored \<Rightarrow> stored @ [payment] | Inl _ \<Rightarrow> [payment])
           (d_payments d) \<rparr>"

definition remove_payment_transaction :: "wallet_disk \<Rightarrow> xor_name \<Rightarrow> wallet_disk" where
  "remove_payment_transaction d name = d \<lparr> d_payments := AList.delete name (d_payments d) \<rparr>"

subsection \<open>\<open>WatchOnlyWallet\<close> (watch\_only.rs)\<close>

definition wo_balance :: "watch_only_wallet \<Rightarrow> nano_tokens" where
  "wo_balance w = keyless_balance (wo_available w)"

definition load_keyless_wallet ::
    "wallet_disk \<Rightarrow> main_pubkey \<Rightarrow> wallet_disk \<times> (wallet_error, watch_only_wallet) result" where
  "load_keyless_wallet d pk =
     (case keyless_load_from (wallet_file d) of
        Inl e \<Rightarrow> (d, Err e)
      | Inr (Some m) \<Rightarrow> (d, Ok \<lparr> wo_main_pubkey = pk, wo_available = m \<rparr>)
      | Inr None \<Rightarrow> (store_wallet d [], Ok \<lparr> wo_main_pubkey = pk, wo_available = [] \<rparr>))"

definition wo_load_from ::
    "wallet_disk \<Rightarrow> main_pubkey \<Rightarrow> wallet_disk \<times> (wallet_error, watch_only_wallet) result" where
  "wo_load_from d pk =
     (case get_main_pubkey d of
        Some pk' \<Rightarrow> if pk' \<noteq> pk then (d, Err PubKeyMismatch) else load_keyless_wallet d pk'
      | None \<Rightarrow> load_keyless_wallet (store_new_pubkey d pk) pk)"

definition wo_load_from_path :: "wallet_disk \<Rightarrow> wallet_disk \<times> (wallet_error, watch_only_wallet) result" where
  "wo_load_from_path d =
     (case get_main_pubkey d of
        None \<Rightarrow> (d, Err PubkeyNotFound) | Some pk \<Rightarrow> load_keyless_wallet d pk)"

definition wo_insert :: "bls_ops \<Rightarrow> watch_only_wallet \<Rightarrow> cash_note \<Rightarrow> watch_only_wallet" where
  "wo_insert B w cn =
     (if is_ok (cn_derived_pubkey B cn (wo_main_pubkey w))
      then w \<lparr> wo_available := bmap_insert (cn_unique_pubkey B cn) (cn_value B cn) (wo_available w) \<rparr>
      else w)"

definition wo_deposit :: "bls_ops \<Rightarrow> watch_only_wallet \<Rightarrow> cash_note list \<Rightarrow> watch_only_wallet" where
  "wo_deposit B w received_cash_notes = foldl (wo_insert B) w received_cash_notes"

definition mark_notes_as_spent :: "watch_only_wallet \<Rightarrow> unique_pubkey list \<Rightarrow> watch_only_wallet" where
  "mark_notes_as_spent w ks = w \<lparr> wo_available := fold AList.delete ks (wo_available w) \<rparr>"

definition wo_store :: "wallet_disk \<Rightarrow> watch_only_wallet \<Rightarrow> wallet_disk" where
  "wo_store d w = store_wallet d (wo_available w)"

definition wo_reload ::
    "wallet_disk \<Rightarrow> watch_only_wallet \<Rightarrow> wallet_disk \<times> watch_only_wallet \<times> (wallet_error, unit) result" where
  "wo_reload d w =
     (case wo_load_from d (wo_main_pubkey w) of
        (d', Inl e) \<Rightarrow> (d', w, Err e) | (d', Inr w') \<Rightarrow> (d', w', Ok ()))"

definition try_load_cash_notes :: "wallet_ops \<Rightarrow> wallet_disk \<Rightarrow> watch_only_wallet \<Rightarrow> wallet_disk \<times> watch_only_wallet" where
  "try_load_cash_notes W d w =
     (let cash_notes = load_cash_notes_from_disk W d;
          spent = bset_of id (concat (map (\<lambda>cn. map ss_unique_pubkey (parent_spends cn)) cash_notes));
          w' = mark_notes_as_spent (wo_deposit (w_bls W) w cash_notes) spent
      in (wo_store d w', w'))"

fun deposit_each ::
    "wallet_ops \<Rightarrow> wallet_disk \<Rightarrow> watch_only_wallet \<Rightarrow> cash_note list
      \<Rightarrow> wallet_disk \<times> watch_only_wallet \<times> (wallet_error, unit) result" where
  "deposit_each W d w [] = (d, w, Ok ())"
| "deposit_each W d w (cn # cns) =
     (if is_ok (cn_derived_pubkey (w_bls W) cn (wo_main_pubkey w))
      then let w' = w \<lparr> wo_available :=
                          bmap_insert (cn_unique_pubkey (w_bls W) cn) (cn_value (w_bls W) cn) (wo_available w) \<rparr>
           in case store_created_cash_notes W d [cn] of
                (d', Inl e) \<Rightarrow> (d', w', Err e)
              | (d', Inr _) \<Rightarrow> deposit_each W d' w' cns
      else deposit_each W d w cns)"

definition wo_deposit_and_store_to_disk ::
    "wallet_ops \<Rightarrow> wallet_disk \<Rightarrow> watch_only_wallet \<Rightarrow> cash_note list
      \<Rightarrow> wallet_disk \<times> watch_only_wallet \<times> (wallet_error, unit) result" where
  "wo_deposit_and_store_to_disk W d w cash_notes =
     (if cash_notes = [] then (d, w, Ok ())
      else case wo_reload d w of
             (d1, w1, Inl e) \<Rightarrow> (d1, w1, Err e)
           | (d1, w1, Inr _) \<Rightarrow>
               (case deposit_each W d1 w1 cash_notes of
                  (d2, w2, Inl e) \<Rightarrow> (d2, w2, Err e)
                | (d2, w2, Inr _) \<Rightarrow> (wo_store d2 w2, w2, Ok ())))"

definition wo_build_unsigned_transaction ::
    "wallet_ops \<Rightarrow> derivation_index list \<Rightarrow> derivation_index \<Rightarrow> wallet_disk \<Rightarrow> watch_only_wallet
      \<Rightarrow> (nano_tokens \<times> main_pubkey) list \<Rightarrow> spend_reason option
      \<Rightarrow> wallet_disk \<times> watch_only_wallet \<times> (wallet_error, unsigned_transaction) result" where
  "wo_build_unsigned_transaction W indexes ci d w to reason =
     (let to_unique_keys =
            map (\<lambda>((amount, address), i). (amount, address, i, False)) (zip to indexes)
      in case wo_reload d w of
           (d1, w1, Inl e) \<Rightarrow> (d1, w1, Err e)
         | (d1, w1, Inr _) \<Rightarrow>
             let available = List.map_filter (\<lambda>(k, _). load_created_cash_note W d1 k) (wo_available w1)
             in case unsigned_new (w_bls W) ci available to_unique_keys (wo_main_pubkey w1)
                       (case_option NoReason id reason) of
                  Inl e \<Rightarrow> (d1, w1, Err (WalletTransferError e))
                | Inr tx \<Rightarrow> (d1, mark_notes_as_spent w1 (map fst (spent_unique_keys tx)), Ok tx))"

subsection \<open>Royalties (genesis.rs)\<close>

text \<open>The fee is computed in \<open>f64\<close>. A positive \<open>f64\<close> is a mantissa and a binary exponent; the
  result of an operation is the exact quotient of two naturals rounded to 53 bits, to the
  nearest and to even on a tie. The exponents that occur are far from the limits of the
  format. The final cast truncates and saturates.\<close>

type_synonym f64_pos = "nat \<times> int"

fun bit_len :: "nat \<Rightarrow> nat" where
  "bit_len n = (if n = 0 then 0 else Suc (bit_len (n div 2)))"

declare bit_len.simps [simp del]

definition rne :: "nat \<Rightarrow> nat \<Rightarrow> nat" where
  "rne n d = (if 2 * (n mod d) < d \<or> 2 * (n mod d) = d \<and> even (n div d) then n div d else n div d + 1)"

definition f64_of_ratio :: "nat \<Rightarrow> nat \<Rightarrow> f64_pos" where
  "f64_of_ratio n d =
     (let k = 53 + int (bit_len d) - int (bit_len n);
          k' = (if 2 ^ 53 * (d * 2 ^ nat (- k)) \<le> n * 2 ^ nat k then k - 1 else k)
      in (rne (n * 2 ^ nat k') (d * 2 ^ nat (- k')), - k'))"

definition f64_mult :: "f64_pos \<Rightarrow> f64_pos \<Rightarrow> f64_pos" where
  "f64_mult x y = (case f64_of_ratio (fst x * fst y) 1 of (m, e) \<Rightarrow> (m, e + snd x + snd y))"

definition f64_div :: "f64_pos \<Rightarrow> f64_pos \<Rightarrow> f64_pos" where
  "f64_div x y = (case f64_of_ratio (fst x) (fst y) of (m, e) \<Rightarrow> (m, e + snd x - snd y))"

definition f64_to_u64 :: "f64_pos \<Rightarrow> u64" where
  "f64_to_u64 x = of_nat (min (2 ^ 64 - 1) (fst x * 2 ^ nat (snd x) div 2 ^ nat (- snd x)))"

definition MIN_ROYALTY_FEE :: u64 where
  "MIN_ROYALTY_FEE = 1"

definition calculate_royalties_fee :: "nano_tokens \<Rightarrow> nano_tokens" where
  "calculate_royalties_fee store_cost =
     NanoTokens (max MIN_ROYALTY_FEE
       (if as_nano store_cost = 0 then 0
        else f64_to_u64 (f64_div (f64_mult (f64_of_ratio (unat (as_nano store_cost)) 1)
                                    (f64_of_ratio 15 100)) (f64_of_ratio 85 100))))"

subsection \<open>\<open>HotWallet\<close> (hot\_wallet.rs)\<close>

definition hw_address :: "wallet_ops \<Rightarrow> hot_wallet \<Rightarrow> main_pubkey" where
  "hw_address W w = main_pubkey_of (w_bls W) (hw_key w)"

definition hw_balance :: "hot_wallet \<Rightarrow> nano_tokens" where
  "hw_balance w = wo_balance (hw_watchonly w)"

definition load_with_key ::
    "wallet_ops \<Rightarrow> wallet_disk \<Rightarrow> main_secret_key \<Rightarrow> wallet_disk \<times> (wallet_error, hot_wallet) result" where
  "load_with_key W d key =
     (case wo_load_from d (main_pubkey_of (w_bls W) key) of
        (d', Inl e) \<Rightarrow> (d', Err e)
      | (d', Inr wo) \<Rightarrow>
          (d', Ok \<lparr> hw_key = key, hw_watchonly = wo, hw_unconfirmed = case_option [] id (d_unconfirmed d),
                    hw_auth = auth_new \<rparr>))"

definition load_from_path_and_key ::
    "wallet_ops \<Rightarrow> bytes \<Rightarrow> bytes \<Rightarrow> wallet_disk \<Rightarrow> main_secret_key option \<Rightarrow> string option
      \<Rightarrow> wallet_disk \<times> (wallet_error, hot_wallet) result" where
  "load_from_path_and_key W salt nonce d main_key password =
     (case get_main_key_from_disk (w_keys W) d password of
        Inr key \<Rightarrow> load_with_key W d key
      | Inl e \<Rightarrow>
          (case main_key of
             None \<Rightarrow> (d, Err e)
           | Some key \<Rightarrow>
               (case store_new_keypair (w_bls W) (w_keys W) salt nonce d key password of
                  (d', Inl e') \<Rightarrow> (d', Err e')
                | (d', Inr _) \<Rightarrow> load_with_key W d' key)))"

definition create_from_key ::
    "wallet_ops \<Rightarrow> bytes \<Rightarrow> bytes \<Rightarrow> wallet_disk \<Rightarrow> main_secret_key \<Rightarrow> string option
      \<Rightarrow> wallet_disk \<times> (wallet_error, hot_wallet) result" where
  "create_from_key W salt nonce d key password =
     (case store_new_keypair (w_bls W) (w_keys W) salt nonce d key password of
        (d', Inl e) \<Rightarrow> (d', Err e)
      | (d', Inr _) \<Rightarrow> load_with_key W d' key)"

definition encrypt_wallet ::
    "wallet_ops \<Rightarrow> bytes \<Rightarrow> bytes \<Rightarrow> wallet_disk \<Rightarrow> string \<Rightarrow> wallet_disk \<times> (wallet_error, unit) result" where
  "encrypt_wallet W salt nonce d password =
     (if d_encrypted_key d \<noteq> None then (d, Err WalletAlreadyEncrypted)
      else case load_from_path_and_key W salt nonce d None None of
             (d1, Inl e) \<Rightarrow> (d1, Err e)
           | (d1, Inr w) \<Rightarrow>
               (case store_main_secret_key (w_keys W) salt nonce d1 (hw_key w) (Some password) of
                  (d2, Inl e) \<Rightarrow> (d2, Err e)
                | (d2, Inr _) \<Rightarrow>
                    if d_secret_key d2 = None then (d2 \<lparr> d_encrypted_key := None \<rparr>, Err Io)
                    else (d2 \<lparr> d_secret_key := None \<rparr>, Ok ())))"

definition hw_reload ::
    "wallet_ops \<Rightarrow> system_time \<Rightarrow> wallet_disk \<Rightarrow> hot_wallet
      \<Rightarrow> wallet_disk \<times> hot_wallet \<times> (wallet_error, unit) result" where
  "hw_reload W now d w =
     (case authenticate (w_keys W) now d (hw_auth w) of
        (am, Inl e) \<Rightarrow> (d, w \<lparr> hw_auth := am \<rparr>, Err e)
      | (am, Inr opt_password) \<Rightarrow>
          (case load_from_path_and_key W [] [] d None opt_password of
             (d', Inl e) \<Rightarrow> (d', w \<lparr> hw_auth := am \<rparr>, Err e)
           | (d', Inr wallet) \<Rightarrow>
               if hw_key wallet \<noteq> hw_key w
               then (d', w \<lparr> hw_auth := am \<rparr>, Err CurrentAndLoadedKeyMismatch)
               else (d', wallet, Ok ())))"

definition cash_note_presents :: "hot_wallet \<Rightarrow> unique_pubkey \<Rightarrow> bool" where
  "cash_note_presents w k \<longleftrightarrow> map_of (wo_available (hw_watchonly w)) k \<noteq> None"

definition spendable_notes :: "wallet_ops \<Rightarrow> wallet_disk \<Rightarrow> hot_wallet \<Rightarrow> cash_note list" where
  "spendable_notes W d w =
     List.map_filter (\<lambda>(k, _).
         case load_created_cash_note W d k of
           Some cn \<Rightarrow> if is_ok (cn_derived_key (w_bls W) cn (hw_key w)) then Some cn else None
         | None \<Rightarrow> None)
       (wo_available (hw_watchonly w))"

definition available_cash_notes ::
    "wallet_ops \<Rightarrow> system_time \<Rightarrow> wallet_disk \<Rightarrow> hot_wallet
      \<Rightarrow> wallet_disk \<times> hot_wallet \<times> (wallet_error, cash_note list) result" where
  "available_cash_notes W now d w =
     (case hw_reload W now d w of
        (d', w', Inl e) \<Rightarrow> (d', w', Err e)
      | (d', w', Inr _) \<Rightarrow> (d', w', Ok (spendable_notes W d' w')))"

definition update_local_wallet ::
    "wallet_ops \<Rightarrow> wallet_disk \<Rightarrow> hot_wallet \<Rightarrow> signed_transaction \<Rightarrow> bool
      \<Rightarrow> wallet_disk \<times> hot_wallet \<times> (wallet_error, unit) result" where
  "update_local_wallet W d w stx insert_into_pending_spends =
     (let spent = bset_of id (map ss_unique_pubkey (st_spends stx));
          w1 = w \<lparr> hw_watchonly := mark_notes_as_spent (hw_watchonly w) spent \<rparr>;
          (d2, w2, res) =
            (case change_cashnote stx of
               None \<Rightarrow> (d, w1, Ok ())
             | Some cn \<Rightarrow>
                 (case store_created_cash_notes W d [cn] of
                    (d', r) \<Rightarrow> (d', w1 \<lparr> hw_watchonly := wo_deposit (w_bls W) (hw_watchonly w1) [cn] \<rparr>, r)))
      in case res of
           Inl e \<Rightarrow> (d2, w2, Err e)
         | Inr _ \<Rightarrow>
             let w3 = (if insert_into_pending_spends
                       then w2 \<lparr> hw_unconfirmed :=
                                  bset_extend signed_spend_key (hw_unconfirmed w2) (st_spends stx) \<rparr>
                       else w2)
             in (wo_store d2 (hw_watchonly w3), w3, Ok ()))"

definition local_send ::
    "wallet_ops \<Rightarrow> system_time \<Rightarrow> derivation_index list \<Rightarrow> derivation_index \<Rightarrow> wallet_disk \<Rightarrow> hot_wallet
      \<Rightarrow> (nano_tokens \<times> main_pubkey) list \<Rightarrow> spend_reason option
      \<Rightarrow> wallet_disk \<times> hot_wallet \<times> (wallet_error, cash_note list) result" where
  "local_send W now indexes ci d w to reason =
     (let to_unique_keys =
            map (\<lambda>((amount, address), i). (amount, address, i, False)) (zip to indexes)
      in case available_cash_notes W now d w of
           (d1, w1, Inl e) \<Rightarrow> (d1, w1, Err e)
         | (d1, w1, Inr available) \<Rightarrow>
             (case signed_new (w_bls W) ci available to_unique_keys (hw_address W w1)
                     (case_option NoReason id reason) (hw_key w1) of
                Inl e \<Rightarrow> (d1, w1, Err (WalletTransferError e))
              | Inr stx \<Rightarrow>
                  (case update_local_wallet W d1 w1 stx True of
                     (d2, w2, Inl e) \<Rightarrow> (d2, w2, Err e)
                   | (d2, w2, Inr _) \<Rightarrow> (d2, w2, Ok (output_cashnotes stx)))))"

text \<open>Paying for storage: a price map from names to the payee, its quote and its peer.\<close>

type_synonym price_map = "(xor_name, main_pubkey \<times> payment_quote \<times> bytes) btree_map"

text \<open>A payee of storage: amount, key, index and peer; a payee of royalties: amount, key and
  index.\<close>

type_synonym payees =
  "(nano_tokens \<times> main_pubkey \<times> derivation_index \<times> bytes) \<times> (nano_tokens \<times> main_pubkey \<times> derivation_index)"

fun storage_recipients ::
    "wallet_ops \<Rightarrow> price_map \<Rightarrow> (derivation_index \<times> derivation_index) list \<Rightarrow> nano_tokens \<Rightarrow> nano_tokens
      \<Rightarrow> (wallet_error, (xor_name \<times> payees) list \<times> nano_tokens \<times> nano_tokens) result" where
  "storage_recipients W ((name, pk, quote, peer) # rest) ((i, j) # indexes) storage_cost royalties_fees =
     (let royalties_fee = calculate_royalties_fee (q_cost quote)
      in and_then (ok_or (nano_checked_add storage_cost (q_cost quote)) TotalPriceTooHigh) (\<lambda>sc.
         and_then (ok_or (nano_checked_add royalties_fees royalties_fee) TotalPriceTooHigh) (\<lambda>rf.
         and_then (storage_recipients W rest indexes sc rf) (\<lambda>(rs, totals).
           Ok ((name, ((q_cost quote, pk, i, peer), (royalties_fee, royalties_pk W, j))) # rs, totals)))))"
| "storage_recipients W _ _ storage_cost royalties_fees = Ok ([], storage_cost, royalties_fees)"

definition payees_to_recipients :: "(xor_name \<times> payees) list \<Rightarrow> recipient list" where
  "payees_to_recipients rs =
     concat (map (\<lambda>(_, (amount, pk, i, _), (fee, rpk, j)). [(amount, pk, i, False), (fee, rpk, j, True)]) rs)"

definition find_note ::
    "wallet_ops \<Rightarrow> cash_note list \<Rightarrow> nano_tokens \<Rightarrow> main_pubkey \<Rightarrow> cash_note option" where
  "find_note W notes_left amount pk =
     find (\<lambda>cn. cn_value (w_bls W) cn = amount \<and> cn_main_pubkey cn = pk) (iter_order W notes_left)"

fun make_payments ::
    "wallet_ops \<Rightarrow> price_map \<Rightarrow> (xor_name \<times> payees) list \<Rightarrow> cash_note list \<Rightarrow> wallet_disk
      \<Rightarrow> wallet_disk \<times> (wallet_error, unit) result" where
  "make_payments W prices [] notes_left d = (d, Ok ())"
| "make_payments W prices ((name, (pay_amount, node_key, _, peer), (royalties_amount, royalties_key, _)) # rest)
     notes_left d =
     (case find_note W notes_left pay_amount node_key of
        None \<Rightarrow> (d, Err (CouldNotSendMoney ''No cashnote found to pay node''))
      | Some cn \<Rightarrow>
          let notes_left' = filter (\<lambda>x. x \<noteq> cn) notes_left
          in case transfer_from_cash_note (w_net W) (w_transfer W) cn of
               Inl e \<Rightarrow> (d, Err (WalletTransferError e))
             | Inr transfer_for_node \<Rightarrow>
                 (case find_note W notes_left' royalties_amount royalties_key of
                    None \<Rightarrow> (d, Err (CouldNotSendMoney ''No cashnote found to pay royalties''))
                  | Some rcn \<Rightarrow>
                      (case royalties_transfer_from_cash_note (w_net W) rcn of
                         Inl e \<Rightarrow> (d, Err (WalletTransferError e))
                       | Inr royalties \<Rightarrow>
                           (case map_of prices name of
                              None \<Rightarrow> (d, Err (CouldNotSendMoney ''No quote found''))
                            | Some (_, quote, _) \<Rightarrow>
                                make_payments W prices rest (filter (\<lambda>x. x \<noteq> rcn) notes_left')
                                  (insert_payment_transaction d name
                                     \<lparr> pd_recipient = node_key, pd_peer_id_bytes = peer,
                                       pd_transfer = (transfer_for_node, cn_value (w_bls W) cn),
                                       pd_royalties = (royalties, cn_value (w_bls W) rcn),
                                       pd_quote = quote \<rparr>)))))"

definition local_send_storage_payment ::
    "wallet_ops \<Rightarrow> system_time \<Rightarrow> (derivation_index \<times> derivation_index) list \<Rightarrow> derivation_index
      \<Rightarrow> wallet_disk \<Rightarrow> hot_wallet \<Rightarrow> price_map
      \<Rightarrow> wallet_disk \<times> hot_wallet \<times> (wallet_error, nano_tokens \<times> nano_tokens) result" where
  "local_send_storage_payment W now indexes ci d w prices =
     (case storage_recipients W prices indexes nano_zero nano_zero of
        Inl e \<Rightarrow> (d, w, Err e)
      | Inr (rs, storage_cost, royalties_fees) \<Rightarrow>
          (case available_cash_notes W now d w of
             (d1, w1, Inl e) \<Rightarrow> (d1, w1, Err e)
           | (d1, w1, Inr available) \<Rightarrow>
               (case signed_new (w_bls W) ci available (payees_to_recipients rs) (hw_address W w1) NoReason
                       (hw_key w1) of
                  Inl e \<Rightarrow> (d1, w1, Err (WalletTransferError e))
                | Inr stx \<Rightarrow>
                    (case make_payments W prices rs (remdups (output_cashnotes stx)) d1 of
                       (d2, Inl e) \<Rightarrow> (d2, w1, Err e)
                     | (d2, Inr _) \<Rightarrow>
                         (case update_local_wallet W d2 w1 stx True of
                            (d3, w3, Inl e) \<Rightarrow> (d3, w3, Err e)
                          | (d3, w3, Inr _) \<Rightarrow> (d3, w3, Ok (storage_cost, royalties_fees)))))))"

definition hw_sign ::
    "wallet_ops \<Rightarrow> hot_wallet \<Rightarrow> unsigned_transaction \<Rightarrow> (wallet_error, signed_transaction) result" where
  "hw_sign W w tx =
     (if \<not> is_ok (unsigned_verify (w_bls W) tx)
      then Err (CouldNotSignTransaction ''Failed to verify unsigned transaction'')
      else case unsigned_sign (w_bls W) tx (hw_key w) of
             Inl _ \<Rightarrow> Err (CouldNotSignTransaction ''Failed to sign transaction'')
           | Inr stx \<Rightarrow>
               if \<not> is_ok (signed_tx_verify (w_bls W) stx)
               then Err (CouldNotSignTransaction ''Failed to verify signed transaction'')
               else Ok stx)"

definition hw_build_unsigned_transaction ::
    "wallet_ops \<Rightarrow> derivation_index list \<Rightarrow> derivation_index \<Rightarrow> wallet_disk \<Rightarrow> hot_wallet
      \<Rightarrow> (nano_tokens \<times> main_pubkey) list \<Rightarrow> spend_reason option
      \<Rightarrow> wallet_disk \<times> hot_wallet \<times> (wallet_error, unsigned_transaction) result" where
  "hw_build_unsigned_transaction W indexes ci d w to reason =
     (case wo_build_unsigned_transaction W indexes ci d (hw_watchonly w) to reason of
        (d', wo, r) \<Rightarrow> (d', w \<lparr> hw_watchonly := wo \<rparr>, r))"

definition hw_deposit_and_store_to_disk ::
    "wallet_ops \<Rightarrow> wallet_disk \<Rightarrow> hot_wallet \<Rightarrow> cash_note list
      \<Rightarrow> wallet_disk \<times> hot_wallet \<times> (wallet_error, unit) result" where
  "hw_deposit_and_store_to_disk W d w cash_notes =
     (case wo_deposit_and_store_to_disk W d (hw_watchonly w) cash_notes of
        (d', wo, r) \<Rightarrow> (d', w \<lparr> hw_watchonly := wo \<rparr>, r))"

definition unwrap_transfer ::
    "wallet_ops \<Rightarrow> hot_wallet \<Rightarrow> transfer \<Rightarrow> (wallet_error, cash_note_redemption list) result" where
  "unwrap_transfer W w t =
     map_err (\<lambda>_. WalletFailedToDecypherTransfer) (cashnote_redemptions (w_transfer W) t (hw_key w))"

definition clear_specific_spend_request ::
    "wallet_ops \<Rightarrow> wallet_disk \<Rightarrow> hot_wallet \<Rightarrow> unique_pubkey \<Rightarrow> wallet_disk \<times> hot_wallet" where
  "clear_specific_spend_request W d w k =
     (fst (remove_cash_notes W d [k]),
      w \<lparr> hw_unconfirmed := filter (\<lambda>s. ss_unique_pubkey s \<noteq> k) (hw_unconfirmed w) \<rparr>)"

definition clear_confirmed_spend_requests ::
    "wallet_ops \<Rightarrow> wallet_disk \<Rightarrow> hot_wallet \<Rightarrow> wallet_disk \<times> hot_wallet" where
  "clear_confirmed_spend_requests W d w =
     (let d1 = fst (remove_cash_notes W d (map ss_unique_pubkey (hw_unconfirmed w)));
          d2 = fst (file_remove_unconfirmed W d1 (hw_unconfirmed w))
      in (d2, w \<lparr> hw_unconfirmed := [] \<rparr>))"

text \<open>The reason of a reward is encrypted by a library: its result is an argument.\<close>

definition prepare_forward_signed_spend ::
    "wallet_ops \<Rightarrow> system_time \<Rightarrow> derivation_index list \<Rightarrow> derivation_index \<Rightarrow> wallet_disk \<Rightarrow> hot_wallet
      \<Rightarrow> (nano_tokens \<times> main_pubkey) list \<Rightarrow> (string, spend_reason) result
      \<Rightarrow> wallet_disk \<times> hot_wallet \<times> (wallet_error, signed_spend list) result" where
  "prepare_forward_signed_spend W now indexes ci d w to tracking_reason =
     (case available_cash_notes W now d w of
        (d1, w1, Inl e) \<Rightarrow> (d1, w1, Err e)
      | (d1, w1, Inr available) \<Rightarrow>
          (case tracking_reason of
             Inl err \<Rightarrow> (d1, w1, Err (CouldNotSendMoney (''Failed to generate spend_reason '' @ err)))
           | Inr reason \<Rightarrow>
               (case signed_new (w_bls W) ci available
                       (map (\<lambda>((amount, address), i). (amount, address, i, False)) (zip to indexes))
                       (hw_address W w1) reason (hw_key w1) of
                  Inl e \<Rightarrow> (d1, w1, Err (WalletTransferError e))
                | Inr stx \<Rightarrow>
                    (case update_local_wallet W d1 w1 stx False of
                       (d2, w2, Inl e) \<Rightarrow> (d2, w2, Err e)
                     | (d2, w2, Inr _) \<Rightarrow>
                         let d3 = fst (remove_cash_notes W d2 (map ss_unique_pubkey (st_spends stx)))
                         in (fst (file_remove_unconfirmed W d3 (st_spends stx)), w2, Ok (st_spends stx))))))"

definition store_unconfirmed_spend_requests :: "wallet_disk \<Rightarrow> hot_wallet \<Rightarrow> wallet_disk" where
  "store_unconfirmed_spend_requests d w = file_store_unconfirmed d (hw_unconfirmed w)"

subsection \<open>A wallet on disk\<close>

text \<open>What relies on MessagePack and hex: a note that is written is read back.\<close>

definition note_codec_correct :: "wallet_ops \<Rightarrow> bool" where
  "note_codec_correct W \<longleftrightarrow> (\<forall>cn hex. cn_to_hex W cn = Some hex \<longrightarrow> cn_from_hex W hex = Some cn)"

definition note_on_disk :: "wallet_ops \<Rightarrow> wallet_disk \<Rightarrow> main_pubkey \<Rightarrow> unique_pubkey \<times> nano_tokens \<Rightarrow> bool" where
  "note_on_disk W d pk e \<longleftrightarrow>
     (\<exists>cn. load_created_cash_note W d (fst e) = Some cn \<and> cn_unique_pubkey (w_bls W) cn = fst e
        \<and> cn_value (w_bls W) cn = snd e \<and> cn_main_pubkey cn = pk)"

text \<open>An unencrypted wallet whose index and note files agree.\<close>

definition plain_wallet :: "wallet_ops \<Rightarrow> main_secret_key \<Rightarrow> available_notes \<Rightarrow> wallet_disk \<Rightarrow> bool" where
  "plain_wallet W key m d \<longleftrightarrow>
     d_encrypted_key d = None \<and> d_secret_key d = Some key
     \<and> d_main_pubkey d = Some (main_pubkey_of (w_bls W) key) \<and> d_wallet d = Some m
     \<and> bmap_inv m \<and> (\<forall>e \<in> set m. note_on_disk W d (main_pubkey_of (w_bls W) key) e)"

definition available_total :: "available_notes \<Rightarrow> nat" where
  "available_total m = sum_list (map (\<lambda>(_, value). unat (as_nano value)) m)"

definition note_of :: "wallet_ops \<Rightarrow> wallet_disk \<Rightarrow> unique_pubkey \<times> nano_tokens \<Rightarrow> cash_note" where
  "note_of W d e = the (load_created_cash_note W d (fst e))"

lemma keyless_balance_total: "as_nano (keyless_balance m) = of_nat (available_total m)"
proof -
  have "fold (\<lambda>(_, value) balance. balance + as_nano value) m b = b + of_nat (available_total m)" for b
    by (induction m arbitrary: b) (auto simp: available_total_def)
  then show ?thesis by (simp add: keyless_balance_def)
qed

lemma plain_reload:
  assumes "plain_wallet W (hw_key w) m d"
  shows "hw_reload W now d w =
    (d, \<lparr> hw_key = hw_key w,
          hw_watchonly = \<lparr> wo_main_pubkey = main_pubkey_of (w_bls W) (hw_key w), wo_available = m \<rparr>,
          hw_unconfirmed = case_option [] id (d_unconfirmed d), hw_auth = auth_new \<rparr>, Ok ())"
  using assms
  by (simp add: hw_reload_def plain_wallet_def authenticate_def load_from_path_and_key_def
      get_main_key_from_disk_def load_with_key_def wo_load_from_def get_main_pubkey_def
      load_keyless_wallet_def)

lemma plain_notes:
  assumes "plain_wallet W key m d" and "e \<in> set m"
  shows "load_created_cash_note W d (fst e) = Some (note_of W d e)"
    and "cn_unique_pubkey (w_bls W) (note_of W d e) = fst e" and "cn_value (w_bls W) (note_of W d e) = snd e"
    and "cn_main_pubkey (note_of W d e) = main_pubkey_of (w_bls W) key"
  using assms by (auto simp: plain_wallet_def note_on_disk_def note_of_def)

lemma map_filter_all: "(\<And>x. x \<in> set xs \<Longrightarrow> f x = Some (g x)) \<Longrightarrow> List.map_filter f xs = map g xs"
  by (induction xs) (simp_all add: List.map_filter_simps)

lemma plain_spendable:
  assumes "plain_wallet W (hw_key w) m d" and "wo_available (hw_watchonly w) = m"
  shows "spendable_notes W d w = map (note_of W d) m"
  unfolding spendable_notes_def assms(2)
  using plain_notes [OF assms(1)] by (intro map_filter_all) (auto simp: cn_derived_key_def)

lemma plain_note_maps:
  assumes "plain_wallet W key m d"
  shows "map (cn_unique_pubkey (w_bls W)) (map (note_of W d) m) = map fst m"
    and "map (cn_value (w_bls W)) (map (note_of W d) m) = map snd m"
    and "distinct (map (cn_unique_pubkey (w_bls W)) (map (note_of W d) m))"
proof -
  show keys: "map (cn_unique_pubkey (w_bls W)) (map (note_of W d) m) = map fst m"
    and "map (cn_value (w_bls W)) (map (note_of W d) m) = map snd m"
    using plain_notes [OF assms] by simp_all
  show "distinct (map (cn_unique_pubkey (w_bls W)) (map (note_of W d) m))"
    unfolding keys using assms by (simp add: plain_wallet_def bmap_inv_distinct)
qed

lemma notes_total_values: "notes_total B ns = sum_list (map (\<lambda>v. unat (as_nano v)) (map (cn_value B) ns))"
  by (simp add: notes_total_def comp_def)

lemma delete_all: "fold AList.delete ks m = filter (\<lambda>e. fst e \<notin> set ks) m"
proof (induction ks arbitrary: m)
  case (Cons k ks)
  have "AList.delete k m = filter (\<lambda>e. fst e \<noteq> k) m" by (auto simp: AList.delete_eq case_prod_unfold intro: filter_cong)
  then show ?case using Cons by (auto intro: filter_cong)
qed simp

lemma bmap_inv_filter: "bmap_inv m \<Longrightarrow> bmap_inv (filter P m)"
  unfolding bmap_inv_def sorted_wrt_map by (rule sorted_wrt_filter)

text \<open>What is left when the used notes are taken out.\<close>

lemma used_notes_left:
  assumes "distinct (map (cn_unique_pubkey B) ns)"
  shows "notes_total B (filter (\<lambda>cn. cn_unique_pubkey B cn \<notin> cn_unique_pubkey B ` set (used_notes B tx ns)) ns)
     + notes_total B (used_notes B tx ns) = notes_total B ns"
proof -
  let ?xs = "big_to_small B ns" and ?n = "length (ut_spends tx)"
  let ?P = "\<lambda>cn. cn_unique_pubkey B cn \<notin> cn_unique_pubkey B ` set (take ?n ?xs)"
  have xs: "mset ?xs = mset ns" by (simp add: big_to_small_def)
  have tot: "notes_total B ys = notes_total B zs" if "mset ys = mset zs" for ys zs
    unfolding notes_total_def sum_mset_sum_list [symmetric] mset_map that ..
  have "mset (map (cn_unique_pubkey B) ?xs) = mset (map (cn_unique_pubkey B) ns)"
    unfolding mset_map xs ..
  from mset_eq_imp_distinct_iff [OF this] have "distinct (map (cn_unique_pubkey B) ?xs)"
    using assms by simp
  then have d: "distinct (map (cn_unique_pubkey B) (take ?n ?xs @ drop ?n ?xs))" by simp
  have "filter ?P (take ?n ?xs @ drop ?n ?xs) = filter ?P (drop ?n ?xs)"
    unfolding filter_append by simp
  also have "\<dots> = drop ?n ?xs"
    using d unfolding map_append distinct_append by (intro filter_True) auto
  finally have rest: "filter ?P ?xs = drop ?n ?xs" by simp
  have "mset (filter ?P ns) = mset (filter ?P ?xs)" unfolding mset_filter xs ..
  then have "notes_total B (filter ?P ns) = notes_total B (drop ?n ?xs)"
    unfolding rest by (rule tot)
  moreover have "notes_total B (take ?n ?xs) + notes_total B (drop ?n ?xs) = notes_total B ?xs"
    unfolding notes_total_def sum_list_append [symmetric] map_append [symmetric] append_take_drop_id ..
  ultimately show ?thesis using tot [OF xs] by (simp add: used_notes_def)
qed

lemma available_total_insert:
  assumes "k \<notin> fst ` set m"
  shows "available_total (bmap_insert k v m) = unat (as_nano v) + available_total m"
proof -
  let ?f = "\<lambda>(_, value). unat (as_nano value)"
  have "mset (map ?f (bmap_insert k v m)) = mset (map ?f ((k, v) # m))"
    using assms by (simp add: bmap_insert_fresh_mset)
  then have "sum_list (map ?f (bmap_insert k v m)) = sum_list (map ?f ((k, v) # m))"
    unfolding sum_mset_sum_list [symmetric] by (rule arg_cong)
  then show ?thesis by (simp add: available_total_def)
qed

lemma filter_note_maps:
  assumes "plain_wallet W key m d"
  shows "notes_total (w_bls W) (filter (\<lambda>cn. cn_unique_pubkey (w_bls W) cn \<notin> K) (map (note_of W d) m))
    = available_total (filter (\<lambda>e. fst e \<notin> K) m)"
proof -
  have 1: "filter (\<lambda>cn. cn_unique_pubkey (w_bls W) cn \<notin> K) (map (note_of W d) m)
      = map (note_of W d) (filter (\<lambda>e. fst e \<notin> K) m)"
    unfolding filter_map using plain_notes(2) [OF assms] by (intro arg_cong [where f = "map _"] filter_cong) auto
  have 2: "map (\<lambda>e. note_value (w_bls W) (note_of W d e)) (filter (\<lambda>e. fst e \<notin> K) m)
      = map (\<lambda>(_, value). unat (as_nano value)) (filter (\<lambda>e. fst e \<notin> K) m)"
    using plain_notes(3) [OF assms] by (intro map_cong) auto
  show ?thesis unfolding notes_total_def available_total_def 1 map_map comp_def by (rule arg_cong [OF 2])
qed

lemma plain_wallet_subset:
  assumes "plain_wallet W key m d"
  shows "plain_wallet W key (filter P m) (wo_store d \<lparr> wo_main_pubkey = pk, wo_available = filter P m \<rparr>)"
  using assms
  by (auto simp: plain_wallet_def wo_store_def store_wallet_def bmap_inv_filter note_on_disk_def
      load_created_cash_note_def)

lemma plain_wallet_add:
  assumes "plain_wallet W key m d" and "note_codec_correct W" and "cn_to_hex W cn = Some hex"
    and "cn_main_pubkey cn = main_pubkey_of (w_bls W) key"
    and "note_file W (cn_unique_pubkey (w_bls W) cn) \<notin> note_file W ` fst ` set m"
    and "m' = bmap_insert (cn_unique_pubkey (w_bls W) cn) (cn_value (w_bls W) cn) m"
    and "d' = d \<lparr> d_cash_notes := AList.update (note_file W (cn_unique_pubkey (w_bls W) cn)) hex (d_cash_notes d),
                  d_wallet := Some m' \<rparr>"
  shows "plain_wallet W key m' d'"
proof -
  let ?k = "cn_unique_pubkey (w_bls W) cn"
  have "?k \<notin> fst ` set m" using assms(5) by auto
  then have "set m' = insert (?k, cn_value (w_bls W) cn) (set m)"
    unfolding assms(6) using bmap_insert_fresh_mset by (metis set_mset_add_mset_insert set_mset_mset)
  moreover have "note_on_disk W d' (main_pubkey_of (w_bls W) key) (?k, cn_value (w_bls W) cn)"
    using assms(2,3,4,7)
    by (simp add: note_on_disk_def load_created_cash_note_def note_codec_correct_def update_conv)
  moreover have "note_on_disk W d' (main_pubkey_of (w_bls W) key) e" if e: "e \<in> set m" for e
  proof -
    have "note_file W (fst e) \<noteq> note_file W ?k" using assms(5) e by (metis image_eqI)
    then have "load_created_cash_note W d' (fst e) = load_created_cash_note W d (fst e)"
      using assms(7) by (simp add: load_created_cash_note_def update_conv)
    then show ?thesis using assms(1) e by (simp add: plain_wallet_def note_on_disk_def)
  qed
  ultimately show ?thesis
    using assms(1,7) bmap_insert_inv [of m] by (auto simp: plain_wallet_def assms(6))
qed

text \<open>How a signed transaction changes a wallet that made it from all its notes.\<close>

lemma update_local_wallet_plain:
  assumes plain: "plain_wallet W (hw_key w) m d" and "note_codec_correct W"
    and wo: "hw_watchonly w = \<lparr> wo_main_pubkey = main_pubkey_of (w_bls W) (hw_key w), wo_available = m \<rparr>"
    and tx: "signed_new (w_bls W) ci (map (note_of W d) m) rs (hw_address W w) reason (hw_key w) = Ok stx"
    and dist: "distinct (new_unique_pubkey (w_bls W) (hw_address W w) ci # map (recipient_key (w_bls W)) rs)"
    and fresh: "note_file W (new_unique_pubkey (w_bls W) (hw_address W w) ci) \<notin> note_file W ` fst ` set m"
    and upd: "update_local_wallet W d w stx pending = (d', w', Ok ())"
  shows "\<exists>m'. plain_wallet W (hw_key w) m' d' \<and> wo_available (hw_watchonly w') = m'
     \<and> hw_key w' = hw_key w \<and> available_total m' + recipients_total rs = available_total m"
proof -
  let ?B = "w_bls W" and ?ns = "map (note_of W d) m"
  let ?used = "used_notes ?B (built_tx ?B ci ?ns rs (hw_address W w) reason) ?ns"
  let ?K = "cn_unique_pubkey ?B ` set ?used"
  define m1 where "m1 = filter (\<lambda>e. fst e \<notin> ?K) m"
  note dn = plain_note_maps(3) [OF plain]
  have K: "set (bset_of id (map ss_unique_pubkey (st_spends stx))) = ?K"
    using bset_of_inj [of id "map ss_unique_pubkey (st_spends stx)"] signed_new_spent_keys [OF tx dn dist]
    by simp
  have mark: "mark_notes_as_spent (hw_watchonly w) (bset_of id (map ss_unique_pubkey (st_spends stx)))
      = \<lparr> wo_main_pubkey = main_pubkey_of ?B (hw_key w), wo_available = m1 \<rparr>"
    unfolding mark_notes_as_spent_def delete_all K by (simp add: wo m1_def)
  have "notes_total ?B ?ns = available_total m"
    using filter_note_maps [OF plain, of "{}"] by simp
  then have left: "available_total m1 + notes_total ?B ?used = available_total m"
    using used_notes_left [OF dn, of "built_tx ?B ci ?ns rs (hw_address W w) reason"]
      filter_note_maps [OF plain, of ?K] unfolding m1_def by simp
  note change = signed_new_change [OF tx dn dist]
  show ?thesis
  proof (cases "change_cashnote stx")
    case None
    have "d' = wo_store d \<lparr> wo_main_pubkey = main_pubkey_of ?B (hw_key w), wo_available = m1 \<rparr>"
      and "wo_available (hw_watchonly w') = m1" and "hw_key w' = hw_key w"
      using upd None mark by (auto simp: update_local_wallet_def Let_def split: if_splits)
    then show ?thesis
      using plain_wallet_subset [OF plain, of "\<lambda>e. fst e \<notin> ?K"] left change None
      unfolding m1_def by auto
  next
    case (Some cn)
    then have cn: "cn_main_pubkey cn = main_pubkey_of ?B (hw_key w)" "cn_derivation_index cn = ci"
      "note_value ?B cn + recipients_total rs = notes_total ?B ?used"
      using change by (simp_all add: hw_address_def)
    have key: "cn_unique_pubkey ?B cn = new_unique_pubkey ?B (hw_address W w) ci"
      by (simp add: cn_unique_pubkey_def cn hw_address_def)
    obtain hex where hex: "cn_to_hex W cn = Some hex"
      using upd Some by (cases "cn_to_hex W cn") (auto simp: update_local_wallet_def Let_def)
    define m' where "m' = bmap_insert (cn_unique_pubkey ?B cn) (cn_value ?B cn) m1"
    have w': "wo_available (hw_watchonly w') = m'" "hw_key w' = hw_key w"
      and d': "d' = d \<lparr> d_cash_notes := AList.update (note_file W (cn_unique_pubkey ?B cn)) hex (d_cash_notes d),
                       d_wallet := Some m' \<rparr>"
      using upd Some mark hex cn(1)
      by (auto simp: update_local_wallet_def Let_def wo_deposit_def wo_insert_def cn_derived_pubkey_def
          wo_store_def store_wallet_def m'_def split: if_splits)
    have sub: "set m1 \<subseteq> set m" by (auto simp: m1_def)
    have plain1: "plain_wallet W (hw_key w) m1 (d \<lparr> d_wallet := Some m1 \<rparr>)"
      using plain_wallet_subset [OF plain, of "\<lambda>e. fst e \<notin> ?K"]
      by (simp add: wo_store_def store_wallet_def m1_def)
    have fresh1: "note_file W (cn_unique_pubkey ?B cn) \<notin> note_file W ` fst ` set m1"
      using fresh sub unfolding key by blast
    then have "cn_unique_pubkey ?B cn \<notin> fst ` set m1" by auto
    then have "available_total m' + recipients_total rs = available_total m"
      using left cn(3) by (simp add: m'_def available_total_insert)
    moreover have "plain_wallet W (hw_key w) m' d'"
      by (rule plain_wallet_add [OF plain1 assms(2) hex cn(1) fresh1 m'_def]) (simp add: d')
    ultimately show ?thesis using w' by blast
  qed
qed

subsection \<open>Reading the wallet file\<close>

lemma load_attempts_first:
  "load_attempts reads n =
     (case dropWhile (\<lambda>i. reads i \<in> {ReadGarbled, ReadWouldBlock}) [n..<10] of
        [] \<Rightarrow> Err Io
      | i # _ \<Rightarrow> (case reads i of ReadWallet m \<Rightarrow> Ok m | _ \<Rightarrow> Err Io))"
proof (induction reads n rule: load_attempts.induct)
  case (1 reads n)
  show ?case
  proof (cases "n < 10")
    case True
    then have "[n..<10] = n # [n + 1..<10]" by (simp add: upt_conv_Cons)
    then show ?thesis
      using 1 True load_attempts.simps [of reads n] by (cases "reads n") simp_all
  qed (simp add: load_attempts.simps [of reads n])
qed

text \<open>C35: the loop that reads the wallet file always ends, after at most ten reads: its result is
  that of the first of ten reads that does not find the file being written, and an I/O error
  when there is none.\<close>

theorem wallet_load_terminates:
  "load_attempts reads 0 =
     (case dropWhile (\<lambda>i. reads i \<in> {ReadGarbled, ReadWouldBlock}) [0..<10] of
        [] \<Rightarrow> Err Io
      | i # _ \<Rightarrow> (case reads i of ReadWallet m \<Rightarrow> Ok m | _ \<Rightarrow> Err Io))"
  by (rule load_attempts_first)

text \<open>A send of a plain wallet, step by step.\<close>

definition reloaded :: "wallet_ops \<Rightarrow> available_notes \<Rightarrow> wallet_disk \<Rightarrow> hot_wallet \<Rightarrow> hot_wallet" where
  "reloaded W m d w = \<lparr> hw_key = hw_key w,
      hw_watchonly = \<lparr> wo_main_pubkey = main_pubkey_of (w_bls W) (hw_key w), wo_available = m \<rparr>,
      hw_unconfirmed = case_option [] id (d_unconfirmed d), hw_auth = auth_new \<rparr>"

lemma reloaded_simps [simp]:
  "hw_key (reloaded W m d w) = hw_key w" "hw_address W (reloaded W m d w) = hw_address W w"
  "hw_unconfirmed (reloaded W m d w) = case_option [] id (d_unconfirmed d)"
  "hw_watchonly (reloaded W m d w)
     = \<lparr> wo_main_pubkey = main_pubkey_of (w_bls W) (hw_key w), wo_available = m \<rparr>"
  by (simp_all add: reloaded_def hw_address_def)

lemma available_plain:
  assumes "plain_wallet W (hw_key w) m d"
  shows "available_cash_notes W now d w = (d, reloaded W m d w, Ok (map (note_of W d) m))"
  using plain_reload [OF assms] plain_spendable [of W "reloaded W m d w" m d] assms
  by (simp add: available_cash_notes_def reloaded_def)

abbreviation send_recipients ::
    "(nano_tokens \<times> main_pubkey) list \<Rightarrow> derivation_index list \<Rightarrow> recipient list" where
  "send_recipients to indexes \<equiv>
     map (\<lambda>((amount, address), i). (amount, address, i, False)) (zip to indexes)"

lemma send_recipients_keys:
  "map (recipient_key B) (send_recipients to indexes)
     = map (\<lambda>((_, pk), i). new_unique_pubkey B pk i) (zip to indexes)"
  by (auto simp: recipient_key_def)

lemma local_send_plainD:
  assumes "plain_wallet W (hw_key w) m d"
    and "local_send W now indexes ci d w to reason = (d', w', Ok sent)"
  obtains stx where "signed_new (w_bls W) ci (map (note_of W d) m) (send_recipients to indexes) (hw_address W w)
      (case_option NoReason id reason) (hw_key w) = Ok stx"
    and "update_local_wallet W d (reloaded W m d w) stx True = (d', w', Ok ())"
    and "sent = output_cashnotes stx"
  using assms(2) available_plain [OF assms(1)]
  by (auto simp: local_send_def split: sum.splits prod.splits)

lemma local_send_plain:
  assumes "plain_wallet W (hw_key w) m d" and "note_codec_correct W"
    and "local_send W now indexes ci d w to reason = (d', w', Ok sent)"
    and "distinct (new_unique_pubkey (w_bls W) (hw_address W w) ci
           # map (\<lambda>((_, pk), i). new_unique_pubkey (w_bls W) pk i) (zip to indexes))"
    and "note_file W (new_unique_pubkey (w_bls W) (hw_address W w) ci) \<notin> note_file W ` fst ` set m"
  shows "\<exists>m'. plain_wallet W (hw_key w) m' d' \<and> wo_available (hw_watchonly w') = m' \<and> hw_key w' = hw_key w
      \<and> available_total m' + recipients_total (send_recipients to indexes) = available_total m"
    and "map (\<lambda>cn. (cn_value (w_bls W) cn, cn_main_pubkey cn)) sent
      = map (\<lambda>r. (fst r, fst (snd r))) (send_recipients to indexes)"
    and "hw_unconfirmed w' \<noteq> []" and "d_unconfirmed d' = d_unconfirmed d"
proof -
  obtain stx where tx: "signed_new (w_bls W) ci (map (note_of W d) m) (send_recipients to indexes)
      (hw_address W w) (case_option NoReason id reason) (hw_key w) = Ok stx"
    and upd: "update_local_wallet W d (reloaded W m d w) stx True = (d', w', Ok ())"
    and sent: "sent = output_cashnotes stx"
    by (rule local_send_plainD [OF assms(1,3)])
  have dist: "distinct (new_unique_pubkey (w_bls W) (hw_address W w) ci
      # map (recipient_key (w_bls W)) (send_recipients to indexes))"
    unfolding send_recipients_keys by (rule assms(4))
  note dn = plain_note_maps(3) [OF assms(1)]
  show "map (\<lambda>cn. (cn_value (w_bls W) cn, cn_main_pubkey cn)) sent
      = map (\<lambda>r. (fst r, fst (snd r))) (send_recipients to indexes)"
    unfolding sent
    by (rule list_all2_map_eq [OF list_all2_conv_flip [OF signed_new_outputs [OF tx dn dist]]]) auto
  show "\<exists>m'. plain_wallet W (hw_key w) m' d' \<and> wo_available (hw_watchonly w') = m' \<and> hw_key w' = hw_key w
      \<and> available_total m' + recipients_total (send_recipients to indexes) = available_total m"
    using update_local_wallet_plain [of W "reloaded W m d w" m d ci "send_recipients to indexes"
        "case_option NoReason id reason" stx True d' w'] tx dist upd assms(1,2,5) by simp
  show "d_unconfirmed d' = d_unconfirmed d"
    using upd by (auto simp: update_local_wallet_def Let_def wo_store_def store_wallet_def
        split: option.splits sum.splits)
  have "st_spends stx \<noteq> []"
  proof
    assume "st_spends stx = []"
    then have "used_notes (w_bls W) (built_tx (w_bls W) ci (map (note_of W d) m) (send_recipients to indexes)
        (hw_address W w) (case_option NoReason id reason)) (map (note_of W d) m) = []"
      using signed_new_spent_keys [OF tx dn dist] by simp
    then have "recipients_total (send_recipients to indexes) = 0"
      using signed_new_change [OF tx dn dist] by (simp add: notes_total_def split: option.splits)
    then show False using unsigned_new_OkD(2) [OF signed_new_OkD(1) [OF tx]] by simp
  qed
  moreover have "signed_spend_key ` set (st_spends stx) \<subseteq> signed_spend_key ` set (hw_unconfirmed w')"
    using upd by (auto simp: update_local_wallet_def Let_def bset_extend_keys split: option.splits sum.splits)
  ultimately show "hw_unconfirmed w' \<noteq> []" by auto
qed

lemma send_recipients_maps:
  assumes "length indexes = length to"
  shows "recipients_total (send_recipients to indexes) = sum_list (map (\<lambda>(amount, _). unat (as_nano amount)) to)"
    and "map (\<lambda>r. (fst r, fst (snd r))) (send_recipients to indexes) = to"
proof -
  show *: "map (\<lambda>r. (fst r, fst (snd r))) (send_recipients to indexes) = to"
    using assms by (auto simp: list_eq_iff_nth_eq case_prod_unfold)
  have "recipients_total rs = sum_list (map (\<lambda>(amount, _). unat (as_nano amount)) (map (\<lambda>r. (fst r, fst (snd r))) rs))" for rs
    by (simp add: recipients_total_def case_prod_unfold comp_def)
  from this [of "send_recipients to indexes"]
  show "recipients_total (send_recipients to indexes) = sum_list (map (\<lambda>(amount, _). unat (as_nano amount)) to)"
    unfolding * .
qed

subsection \<open>Properties\<close>

text \<open>C4: a wallet that sends tokens gives each recipient a note of its amount, and what it has
  left is what it had minus what it sent. The wallet on disk stays consistent: every note in
  its index is on disk with its key and value.\<close>

theorem local_send_conserves:
  assumes "plain_wallet W (hw_key w) m d" and "note_codec_correct W"
    and "local_send W now indexes ci d w to reason = (d', w', Ok sent)"
    and "length indexes = length to"
    and "distinct (new_unique_pubkey (w_bls W) (hw_address W w) ci
           # map (\<lambda>((_, pk), i). new_unique_pubkey (w_bls W) pk i) (zip to indexes))"
    and "note_file W (new_unique_pubkey (w_bls W) (hw_address W w) ci) \<notin> note_file W ` fst ` set m"
  shows "\<exists>m'. plain_wallet W (hw_key w) m' d' \<and> wo_available (hw_watchonly w') = m' \<and> hw_key w' = hw_key w
     \<and> available_total m' + sum_list (map (\<lambda>(amount, _). unat (as_nano amount)) to) = available_total m
     \<and> map (\<lambda>cn. (cn_value (w_bls W) cn, cn_main_pubkey cn)) sent = to"
  using local_send_plain(1,2) [OF assms(1,2,3,5,6)] unfolding send_recipients_maps [OF assms(4)] by auto

text \<open>C37: the spends that a wallet signed and has not yet sent to the network are only kept in
  memory. The next operation that reloads the wallet forgets them, while the notes they spend
  stay out of the wallet.\<close>

theorem sent_spends_forgotten:
  assumes "plain_wallet W (hw_key w) m d" and "note_codec_correct W" and "d_unconfirmed d = None"
    and "local_send W now indexes ci d w to reason = (d', w', Ok sent)"
    and "length indexes = length to"
    and "distinct (new_unique_pubkey (w_bls W) (hw_address W w) ci
           # map (\<lambda>((_, pk), i). new_unique_pubkey (w_bls W) pk i) (zip to indexes))"
    and "note_file W (new_unique_pubkey (w_bls W) (hw_address W w) ci) \<notin> note_file W ` fst ` set m"
  shows "hw_unconfirmed w' \<noteq> []
     \<and> (\<exists>w2 ns. available_cash_notes W later d' w' = (d', w2, Ok ns) \<and> hw_unconfirmed w2 = []
          \<and> available_total (wo_available (hw_watchonly w2))
              + sum_list (map (\<lambda>(amount, _). unat (as_nano amount)) to) = available_total m)"
proof -
  note send = local_send_plain [OF assms(1,2,4,6,7)]
  obtain m' where m': "plain_wallet W (hw_key w') m' d'"
    "available_total m' + recipients_total (send_recipients to indexes) = available_total m"
    using send(1) by auto
  then show ?thesis
    using available_plain [OF m'(1), of later] send(3,4) assms(3)
    unfolding send_recipients_maps [OF assms(5)] by simp
qed

text \<open>A hot wallet refuses to sign the transactions that it builds, since it first verifies them
  as unsigned transactions, whose outputs have no value yet.\<close>

theorem wallet_never_signs:
  assumes "hw_build_unsigned_transaction W indexes ci d w to reason = (d', w', Ok tx)"
    and "distinct (new_unique_pubkey (w_bls W) (wo_main_pubkey (hw_watchonly w)) ci
           # map (\<lambda>((_, pk), i). new_unique_pubkey (w_bls W) pk i) (zip to indexes))"
  shows "hw_sign W signer tx = Err (CouldNotSignTransaction ''Failed to verify unsigned transaction'')"
proof -
  obtain d1 w1 where load: "wo_reload d (hw_watchonly w) = (d1, w1, Ok ())"
    and tx: "unsigned_new (w_bls W) ci (List.map_filter (\<lambda>(k, _). load_created_cash_note W d1 k) (wo_available w1))
      (send_recipients to indexes) (wo_main_pubkey w1) (case_option NoReason id reason) = Ok tx"
    using assms(1)
    by (auto simp: hw_build_unsigned_transaction_def wo_build_unsigned_transaction_def Let_def
        split: prod.splits sum.splits)
  have "wo_main_pubkey w1 = wo_main_pubkey (hw_watchonly w)"
    using load by (auto simp: wo_reload_def wo_load_from_def load_keyless_wallet_def
        split: option.splits if_splits)
  then have "distinct (new_unique_pubkey (w_bls W) (wo_main_pubkey w1) ci
      # map (recipient_key (w_bls W)) (send_recipients to indexes))"
    unfolding send_recipients_keys using assms(2) by simp
  then have "\<not> is_ok (unsigned_verify (w_bls W) tx)"
    using unsigned_verify_new [OF tx] by (simp del: map_map)
  then show ?thesis by (simp add: hw_sign_def)
qed

text \<open>An encrypted wallet forgets its password with every operation that reloads it: after one
  successful reload the user has to authenticate again, at once.\<close>

theorem encrypted_wallet_forgets_password:
  assumes "d_encrypted_key d \<noteq> None" and "hw_reload W now d w = (d', w', Ok ())"
  shows "snd (authenticate (w_keys W) later d' (hw_auth w')) = Err WalletPasswordRequired"
proof -
  obtain opt where "load_from_path_and_key W [] [] d None opt = (d', Ok w')"
    using assms(2) by (auto simp: hw_reload_def split: prod.splits sum.splits if_splits)
  then have "hw_auth w' = auth_new" and "d_encrypted_key d' = d_encrypted_key d"
    by (auto simp: load_from_path_and_key_def load_with_key_def wo_load_from_def load_keyless_wallet_def
        store_wallet_def store_new_pubkey_def split: sum.splits option.splits if_splits prod.splits)
  then show ?thesis using assms(1) by (simp add: authenticate_def auth_new_def)
qed

text \<open>Loading the notes of the wallet directory makes a note available again whatever the
  wallet knows about it, also when it was spent, unless another note on disk was made from it:
  after a send without change the spent notes come back.\<close>

theorem spent_note_reloaded:
  assumes "cn \<in> set (load_cash_notes_from_disk W d)" and "cn_main_pubkey cn = wo_main_pubkey w"
    and "\<forall>cn' \<in> set (load_cash_notes_from_disk W d).
           cn_unique_pubkey (w_bls W) cn \<notin> ss_unique_pubkey ` set (parent_spends cn')"
  shows "map_of (wo_available (snd (try_load_cash_notes W d w))) (cn_unique_pubkey (w_bls W) cn) \<noteq> None"
proof -
  let ?k = "cn_unique_pubkey (w_bls W) cn"
  have main: "wo_main_pubkey (foldl (wo_insert B) w' cns) = wo_main_pubkey w'" for B w' cns
    by (induction cns arbitrary: w') (simp_all add: wo_insert_def)
  have keep: "k \<in> fst ` set (wo_available w') \<Longrightarrow>
      k \<in> fst ` set (wo_available (foldl (wo_insert B) w' cns))" for B w' cns k
    by (induction cns arbitrary: w') (simp_all add: wo_insert_def)
  have "?k \<in> fst ` set (wo_available (wo_deposit (w_bls W) w cns))" if in_cns: "cn \<in> set cns" for cns
  proof -
    obtain xs ys where cns: "cns = xs @ cn # ys" using split_list [OF in_cns] by blast
    show ?thesis
      unfolding wo_deposit_def cns foldl_append foldl_Cons
      by (rule keep) (simp add: wo_insert_def main cn_derived_pubkey_def assms(2))
  qed
  then have "?k \<in> fst ` set (wo_available (wo_deposit (w_bls W) w (load_cash_notes_from_disk W d)))"
    using assms(1) by blast
  moreover have "?k \<notin> set (bset_of id (concat (map (\<lambda>cn. map ss_unique_pubkey (parent_spends cn))
      (load_cash_notes_from_disk W d))))"
    using assms(3) bset_of_subset by fastforce
  ultimately have "?k \<in> fst ` set (wo_available (snd (try_load_cash_notes W d w)))"
    by (auto simp: try_load_cash_notes_def Let_def mark_notes_as_spent_def delete_all image_iff)
  then show ?thesis by (simp add: map_of_eq_None_iff)
qed

subsection \<open>Examples\<close>

text \<open>A wallet with one note of 5 nanos, stored with a codec that knows this note only.\<close>

definition example_keys :: key_ops where
  "example_keys = \<lparr> pbkdf2 = (\<lambda>salt pw. pw), aead_seal = (\<lambda>k nonce m. Some (k @ m)),
     aead_open = (\<lambda>k nonce c. if take (length k) c = k then Some (drop (length k) c) else None),
     key_hex = map (\<lambda>b. char_of (unat b)), key_unhex = (\<lambda>s. Some (map of_char s)),
     sk_from_bytes = (\<lambda>bs. Some (fold (\<lambda>b a. 256 * a + ucast b) bs 0)) \<rparr>"

definition example_wallet_ops :: wallet_ops where
  "example_wallet_ops = \<lparr> w_bls = xor_bls, w_net = example_net, w_keys = example_keys,
     w_transfer = example_transfer_ops (cnr_from_cash_note example_net (example_note 1 5)),
     note_to_vec = (\<lambda>cn. if cn = example_note 1 5 then Some [65] else None),
     note_from_slice = (\<lambda>bs. if bs = [65] then Some (example_note 1 5) else None),
     spend_from_slice = (\<lambda>_. None), iter_order = id, royalties_pk = 99 \<rparr>"

definition example_disk :: wallet_disk where
  "example_disk = empty_disk \<lparr> d_secret_key := Some 7, d_main_pubkey := Some 7,
     d_wallet := Some [(6, NanoTokens 5)],
     d_cash_notes := [(note_file example_wallet_ops 6, ''A'')] \<rparr>"

definition example_hot_wallet :: hot_wallet where
  "example_hot_wallet = \<lparr> hw_key = 7, hw_watchonly = \<lparr> wo_main_pubkey = 7, wo_available = [] \<rparr>,
     hw_unconfirmed = [], hw_auth = auth_new \<rparr>"

lemma example_wallet_simps [simp]:
  "w_bls example_wallet_ops = xor_bls" "w_keys example_wallet_ops = example_keys"
  "hw_key example_hot_wallet = 7" "hw_address example_wallet_ops example_hot_wallet = 7"
  "d_unconfirmed example_disk = None"
  by (simp_all add: example_wallet_ops_def example_hot_wallet_def hw_address_def main_pubkey_of_def
      example_disk_def empty_disk_def)

lemma example_note_hex:
  "cn_to_hex example_wallet_ops (example_note 1 5) = Some ''A''"
  "cn_from_hex example_wallet_ops ''A'' = Some (example_note 1 5)"
  by (simp_all add: cn_to_hex_def cn_from_hex_def example_wallet_ops_def example_keys_def char_of_def bit_simps)

lemma example_codec: "note_codec_correct example_wallet_ops"
proof -
  have "cn_to_hex example_wallet_ops cn = None" if "cn \<noteq> example_note 1 5" for cn
    using that by (simp add: cn_to_hex_def example_wallet_ops_def)
  then show ?thesis unfolding note_codec_correct_def using example_note_hex
    by (metis option.distinct(1) option.inject)
qed

lemma example_load: "load_created_cash_note example_wallet_ops example_disk 6 = Some (example_note 1 5)"
  by (simp add: load_created_cash_note_def example_disk_def example_note_hex)

lemma example_plain: "plain_wallet example_wallet_ops (hw_key example_hot_wallet) [(6, NanoTokens 5)] example_disk"
  unfolding plain_wallet_def note_on_disk_def
  by (simp add: example_load) (simp add: example_disk_def empty_disk_def main_pubkey_of_def bmap_inv_def)

lemma example_signed:
  "\<exists>stx. signed_new xor_bls 9 [example_note 1 5] [(NanoTokens 5, 20, 2, False)] 7 NoReason 7 = Ok stx
     \<and> change_cashnote stx = None"
proof -
  obtain stx where stx: "signed_new xor_bls 9 [example_note 1 5] [(NanoTokens 5, 20, 2, False)] 7 NoReason 7
      = Ok stx"
    by (simp add: signed_new_def unsigned_new_eq notes_total_def recipients_total_def unsigned_sign_def Let_def)
  have "change_cashnote stx = None"
    unfolding signed_new_OkD(3) [OF stx]
    by (simp add: built_tx_def big_to_small_def make_outputs_def distribute_input.simps Let_def
        cn_unique_pubkey_def [of _ "\<lparr>parent_spends = [], cn_main_pubkey = x,
          cn_derivation_index = y\<rparr>" for x y] new_unique_pubkey_def)
  then show ?thesis using stx by blast
qed

lemma example_change_file:
  "note_file example_wallet_ops (new_unique_pubkey xor_bls 7 9) \<noteq> note_file example_wallet_ops 6"
proof -
  have "xor_from_content example_net (be_bytes (14 :: 384 word)) \<noteq> xor_from_content example_net (be_bytes (6 :: 384 word))"
    by code_simp
  then show ?thesis
    by (simp add: note_file_def spend_address_of_def new_unique_pubkey_def example_wallet_ops_def)
qed

lemma example_send:
  "\<exists>d' w' sent. local_send example_wallet_ops 0 [2] 9 example_disk example_hot_wallet
     [(NanoTokens 5, 20)] None = (d', w', Ok sent)"
  using example_signed available_plain [OF example_plain, of 0]
  by (auto simp: local_send_def note_of_def example_load update_local_wallet_def Let_def)

theorem local_send_conserves_witness:
  "\<exists>d' w' sent m'. local_send example_wallet_ops 0 [2] 9 example_disk example_hot_wallet
       [(NanoTokens 5, 20)] None = (d', w', Ok sent)
     \<and> plain_wallet example_wallet_ops 7 m' d' \<and> wo_available (hw_watchonly w') = m'
     \<and> available_total m' = 0"
proof -
  obtain d' w' sent where send: "local_send example_wallet_ops 0 [2] 9 example_disk example_hot_wallet
     [(NanoTokens 5, 20)] None = (d', w', Ok sent)"
    using example_send by blast
  have "\<exists>m'. plain_wallet example_wallet_ops (hw_key example_hot_wallet) m' d'
      \<and> wo_available (hw_watchonly w') = m' \<and> available_total m' = 0"
    using local_send_conserves [OF example_plain example_codec send] example_change_file
    by (auto simp: new_unique_pubkey_def available_total_def)
  then show ?thesis using send by auto
qed

theorem sent_spends_forgotten_witness:
  "\<exists>d' w' sent w2 ns. local_send example_wallet_ops 0 [2] 9 example_disk example_hot_wallet
       [(NanoTokens 5, 20)] None = (d', w', Ok sent)
     \<and> hw_unconfirmed w' \<noteq> [] \<and> available_cash_notes example_wallet_ops 1 d' w' = (d', w2, Ok ns)
     \<and> hw_unconfirmed w2 = []"
proof -
  obtain d' w' sent where send: "local_send example_wallet_ops 0 [2] 9 example_disk example_hot_wallet
     [(NanoTokens 5, 20)] None = (d', w', Ok sent)"
    using example_send by blast
  show ?thesis
    using sent_spends_forgotten [OF example_plain example_codec _ send, of 1] send example_change_file
    by (auto simp: new_unique_pubkey_def)
qed

lemma example_build:
  "\<exists>d' w' tx. hw_build_unsigned_transaction example_wallet_ops [2] 9 example_disk example_hot_wallet
     [(NanoTokens 5, 20)] None = (d', w', Ok tx)"
proof -
  have "wo_reload example_disk (hw_watchonly example_hot_wallet)
      = (example_disk, \<lparr> wo_main_pubkey = 7, wo_available = [(6, NanoTokens 5)] \<rparr>, Ok ())"
    by (simp add: wo_reload_def wo_load_from_def get_main_pubkey_def load_keyless_wallet_def
        example_disk_def example_hot_wallet_def)
  then show ?thesis
    by (simp add: hw_build_unsigned_transaction_def wo_build_unsigned_transaction_def example_load
        unsigned_new_eq notes_total_def recipients_total_def List.map_filter_simps Let_def)
qed

theorem wallet_never_signs_witness:
  "\<exists>d' w' tx. hw_build_unsigned_transaction example_wallet_ops [2] 9 example_disk example_hot_wallet
       [(NanoTokens 5, 20)] None = (d', w', Ok tx) \<and> \<not> is_ok (hw_sign example_wallet_ops w' tx)"
proof -
  obtain d' w' tx where build: "hw_build_unsigned_transaction example_wallet_ops [2] 9 example_disk
      example_hot_wallet [(NanoTokens 5, 20)] None = (d', w', Ok tx)"
    using example_build by blast
  have "\<not> is_ok (hw_sign example_wallet_ops w' tx)"
    using wallet_never_signs [OF build, of w'] by (simp add: new_unique_pubkey_def example_hot_wallet_def)
  then show ?thesis using build by blast
qed

definition example_encrypted_disk :: wallet_disk where
  "example_encrypted_disk = empty_disk \<lparr> d_main_pubkey := Some 7, d_wallet := Some [],
     d_encrypted_key := Some \<lparr> ek_encrypted_secret_key = ''pw'' @ replicate 31 (CHR 0x00) @ [CHR 0x07],
        ek_salt = [], ek_nonce = replicate 12 (CHR 0x00) \<rparr> \<rparr>"

theorem encrypted_wallet_forgets_password_witness:
  "\<exists>am d' w'. authenticate_with_password example_keys 0 example_encrypted_disk auth_new ''pw'' = (am, Ok ())
     \<and> hw_reload example_wallet_ops 1 example_encrypted_disk (example_hot_wallet \<lparr> hw_auth := am \<rparr>)
         = (d', w', Ok ())
     \<and> snd (authenticate example_keys 2 d' (hw_auth w')) = Err WalletPasswordRequired"
proof -
  have key: "get_main_key_from_disk example_keys example_encrypted_disk (Some ''pw'') = Ok 7"
    by code_simp
  have enc: "d_encrypted_key example_encrypted_disk \<noteq> None"
    by (simp add: example_encrypted_disk_def)
  have ver: "verify_password example_keys example_encrypted_disk ''pw'' = Ok ()"
    using key enc by (auto simp: verify_password_def get_main_key_from_disk_def)
  obtain am where am: "authenticate_with_password example_keys 0 example_encrypted_disk auth_new ''pw''
      = (am, Ok ())"
    by (simp add: authenticate_with_password_def ver)
  have "snd (authenticate example_keys 1 example_encrypted_disk am) = Ok (Some ''pw'')"
    by (rule authenticate_after_login [OF am]) (simp add: PASSWORD_EXPIRATION_TIME_SECS_def)
  then obtain am' where am': "authenticate example_keys 1 example_encrypted_disk am = (am', Ok (Some ''pw''))"
    by (metis prod.collapse)
  have "wo_load_from example_encrypted_disk 7
      = (example_encrypted_disk, Ok \<lparr> wo_main_pubkey = 7, wo_available = [] \<rparr>)"
    by (simp add: wo_load_from_def get_main_pubkey_def load_keyless_wallet_def example_encrypted_disk_def)
  then obtain d' w' where reload: "hw_reload example_wallet_ops 1 example_encrypted_disk
      (example_hot_wallet \<lparr> hw_auth := am \<rparr>) = (d', w', Ok ())"
    using am' by (simp add: hw_reload_def load_from_path_and_key_def key load_with_key_def main_pubkey_of_def
        example_hot_wallet_def)
  then show ?thesis
    using encrypted_wallet_forgets_password [OF enc reload, of 2] am by auto
qed

theorem spent_note_reloaded_witness:
  "map_of (wo_available (snd (try_load_cash_notes example_wallet_ops example_disk
     \<lparr> wo_main_pubkey = 7, wo_available = [] \<rparr>))) 6 \<noteq> None"
proof -
  have disk: "load_cash_notes_from_disk example_wallet_ops example_disk = [example_note 1 5]"
    by (simp add: load_cash_notes_from_disk_def example_disk_def example_note_hex)
  have "6 \<notin> ss_unique_pubkey ` set (parent_spends (example_note 1 5))"
    by (simp add: example_note_def ss_unique_pubkey_def)
  then show ?thesis
    using spent_note_reloaded [of "example_note 1 5" example_wallet_ops example_disk
        "\<lparr> wo_main_pubkey = 7, wo_available = [] \<rparr>"]
    by (simp add: disk)
qed

end
