(* ===== verification/Storage_Payments.thy ===== *)
theory Storage_Payments
  imports Wallets
begin

text \<open>
  What paying for storage leaves in the wallet (hot\_wallet.rs, \<open>local_send_storage_payment\<close>):
  the payments that the client attaches to its uploads. The operations are those of
  \<open>Wallets\<close>; here the loops that collect the payees and that look for the note of each payee
  are related to the price map.
\<close>

section \<open>Payments for storage\<close>

subsection \<open>The payees\<close>

abbreviation price_keys ::
    "wallet_ops \<Rightarrow> price_map \<Rightarrow> (derivation_index \<times> derivation_index) list \<Rightarrow> unique_pubkey list" where
  "price_keys W prices indexes \<equiv>
     concat (map (\<lambda>((_, pk, _, _), i, j).
       [new_unique_pubkey (w_bls W) pk i, new_unique_pubkey (w_bls W) (royalties_pk W) j]) (zip prices indexes))"

definition prices_storage :: "price_map \<Rightarrow> nat" where
  "prices_storage prices = sum_list (map (\<lambda>(_, _, q, _). unat (as_nano (q_cost q))) prices)"

definition prices_royalties :: "price_map \<Rightarrow> nat" where
  "prices_royalties prices =
     sum_list (map (\<lambda>(_, _, q, _). unat (as_nano (calculate_royalties_fee (q_cost q)))) prices)"

lemma storage_recipients_ok:
  assumes "storage_recipients W prices indexes sc rf = Ok (rs, sc', rf')"
    and "length prices \<le> length indexes"
  shows "map (\<lambda>(name, (amount, pk, _, peer), (fee, rpk, _)). (name, amount, pk, peer, fee, rpk)) rs
       = map (\<lambda>(name, pk, q, peer). (name, q_cost q, pk, peer, calculate_royalties_fee (q_cost q), royalties_pk W)) prices"
    and "map (recipient_key (w_bls W)) (payees_to_recipients rs) = price_keys W prices indexes"
    and "unat (as_nano sc') = unat (as_nano sc) + prices_storage prices"
    and "unat (as_nano rf') = unat (as_nano rf) + prices_royalties prices"
    and "recipients_total (payees_to_recipients rs) = prices_storage prices + prices_royalties prices"
  using assms
  by (induction W prices indexes sc rf arbitrary: rs sc' rf' rule: storage_recipients.induct)
    (fastforce simp: result_simps Let_def nano_checked_add_Some_iff payees_to_recipients_def prices_storage_def
      prices_royalties_def recipients_total_def recipient_key_def)+

subsection \<open>The payments of a price map\<close>

definition iter_permutes :: "wallet_ops \<Rightarrow> bool" where
  "iter_permutes W \<longleftrightarrow> (\<forall>xs. set (iter_order W xs) = set xs)"

text \<open>The payment of one payee, made with the notes of a list.\<close>

definition payment_made ::
    "wallet_ops \<Rightarrow> price_map \<Rightarrow> cash_note list \<Rightarrow> xor_name \<times> payees \<Rightarrow> payment_details \<Rightarrow> bool" where
  "payment_made W prices cns e p \<longleftrightarrow>
     (case e of (name, (amount, pk, _, peer), (fee, rpk, _)) \<Rightarrow>
        pd_recipient p = pk \<and> pd_peer_id_bytes p = peer \<and> snd (pd_transfer p) = amount \<and> snd (pd_royalties p) = fee
        \<and> (\<exists>pk' peer'. map_of prices name = Some (pk', pd_quote p, peer'))
        \<and> (\<exists>cn \<in> set cns. cn_value (w_bls W) cn = amount \<and> cn_main_pubkey cn = pk
             \<and> transfer_from_cash_note (w_net W) (w_transfer W) cn = Ok (fst (pd_transfer p)))
        \<and> (\<exists>rcn \<in> set cns. cn_value (w_bls W) rcn = fee \<and> cn_main_pubkey rcn = rpk
             \<and> royalties_transfer_from_cash_note (w_net W) rcn = Ok (fst (pd_royalties p))))"

lemma find_noteD:
  assumes "find_note W cns amount pk = Some cn" and "iter_permutes W"
  shows "cn \<in> set cns" and "cn_value (w_bls W) cn = amount" and "cn_main_pubkey cn = pk"
  using assms unfolding find_note_def iter_permutes_def
  by (metis (mono_tags, lifting) find_Some_iff nth_mem)+

lemma payment_made_mono:
  assumes "payment_made W prices cns e p" and "set cns \<subseteq> set cns'"
  shows "payment_made W prices cns' e p"
  using assms unfolding payment_made_def by (fastforce split: prod.splits)

lemma get_recent_insert:
  "get_recent_payment (insert_payment_transaction d name p) name' =
     (if name' = name then Ok p else get_recent_payment d name')"
  by (auto simp: get_recent_payment_def insert_payment_transaction_def read_payment_transactions_def
      update_conv' split: sum.splits)

text \<open>One round of the loop.\<close>

lemma make_payments_Cons:
  assumes "make_payments W prices (e # rs) cns d = (d', Ok ())" and "iter_permutes W"
  obtains p cns' where "payment_made W prices cns e p" and "set cns' \<subseteq> set cns"
    and "make_payments W prices rs cns' (insert_payment_transaction d (fst e) p) = (d', Ok ())"
proof -
  obtain name amount pk i peer fee rpk j where e: "e = (name, (amount, pk, i, peer), (fee, rpk, j))"
    by (metis prod.exhaust)
  obtain cn t rcn r pk' q peer' where
    *: "find_note W cns amount pk = Some cn" "transfer_from_cash_note (w_net W) (w_transfer W) cn = Ok t"
      "find_note W (filter (\<lambda>x. x \<noteq> cn) cns) fee rpk = Some rcn"
      "royalties_transfer_from_cash_note (w_net W) rcn = Ok r" "map_of prices name = Some (pk', q, peer')"
    using assms(1) unfolding e by (auto simp: Let_def split: option.splits sum.splits)
  note cn = find_noteD [OF *(1) assms(2)] and rcn = find_noteD [OF *(3) assms(2)]
  let ?p = "\<lparr> pd_recipient = pk, pd_peer_id_bytes = peer, pd_transfer = (t, cn_value (w_bls W) cn),
      pd_royalties = (r, cn_value (w_bls W) rcn), pd_quote = q \<rparr>"
  show ?thesis
  proof (rule that)
    show "payment_made W prices cns e ?p"
      unfolding payment_made_def e using * cn rcn by auto
    show "make_payments W prices rs (filter (\<lambda>x. x \<noteq> rcn) (filter (\<lambda>x. x \<noteq> cn) cns))
        (insert_payment_transaction d (fst e) ?p) = (d', Ok ())"
      using assms(1) * unfolding e by (simp add: Let_def)
  qed auto
qed

lemma make_payments_frame:
  assumes "make_payments W prices rs cns d = (d', Ok ())" and "iter_permutes W"
  shows "name \<notin> fst ` set rs \<Longrightarrow> get_recent_payment d' name = get_recent_payment d name"
    and "\<exists>ps. d' = d \<lparr> d_payments := ps \<rparr>"
  using assms
proof (induction rs arbitrary: cns d)
  case Nil
  { case 1 then show ?case by simp }
  { case 2 then show ?case by (metis make_payments.simps(1) prod.inject wallet_disk.surjective wallet_disk.update_convs(8)) }
next
  case (Cons e rs)
  { case 1
    obtain p cns' where "make_payments W prices rs cns' (insert_payment_transaction d (fst e) p) = (d', Ok ())"
      by (rule make_payments_Cons [OF 1(2,3)])
    then show ?case using Cons.IH(1) [of cns'] 1 by (simp add: get_recent_insert) }
  { case 2
    obtain p cns' where "make_payments W prices rs cns' (insert_payment_transaction d (fst e) p) = (d', Ok ())"
      by (rule make_payments_Cons [OF 2])
    then have "\<exists>ps. d' = insert_payment_transaction d (fst e) p \<lparr> d_payments := ps \<rparr>"
      by (rule Cons.IH(2) [OF _ 2(2)])
    then show ?case by (simp add: insert_payment_transaction_def) }
qed

lemma make_payments_recorded:
  assumes "make_payments W prices rs cns d = (d', Ok ())" and "iter_permutes W"
    and "distinct (map fst rs)" and "e \<in> set rs"
  shows "\<exists>p. get_recent_payment d' (fst e) = Ok p \<and> payment_made W prices cns e p"
  using assms
proof (induction rs arbitrary: cns d)
  case (Cons e' rs)
  obtain p cns' where p: "payment_made W prices cns e' p" "set cns' \<subseteq> set cns"
    "make_payments W prices rs cns' (insert_payment_transaction d (fst e') p) = (d', Ok ())"
    by (rule make_payments_Cons [OF Cons.prems(1,2)])
  show ?case
  proof (cases "e = e'")
    case True
    have "fst e' \<notin> fst ` set rs" using Cons.prems(3) by simp
    then show ?thesis
      using make_payments_frame(1) [OF p(3) Cons.prems(2)] p(1) True by (auto simp: get_recent_insert)
  next
    case False
    then have "\<exists>p. get_recent_payment d' (fst e) = Ok p \<and> payment_made W prices cns' e p"
      using Cons.IH [OF p(3) Cons.prems(2)] Cons.prems(3,4) by simp
    then show ?thesis using payment_made_mono [OF _ p(2)] by blast
  qed
qed simp

subsection \<open>Paying from a plain wallet\<close>

lemma plain_wallet_payments:
  "plain_wallet W key m (d \<lparr> d_payments := ps \<rparr>) \<longleftrightarrow> plain_wallet W key m d"
  by (simp add: plain_wallet_def note_on_disk_def load_created_cash_note_def)

lemma note_of_payments: "note_of W (d \<lparr> d_payments := ps \<rparr>) = note_of W d"
  by (simp add: fun_eq_iff note_of_def load_created_cash_note_def)

lemma update_keeps_payments:
  assumes "update_local_wallet W d w stx pending = (d', w', Ok ())"
  shows "get_recent_payment d' name = get_recent_payment d name"
proof -
  have "d_payments (fst (store_created_cash_notes W d cns)) = d_payments d" for cns
    by (induction W d cns rule: store_created_cash_notes.induct) (simp_all split: option.splits)
  then have "d_payments d' = d_payments d"
    using assms
    by (auto simp: update_local_wallet_def Let_def wo_store_def store_wallet_def fst_def split: option.splits sum.splits prod.splits if_splits)
  then show ?thesis by (simp add: get_recent_payment_def read_payment_transactions_def)
qed

lemma local_send_storage_paymentD:
  assumes "plain_wallet W (hw_key w) m d"
    and "local_send_storage_payment W now indexes ci d w prices = (d', w', Ok (sc, rf))"
  obtains rs stx d2 where "storage_recipients W prices indexes nano_zero nano_zero = Ok (rs, sc, rf)"
    and "signed_new (w_bls W) ci (map (note_of W d) m) (payees_to_recipients rs) (hw_address W w) NoReason (hw_key w)
       = Ok stx"
    and "make_payments W prices rs (remdups (output_cashnotes stx)) d = (d2, Ok ())"
    and "update_local_wallet W d2 (reloaded W m d w) stx True = (d', w', Ok ())"
  using assms(2) available_plain [OF assms(1)]
  by (auto simp: local_send_storage_payment_def split: sum.splits prod.splits)

text \<open>A valid note of an amount for a key, whose parents are among the given spends.\<close>

definition paid_note ::
    "bls_ops \<Rightarrow> signed_spend set \<Rightarrow> nano_tokens \<Rightarrow> main_pubkey \<Rightarrow> cash_note \<Rightarrow> bool" where
  "paid_note B S amount pk cn \<longleftrightarrow>
     cn_verify B cn = Ok () \<and> cn_value B cn = amount \<and> cn_main_pubkey cn = pk
     \<and> bset_inv signed_spend_key (parent_spends cn) \<and> set (parent_spends cn) \<subseteq> S"

lemma signed_new_paid_note:
  assumes "signed_new B ci notes rs ct reason sk = Ok stx" and "distinct (map (cn_unique_pubkey B) notes)"
    and "distinct (new_unique_pubkey B ct ci # map (recipient_key B) rs)" and "cn \<in> set (output_cashnotes stx)"
  shows "paid_note B (set (st_spends stx)) (cn_value B cn) (cn_main_pubkey cn) cn"
proof -
  have "cn_verify B cn = Ok ()"
    using list_all2_right [OF signed_new_outputs [OF assms(1-3)] assms(4)] by blast
  moreover obtain cn0 where "cn = attach_parents B (st_spends stx) cn0"
    using assms(4) unfolding signed_new_OkD(2,4) [OF assms(1)] by auto
  then obtain P where "parent_spends cn = bset_of signed_spend_key (filter P (st_spends stx))"
    by (simp add: attach_parents_def Let_def)
  moreover have "set (bset_of signed_spend_key (filter P (st_spends stx))) \<subseteq> set (st_spends stx)" for P
    using bset_of_subset [of signed_spend_key "filter P (st_spends stx)"] by auto
  ultimately show ?thesis unfolding paid_note_def by simp
qed

lemma update_unconfirmed:
  assumes "update_local_wallet W d (reloaded W m d0 w) stx True = (d', w', Ok ())" and "d_unconfirmed d0 = None"
    and "bset_inv signed_spend_key (st_spends stx)"
  shows "set (hw_unconfirmed w') = set (st_spends stx)"
proof -
  have "hw_unconfirmed w' = bset_extend signed_spend_key [] (st_spends stx)"
    using assms(1,2) by (auto simp: update_local_wallet_def Let_def split: option.splits sum.splits prod.splits)
  moreover have "inj_on signed_spend_key (set (st_spends stx))"
    using assms(3) by (simp add: bset_inv_def strict_sorted_iff distinct_map)
  ultimately show ?thesis by (simp add: bset_extend_inj)
qed

text \<open>The payments of a price map, and what they cost.\<close>

lemma storage_payment_plain:
  assumes "plain_wallet W (hw_key w) m d" and "note_codec_correct W" and "iter_permutes W"
    and "local_send_storage_payment W now indexes ci d w prices = (d', w', Ok (sc, rf))"
    and "bmap_inv prices" and "length prices \<le> length indexes"
    and "distinct (new_unique_pubkey (w_bls W) (hw_address W w) ci # price_keys W prices indexes)"
    and "note_file W (new_unique_pubkey (w_bls W) (hw_address W w) ci) \<notin> note_file W ` fst ` set m"
  shows "\<exists>m'. plain_wallet W (hw_key w) m' d' \<and> available_total m' + unat (as_nano sc) + unat (as_nano rf)
       = available_total m"
    and "unat (as_nano sc) = prices_storage prices" and "unat (as_nano rf) = prices_royalties prices"
    and "unat (as_nano sc) + unat (as_nano rf) < 2 ^ 64"
    and "(name, pk, q, peer) \<in> set prices \<Longrightarrow>
      \<exists>p cn rcn S. get_recent_payment d' name = Ok p \<and> pd_recipient p = pk \<and> pd_quote p = q \<and> pd_peer_id_bytes p = peer
        \<and> snd (pd_transfer p) = q_cost q \<and> snd (pd_royalties p) = calculate_royalties_fee (q_cost q)
        \<and> paid_note (w_bls W) S (q_cost q) pk cn
        \<and> transfer_from_cash_note (w_net W) (w_transfer W) cn = Ok (fst (pd_transfer p))
        \<and> paid_note (w_bls W) S (calculate_royalties_fee (q_cost q)) (royalties_pk W) rcn
        \<and> fst (pd_royalties p) = NetworkRoyalties [cnr_from_cash_note (w_net W) rcn]
        \<and> (d_unconfirmed d = None \<longrightarrow> S = set (hw_unconfirmed w'))"
proof -
  obtain rs stx d2 where rs: "storage_recipients W prices indexes nano_zero nano_zero = Ok (rs, sc, rf)"
    and tx: "signed_new (w_bls W) ci (map (note_of W d) m) (payees_to_recipients rs) (hw_address W w) NoReason
        (hw_key w) = Ok stx"
    and pay: "make_payments W prices rs (remdups (output_cashnotes stx)) d = (d2, Ok ())"
    and upd: "update_local_wallet W d2 (reloaded W m d w) stx True = (d', w', Ok ())"
    by (rule local_send_storage_paymentD [OF assms(1,4)])
  note r = storage_recipients_ok [OF rs assms(6)]
  show sc: "unat (as_nano sc) = prices_storage prices" and rf: "unat (as_nano rf) = prices_royalties prices"
    using r(3,4) by (simp_all add: nano_zero_def)
  have dist: "distinct (new_unique_pubkey (w_bls W) (hw_address W w) ci
      # map (recipient_key (w_bls W)) (payees_to_recipients rs))"
    unfolding r(2) by (rule assms(7))
  show "unat (as_nano sc) + unat (as_nano rf) < 2 ^ 64"
    using unsigned_new_OkD(3,4) [OF signed_new_OkD(1) [OF tx]] r(5) sc rf by simp
  obtain ps where d2: "d2 = d \<lparr> d_payments := ps \<rparr>"
    using make_payments_frame(2) [OF pay assms(3)] by blast
  show "\<exists>m'. plain_wallet W (hw_key w) m' d' \<and> available_total m' + unat (as_nano sc) + unat (as_nano rf)
       = available_total m"
    using update_local_wallet_plain [of W "reloaded W m d w" m d2 ci "payees_to_recipients rs" NoReason stx True d' w']
      tx upd dist assms(1,2,8) r(5) unfolding sc rf
    by (auto simp: d2 plain_wallet_payments note_of_payments)
  assume e: "(name, pk, q, peer) \<in> set prices"
  have names: "map fst rs = map fst prices"
    using arg_cong [OF r(1), of "map fst"] by (simp add: comp_def case_prod_unfold)
  then have distn: "distinct (map fst rs)" using assms(5) by (simp add: bmap_inv_distinct)
  have "(name, q_cost q, pk, peer, calculate_royalties_fee (q_cost q), royalties_pk W)
      \<in> set (map (\<lambda>(name, (amount, pk, _, peer), (fee, rpk, _)). (name, amount, pk, peer, fee, rpk)) rs)"
    unfolding r(1) using e by force
  then obtain i j where "(name, (q_cost q, pk, i, peer), (calculate_royalties_fee (q_cost q), royalties_pk W, j)) \<in> set rs"
    by auto
  from make_payments_recorded [OF pay assms(3) distn this] obtain p cn rcn pk' peer' where
    p: "get_recent_payment d2 name = Ok p" "pd_recipient p = pk" "pd_peer_id_bytes p = peer"
      "snd (pd_transfer p) = q_cost q" "snd (pd_royalties p) = calculate_royalties_fee (q_cost q)"
      "map_of prices name = Some (pk', pd_quote p, peer')"
    and cn: "cn \<in> set (output_cashnotes stx)" "cn_value (w_bls W) cn = q_cost q" "cn_main_pubkey cn = pk"
      "transfer_from_cash_note (w_net W) (w_transfer W) cn = Ok (fst (pd_transfer p))"
    and rcn: "rcn \<in> set (output_cashnotes stx)" "cn_value (w_bls W) rcn = calculate_royalties_fee (q_cost q)"
      "cn_main_pubkey rcn = royalties_pk W" "royalties_transfer_from_cash_note (w_net W) rcn = Ok (fst (pd_royalties p))"
    unfolding payment_made_def by auto
  have q: "pd_quote p = q"
    using p(6) map_of_is_SomeI [OF bmap_inv_distinct [OF assms(5)] e] by simp
  note made = signed_new_paid_note [OF tx plain_note_maps(3) [OF assms(1)] dist]
  have spends: "d_unconfirmed d = None \<longrightarrow> set (st_spends stx) = set (hw_unconfirmed w')"
    using update_unconfirmed [OF upd] signed_new_OkD(4) [OF tx] by auto
  show "\<exists>p cn rcn S. get_recent_payment d' name = Ok p \<and> pd_recipient p = pk \<and> pd_quote p = q \<and> pd_peer_id_bytes p = peer
        \<and> snd (pd_transfer p) = q_cost q \<and> snd (pd_royalties p) = calculate_royalties_fee (q_cost q)
        \<and> paid_note (w_bls W) S (q_cost q) pk cn
        \<and> transfer_from_cash_note (w_net W) (w_transfer W) cn = Ok (fst (pd_transfer p))
        \<and> paid_note (w_bls W) S (calculate_royalties_fee (q_cost q)) (royalties_pk W) rcn
        \<and> fst (pd_royalties p) = NetworkRoyalties [cnr_from_cash_note (w_net W) rcn]
        \<and> (d_unconfirmed d = None \<longrightarrow> S = set (hw_unconfirmed w'))"
    using p(1-5) q cn(2-4) rcn(2-4) made [OF cn(1)] made [OF rcn(1)] spends update_keeps_payments [OF upd, of name]
    unfolding royalties_transfer_from_cash_note_def
    by (intro exI [of _ p] exI [of _ cn] exI [of _ rcn] exI [of _ "set (st_spends stx)"]) auto
qed

text \<open>C5: paying for a price map leaves, for each of its entries, a payment for the payee that
  holds the quote, the cost of the quote and the royalties of that cost, with a transfer of a
  valid note of exactly the cost to the payee and the redemption of a valid note of exactly the
  royalties for the network. The value that leaves the wallet is the
  reported cost plus the reported royalties, which are the sums over the map.\<close>

theorem storage_payment_complete:
  assumes "plain_wallet W (hw_key w) m d" and "note_codec_correct W" and "iter_permutes W"
    and "local_send_storage_payment W now indexes ci d w prices = (d', w', Ok (sc, rf))"
    and "bmap_inv prices" and "length prices \<le> length indexes"
    and "distinct (new_unique_pubkey (w_bls W) (hw_address W w) ci # price_keys W prices indexes)"
    and "note_file W (new_unique_pubkey (w_bls W) (hw_address W w) ci) \<notin> note_file W ` fst ` set m"
  shows "unat (as_nano sc) = prices_storage prices \<and> unat (as_nano rf) = prices_royalties prices
     \<and> (\<exists>m'. plain_wallet W (hw_key w) m' d'
          \<and> available_total m' + unat (as_nano sc) + unat (as_nano rf) = available_total m)
     \<and> ((name, pk, q, peer) \<in> set prices \<longrightarrow>
          (\<exists>p cn rcn. get_recent_payment d' name = Ok p \<and> pd_recipient p = pk \<and> pd_quote p = q
            \<and> pd_peer_id_bytes p = peer \<and> snd (pd_transfer p) = q_cost q
            \<and> snd (pd_royalties p) = calculate_royalties_fee (q_cost q)
            \<and> cn_verify (w_bls W) cn = Ok () \<and> cn_value (w_bls W) cn = q_cost q \<and> cn_main_pubkey cn = pk
            \<and> transfer_from_cash_note (w_net W) (w_transfer W) cn = Ok (fst (pd_transfer p))
            \<and> cn_verify (w_bls W) rcn = Ok () \<and> cn_value (w_bls W) rcn = calculate_royalties_fee (q_cost q)
            \<and> cn_main_pubkey rcn = royalties_pk W
            \<and> fst (pd_royalties p) = NetworkRoyalties [cnr_from_cash_note (w_net W) rcn]))"
  using storage_payment_plain [OF assms] unfolding paid_note_def by blast

subsection \<open>Examples\<close>

definition example_quote :: payment_quote where
  "example_quote = payment_quote_zero 0 \<lparr> q_content := 1, q_cost := NanoTokens 4 \<rparr>"

definition example_prices :: price_map where
  "example_prices = [(1, 20, example_quote, [8])]"

lemma example_fee: "calculate_royalties_fee (NanoTokens 4) = NanoTokens 1"
proof -
  have "f64_of_ratio 4 1 = (2 ^ 52, - 50)" "f64_of_ratio 15 100 = (5404319552844595, - 55)"
    "f64_of_ratio 85 100 = (7656119366529843, - 53)"
    by (simp_all add: f64_of_ratio_def bit_len.simps rne_def Let_def)
  then show ?thesis
    by (simp add: calculate_royalties_fee_def f64_mult_def f64_div_def)
      (simp add: f64_of_ratio_def bit_len.simps rne_def Let_def f64_to_u64_def MIN_ROYALTY_FEE_def)
qed

lemma bset_of_single [simp]: "bset_of key [x] = [x]"
  by (simp add: bset_of_def bset_extend_def)

definition example_paid_spend :: signed_spend where
  "example_paid_spend = signed_spend_sign xor_bls
     \<lparr> sp_unique_pubkey = 6, sp_reason = NoReason, sp_ancestors = [3],
       sp_descendants = [(22, NanoTokens 4), (96, NanoTokens 1)], sp_royalties = [3] \<rparr>
     (derive_key xor_bls 7 1)"

definition example_paid_note :: "main_pubkey \<Rightarrow> derivation_index \<Rightarrow> cash_note" where
  "example_paid_note pk i =
     \<lparr> parent_spends = [example_paid_spend], cn_main_pubkey = pk, cn_derivation_index = i \<rparr>"

definition example_payment_ops :: wallet_ops where
  "example_payment_ops = example_wallet_ops \<lparr> w_transfer := example_transfer_ops
       \<lparr> cnr_derivation_index = 2, cnr_parent_spends = [spend_address_of example_net 6] \<rparr>,
     note_to_vec := (\<lambda>cn. if cn = example_note 1 5 then Some [65]
                      else if cn = example_paid_note 20 2 then Some [66] else None),
     note_from_slice := (\<lambda>bs. if bs = [65] then Some (example_note 1 5)
                          else if bs = [66] then Some (example_paid_note 20 2) else None) \<rparr>"

lemma example_recipients_stored:
  "storage_recipients example_payment_ops example_prices [(2, 3)] nano_zero nano_zero
     = Ok ([(1, (NanoTokens 4, 20, 2, [8]), (NanoTokens 1, 99, 3))], NanoTokens 4, NanoTokens 1)"
  by (simp add: example_prices_def example_quote_def example_fee nano_checked_add_def checked_add_def
      nano_zero_def example_payment_ops_def example_wallet_ops_def Let_def)

lemma example_payment_spends:
  "ut_spends (built_tx xor_bls 9 [example_note 1 5] [(NanoTokens 4, 20, 2, False), (NanoTokens 1, 99, 3, True)] 7
     NoReason)
   = [(\<lparr> sp_unique_pubkey = 6, sp_reason = NoReason, sp_ancestors = [3],
         sp_descendants = [(22, NanoTokens 4), (96, NanoTokens 1)], sp_royalties = [3] \<rparr>, 1)]"
  "change_cashnote_without_spends (built_tx xor_bls 9 [example_note 1 5]
     [(NanoTokens 4, 20, 2, False), (NanoTokens 1, 99, 3, True)] 7 NoReason) = None"
proof -
  have "bset_of id (map ss_unique_pubkey (parent_spends (example_note 1 5))) = [3]"
    by (simp add: example_note_def ss_unique_pubkey_def)
  then show "ut_spends (built_tx xor_bls 9 [example_note 1 5]
      [(NanoTokens 4, 20, 2, False), (NanoTokens 1, 99, 3, True)] 7 NoReason)
     = [(\<lparr> sp_unique_pubkey = 6, sp_reason = NoReason, sp_ancestors = [3],
         sp_descendants = [(22, NanoTokens 4), (96, NanoTokens 1)], sp_royalties = [3] \<rparr>, 1)]"
    "change_cashnote_without_spends (built_tx xor_bls 9 [example_note 1 5]
      [(NanoTokens 4, 20, 2, False), (NanoTokens 1, 99, 3, True)] 7 NoReason) = None"
    by (simp_all add: built_tx_def big_to_small_def make_outputs_def distribute_input.simps Let_def
        cn_unique_pubkey_def [of _ "\<lparr>parent_spends = [], cn_main_pubkey = x,
          cn_derivation_index = y\<rparr>" for x y] new_unique_pubkey_def)
qed

lemma example_payment_tx:
  "\<exists>stx. signed_new xor_bls 9 [example_note 1 5] [(NanoTokens 4, 20, 2, False), (NanoTokens 1, 99, 3, True)] 7
       NoReason 7 = Ok stx \<and> change_cashnote stx = None
     \<and> output_cashnotes stx = [example_paid_note 20 2, example_paid_note 99 3] \<and> st_spends stx = [example_paid_spend]"
proof -
  obtain stx where stx: "signed_new xor_bls 9 [example_note 1 5]
      [(NanoTokens 4, 20, 2, False), (NanoTokens 1, 99, 3, True)] 7 NoReason 7 = Ok stx"
    by (simp add: signed_new_def unsigned_new_eq notes_total_def recipients_total_def unsigned_sign_def Let_def)
  have "output_cashnotes stx = [example_paid_note 20 2, example_paid_note 99 3]"
    unfolding signed_new_OkD(2) [OF stx] example_payment_spends
    by (simp add: sign_spends_def attach_parents_def make_outputs_def Let_def cn_unique_pubkey_def
        new_unique_pubkey_def example_paid_note_def example_paid_spend_def signed_spend_sign_def)
  moreover have "st_spends stx = [example_paid_spend]"
    unfolding signed_new_OkD(4) [OF stx] example_payment_spends
    by (simp add: sign_spends_def example_paid_spend_def)
  ultimately show ?thesis
    using stx signed_new_OkD(3) [OF stx] example_payment_spends(2) by auto
qed

lemma example_paid_note_simps:
  "cn_value xor_bls (example_paid_note 20 2) = NanoTokens 4" "cn_value xor_bls (example_paid_note 99 3) = NanoTokens 1"
  "cn_main_pubkey (example_paid_note pk i) = pk"
  "cnr_from_cash_note example_net (example_paid_note 20 2)
     = \<lparr> cnr_derivation_index = 2, cnr_parent_spends = [spend_address_of example_net 6] \<rparr>"
  "example_paid_note 99 3 \<noteq> example_paid_note 20 2" "example_paid_note 20 2 \<noteq> example_paid_note 99 3"
  by (simp_all add: cn_value_def example_paid_note_def example_paid_spend_def signed_spend_sign_def
      output_amount_or_zero_def get_output_amount_def cn_unique_pubkey_def new_unique_pubkey_def
      cnr_from_cash_note_def ss_unique_pubkey_def)

lemma example_payment_ops_simps:
  "w_bls example_payment_ops = xor_bls" "iter_order example_payment_ops = id" "w_net example_payment_ops = example_net"
  "hw_address example_payment_ops example_hot_wallet = 7" "royalties_pk example_payment_ops = 99"
  "note_file example_payment_ops = note_file example_wallet_ops"
  by (simp_all add: example_payment_ops_def fun_eq_iff note_file_def hw_address_def main_pubkey_of_def)
    (simp_all add: example_wallet_ops_def)

lemma example_payment_hex:
  "cn_to_hex example_payment_ops (example_note 1 5) = Some ''A''"
  "cn_from_hex example_payment_ops ''A'' = Some (example_note 1 5)"
  "cn_to_hex example_payment_ops (example_paid_note 20 2) = Some ''B''"
  "cn_from_hex example_payment_ops ''B'' = Some (example_paid_note 20 2)"
proof -
  have "example_paid_note 20 2 \<noteq> example_note 1 5" by (simp add: example_note_def example_paid_note_def)
  then show "cn_to_hex example_payment_ops (example_note 1 5) = Some ''A''"
    "cn_from_hex example_payment_ops ''A'' = Some (example_note 1 5)"
    "cn_to_hex example_payment_ops (example_paid_note 20 2) = Some ''B''"
    "cn_from_hex example_payment_ops ''B'' = Some (example_paid_note 20 2)"
    by (simp_all add: cn_to_hex_def cn_from_hex_def example_payment_ops_def example_keys_def char_of_def bit_simps)
qed

lemma example_payment_codec: "note_codec_correct example_payment_ops"
proof -
  have "cn_to_hex example_payment_ops cn = None" if "cn \<noteq> example_note 1 5" "cn \<noteq> example_paid_note 20 2" for cn
    using that by (simp add: cn_to_hex_def example_payment_ops_def)
  then show ?thesis unfolding note_codec_correct_def using example_payment_hex
    by (metis option.distinct(1) option.inject)
qed

lemma example_payment_wallet:
  "note_codec_correct example_payment_ops"
  "plain_wallet example_payment_ops (hw_key example_hot_wallet) [(6, NanoTokens 5)] example_disk"
  "load_created_cash_note example_payment_ops example_disk 6 = Some (example_note 1 5)"
  "iter_permutes example_payment_ops"
proof -
  show "note_codec_correct example_payment_ops" by (rule example_payment_codec)
  show load: "load_created_cash_note example_payment_ops example_disk 6 = Some (example_note 1 5)"
    by (simp add: load_created_cash_note_def example_disk_def example_payment_hex example_payment_ops_simps)
  show "plain_wallet example_payment_ops (hw_key example_hot_wallet) [(6, NanoTokens 5)] example_disk"
    using example_plain load
    by (simp add: plain_wallet_def note_on_disk_def example_load example_payment_ops_simps)
  show "iter_permutes example_payment_ops" by (simp add: iter_permutes_def example_payment_ops_simps)
qed

lemma example_storage_payment:
  "\<exists>d' w'. local_send_storage_payment example_payment_ops 0 [(2, 3)] 9 example_disk example_hot_wallet
     example_prices = (d', w', Ok (NanoTokens 4, NanoTokens 1)) \<and> hw_unconfirmed w' = [example_paid_spend]"
proof -
  have find: "find_note example_payment_ops [example_paid_note 20 2, example_paid_note 99 3] (NanoTokens 4) 20
      = Some (example_paid_note 20 2)"
    "find_note example_payment_ops [example_paid_note 99 3] (NanoTokens 1) 99 = Some (example_paid_note 99 3)"
    by (simp_all add: find_note_def example_payment_ops_simps example_paid_note_simps)
  have transfer: "transfer_from_cash_note example_net (w_transfer example_payment_ops) (example_paid_note 20 2)
      = Ok (EncryptedTransfer [[1]])"
    by (simp add: example_paid_note_simps transfer_from_cash_note_def transfer_create_def cnr_encrypt_def
        example_payment_ops_def example_transfer_ops_def)
  have "\<exists>d2. make_payments example_payment_ops example_prices
      [(1, (NanoTokens 4, 20, 2, [8]), (NanoTokens 1, 99, 3))]
      (remdups [example_paid_note 20 2, example_paid_note 99 3]) example_disk = (d2, Ok ())"
    by (simp add: example_paid_note_simps Let_def find transfer example_payment_ops_simps
        royalties_transfer_from_cash_note_def example_prices_def)
  moreover have no_spends: "hw_unconfirmed (reloaded example_payment_ops m example_disk example_hot_wallet) = []" for m
    by (simp add: reloaded_def)
  ultimately show ?thesis
    using example_payment_tx available_plain [OF example_payment_wallet(2), of 0]
    by (auto simp: local_send_storage_payment_def example_recipients_stored note_of_def example_payment_ops_simps example_payment_wallet
        payees_to_recipients_def update_local_wallet_def no_spends bset_extend_def Let_def)
qed

theorem storage_payment_complete_witness:
  "\<exists>d' w' p. local_send_storage_payment example_payment_ops 0 [(2, 3)] 9 example_disk example_hot_wallet
       example_prices = (d', w', Ok (NanoTokens 4, NanoTokens 1))
     \<and> get_recent_payment d' 1 = Ok p \<and> pd_recipient p = 20 \<and> snd (pd_transfer p) = NanoTokens 4"
proof -
  obtain d' w' where pay: "local_send_storage_payment example_payment_ops 0 [(2, 3)] 9 example_disk
      example_hot_wallet example_prices = (d', w', Ok (NanoTokens 4, NanoTokens 1))"
    using example_storage_payment by blast
  from storage_payment_complete [OF example_payment_wallet(2,1,4) pay, of 1 20 example_quote "[8]"]
  show ?thesis using pay example_change_file
    by (auto simp: example_prices_def example_payment_ops_simps new_unique_pubkey_def bmap_inv_def example_quote_def)
qed

end
