(* ===== verification/Put_Validation.thy ===== *)
theory Put_Validation
  imports Storage_Payments Registers
begin

text \<open>
  How a node treats a record that a client uploads or another node replicates (sn\_node
  put\_validation.rs and quote.rs): the key, the payment and its quote, and the rules of each
  kind of record. The swarm behind the node is the record \<open>local_store\<close>, which answers what is
  stored under a key, and the list of commands the handlers send it. The network is
  \<open>get_record\<close>, as for the validation of spends. Channels stay open and spawned tasks do not
  panic. Tasks that run concurrently only add to ordered sets, so they are taken in order.
\<close>

section \<open>Validation of uploaded records\<close>

datatype node_error =
    NodeNetwork network_error
  | NodeProtocol protocol_error
  | NodeRegister register_error
  | NodeWallet wallet_error
  | NodeTransfers t_error
  | NodeEventParsingFailed
  | NodeCmdFailed string
  | NumericOverflow
  | InvalidPutWithoutPayment record_key
  | UnexpectedRecordWithPayment record_key
  | RecordKeyMismatch
  | IgnoringOutdatedScratchpadPut
  | InvalidScratchpadSignature
  | InvalidQuoteContent
  | InvalidQuoteSignature
  | QuoteExpired network_address
  | NoPaymentToOurNode record_key
  | NoNetworkRoyaltiesPayment record_key
  | PaymentProofInsufficientAmount nano_tokens nano_tokens
  | ReusedPayment
  | FailedToGenerateRewardKey
  | FailedToGetNodePort
  | InvalidRequest string
  | JoinErrorInAsyncThread string

text \<open>The commands a handler sends to the swarm, and the event it broadcasts.\<close>

datatype node_cmd =
    PutLocalRecord kad_record
  | ReplicateFresh record_key record_type
  | FetchCompleted record_key record_type
  | PaymentReceived
  | ChunkStored xor_name

text \<open>The libraries: the wallet's, the Merkle register, the node's own key pair, the encoding
  of quoting metrics, and the decoders of the payloads of a record.\<close>

record 'm node_ops =
  o_wallet :: wallet_ops
  o_reg :: "'m reg_ops"
  o_quote :: quote_ops
  own_sign :: "bytes \<Rightarrow> bytes option"
  own_verify :: "bytes \<Rightarrow> bytes \<Rightarrow> bool"
  own_pub_key :: bytes
  genesis_pk :: main_pubkey
  c_chunk :: "chunk codec"
  c_paid_chunk :: "(payment \<times> chunk) codec"
  c_pad :: "scratchpad codec"
  c_paid_pad :: "(payment \<times> scratchpad) codec"
  c_spends :: "signed_spend list codec"
  c_reg :: "'m signed_register codec"
  c_paid_reg :: "(payment \<times> 'm signed_register) codec"

abbreviation o_bls :: "'m node_ops \<Rightarrow> bls_ops" where
  "o_bls V \<equiv> w_bls (o_wallet V)"

abbreviation o_net :: "'m node_ops \<Rightarrow> net_ops" where
  "o_net V \<equiv> w_net (o_wallet V)"

text \<open>The answers of the swarm about its own store.\<close>

record local_store =
  has_key :: "record_key \<Rightarrow> bool"
  get_local :: "record_key \<Rightarrow> kad_record option"

subsection \<open>Quotes (quote.rs)\<close>

definition create_quote_for_storecost ::
    "'m node_ops \<Rightarrow> system_time \<Rightarrow> nano_tokens \<Rightarrow> network_address \<Rightarrow> quoting_metrics
      \<Rightarrow> (protocol_error, payment_quote) result" where
  "create_quote_for_storecost V now cost address metrics =
     (let content = case_option 0 id (as_xorname (o_net V) address)
      in and_then (ok_or (own_sign V (quote_bytes_for_signing (o_quote V) content cost now metrics))
                    QuoteGenerationFailed) (\<lambda>signature.
           Ok \<lparr> q_content = content, q_cost = cost, q_timestamp = now, q_metrics = metrics,
                q_pub_key = own_pub_key V, q_signature = signature \<rparr>))"

definition verify_quote_for_storecost ::
    "'m node_ops \<Rightarrow> system_time \<Rightarrow> payment_quote \<Rightarrow> network_address \<Rightarrow> (node_error, unit) result" where
  "verify_quote_for_storecost V now quote address =
     (if case_option 0 id (as_xorname (o_net V) address) \<noteq> q_content quote then Err InvalidQuoteContent
      else if has_expired now quote then Err (QuoteExpired address)
      else if \<not> own_verify V (quote_bytes (o_quote V) quote) (q_signature quote) then Err InvalidQuoteSignature
      else Ok ())"

subsection \<open>Payments\<close>

definition total_cash_notes_amount :: "bls_ops \<Rightarrow> cash_note list \<Rightarrow> (node_error, nano_tokens) result" where
  "total_cash_notes_amount B cash_notes =
     ok_or (try_fold (\<lambda>received_fee cn. nano_checked_add received_fee (cn_value B cn)) nano_zero cash_notes)
       NumericOverflow"

text \<open>\<open>Network::verify_and_unpack_transfer\<close>: the only error of \<open>unwrap_transfer\<close> is that the
  transfer is not for the wallet.\<close>

definition verify_and_unpack_transfer ::
    "'m node_ops \<Rightarrow> get_record_fn \<Rightarrow> transfer \<Rightarrow> hot_wallet \<Rightarrow> (network_error, cash_note list) result" where
  "verify_and_unpack_transfer V get_record t wallet =
     and_then (map_err (\<lambda>_. WalletErr) (unwrap_transfer (o_wallet V) wallet t)) (\<lambda>cnrs.
       verify_cash_notes_redemptions (o_bls V) (o_net V) (get_spend (o_net V) (c_spends V) get_record)
         (hw_address (o_wallet V) wallet) cnrs)"

fun unpack_transfers ::
    "'m node_ops \<Rightarrow> get_record_fn \<Rightarrow> hot_wallet \<Rightarrow> transfer list \<Rightarrow> cash_note list \<Rightarrow> cash_note_redemption list
      \<Rightarrow> nano_tokens \<Rightarrow> (node_error, cash_note list \<times> cash_note_redemption list \<times> nano_tokens) result" where
  "unpack_transfers V get_record wallet [] cns royalties fee = Ok (cns, royalties, fee)"
| "unpack_transfers V get_record wallet (EncryptedTransfer cs # ts) cns royalties fee =
     (case verify_and_unpack_transfer V get_record (EncryptedTransfer cs) wallet of
        Inl WalletErr \<Rightarrow> unpack_transfers V get_record wallet ts cns royalties fee
      | Inl e \<Rightarrow> Err (NodeNetwork e)
      | Inr new \<Rightarrow> unpack_transfers V get_record wallet ts (cns @ new) royalties fee)"
| "unpack_transfers V get_record wallet (NetworkRoyalties cnrs # ts) cns royalties fee =
     (case verify_cash_notes_redemptions (o_bls V) (o_net V) (get_spend (o_net V) (c_spends V) get_record)
             (royalties_pk (o_wallet V)) cnrs of
        Inl _ \<Rightarrow> unpack_transfers V get_record wallet ts cns royalties fee
      | Inr notes_for_network \<Rightarrow>
          and_then (total_cash_notes_amount (o_bls V) notes_for_network) (\<lambda>received_royalties.
          and_then (ok_or (nano_checked_add fee received_royalties) NumericOverflow) (\<lambda>fee'.
            unpack_transfers V get_record wallet ts cns (royalties @ cnrs) fee')))"

definition cash_notes_from_transfers ::
    "'m node_ops \<Rightarrow> get_record_fn \<Rightarrow> transfer list \<Rightarrow> hot_wallet \<Rightarrow> record_key
      \<Rightarrow> (node_error, nano_tokens \<times> cash_note list \<times> cash_note_redemption list) result" where
  "cash_notes_from_transfers V get_record transfers wallet key =
     and_then (unpack_transfers V get_record wallet transfers [] [] nano_zero) (\<lambda>(cns, royalties, fee).
       if cns = [] then Err (NoPaymentToOurNode key)
       else
         and_then (total_cash_notes_amount (o_bls V) cns) (\<lambda>received_fee_to_our_node.
         and_then (ok_or (nano_checked_add fee received_fee_to_our_node) NumericOverflow) (\<lambda>received_fee.
           Ok (received_fee, cns, royalties))))"

definition unseen_note :: "'m node_ops \<Rightarrow> wallet_disk \<Rightarrow> hot_wallet \<Rightarrow> cash_note \<Rightarrow> bool" where
  "unseen_note V d wallet cn \<longleftrightarrow>
     \<not> cash_note_presents wallet (cn_unique_pubkey (o_bls V) cn)
     \<and> \<not> has_confirmed_spend d (spend_address_of (o_net V) (cn_unique_pubkey (o_bls V) cn))"

text \<open>The checks made once the notes are in the wallet.\<close>

definition check_payment ::
    "'m node_ops \<Rightarrow> system_time \<Rightarrow> network_address \<Rightarrow> payment_quote \<Rightarrow> cash_note_redemption list \<Rightarrow> nano_tokens
      \<Rightarrow> (node_error, unit) result" where
  "check_payment V now address quote royalties received_fee =
     (if royalties = [] then Err (NoNetworkRoyaltiesPayment (to_record_key (o_net V) address))
      else
        and_then (verify_quote_for_storecost V now quote address) (\<lambda>_.
        and_then (ok_or (nano_checked_add (q_cost quote) (calculate_royalties_fee (q_cost quote))) NumericOverflow)
          (\<lambda>expected_fee.
            if as_nano received_fee < as_nano expected_fee
            then Err (PaymentProofInsufficientAmount received_fee expected_fee) else Ok ())))"

definition payment_for_us_exists_and_is_still_valid ::
    "'m node_ops \<Rightarrow> system_time \<Rightarrow> get_record_fn \<Rightarrow> wallet_disk \<Rightarrow> network_address \<Rightarrow> payment
      \<Rightarrow> wallet_disk \<times> node_cmd list \<times> (node_error, unit) result" where
  "payment_for_us_exists_and_is_still_valid V now get_record d address payment =
     (case load_from_path_and_key (o_wallet V) [] [] d None None of
        (d1, Inl e) \<Rightarrow> (d1, [], Err (NodeWallet e))
      | (d1, Inr wallet) \<Rightarrow>
          (case cash_notes_from_transfers V get_record (pay_transfers payment) wallet
                  (to_record_key (o_net V) address) of
             Inl e \<Rightarrow> (d1, [], Err e)
           | Inr (received_fee, cns, royalties) \<Rightarrow>
               let new_notes = filter (unseen_note V d1 wallet) cns
               in if new_notes = [] then (d1, [], Err ReusedPayment)
                  else (case hw_deposit_and_store_to_disk (o_wallet V) d1 wallet new_notes of
                          (d2, _, Inl e) \<Rightarrow> (d2, [PaymentReceived], Err (NodeWallet e))
                        | (d2, _, Inr _) \<Rightarrow>
                            (d2, [PaymentReceived],
                             check_payment V now address (pay_quote payment) royalties received_fee))))"

subsection \<open>Keys and chunks\<close>

definition validate_key_and_existence ::
    "'m node_ops \<Rightarrow> local_store \<Rightarrow> network_address \<Rightarrow> record_key \<Rightarrow> (node_error, bool) result" where
  "validate_key_and_existence V L address expected_key =
     (let data_key = to_record_key (o_net V) address
      in if expected_key \<noteq> data_key then Err RecordKeyMismatch else Ok (has_key L data_key))"

definition store_chunk :: "'m node_ops \<Rightarrow> chunk \<Rightarrow> node_cmd list \<times> (node_error, unit) result" where
  "store_chunk V c =
     (case try_serialize_record (c_chunk V) c KChunk of
        Inl e \<Rightarrow> ([], Err (NodeProtocol e))
      | Inr value \<Rightarrow>
          ([PutLocalRecord \<lparr> rec_key = to_record_key (o_net V) (ChunkAddress (chunk_address c)), rec_value = value \<rparr>,
            ChunkStored (chunk_address c)], Ok ()))"

subsection \<open>Scratchpads\<close>

definition validate_and_store_scratchpad_record ::
    "'m node_ops \<Rightarrow> local_store \<Rightarrow> kad_record \<Rightarrow> bool \<Rightarrow> node_cmd list \<times> (node_error, unit) result" where
  "validate_and_store_scratchpad_record V L r is_client_put =
     (case try_deserialize_record (c_pad V) r of
        Inl e \<Rightarrow> ([], Err (NodeProtocol e))
      | Inr pad \<Rightarrow>
          let scratchpad_key = to_record_key (o_net V) (ScratchpadAddress (pad_address pad))
          in if scratchpad_key \<noteq> rec_key r then ([], Err RecordKeyMismatch)
             else
               let newer =
                     (case get_local L scratchpad_key of
                        None \<Rightarrow> Ok ()
                      | Some local_record \<Rightarrow>
                          and_then (map_err NodeProtocol (try_deserialize_record (c_pad V) local_record)) (\<lambda>local_pad.
                            if pad_counter local_pad \<ge> pad_counter pad then Err IgnoringOutdatedScratchpadPut
                            else Ok ()))
               in case newer of
                    Inl e \<Rightarrow> ([], Err e)
                  | Inr _ \<Rightarrow>
                      if \<not> pad_is_valid (o_bls V) (o_net V) pad then ([], Err InvalidScratchpadSignature)
                      else (PutLocalRecord r
                              # (if is_client_put then [ReplicateFresh (rec_key r) ScratchpadType] else []), Ok ()))"

subsection \<open>Registers\<close>

definition register_validation ::
    "'m node_ops \<Rightarrow> local_store \<Rightarrow> 'm signed_register \<Rightarrow> bool
      \<Rightarrow> (node_error, 'm signed_register option) result" where
  "register_validation V L register present_locally =
     and_then (map_err NodeRegister (sr_verify (o_bls V) (o_reg V) register)) (\<lambda>_.
       if \<not> present_locally then Ok (Some register)
       else
         let key = to_record_key (o_net V) (RegisterAddress (sr_address register))
         in and_then (ok_or (get_local L key)
              (InvalidRequest ''Register claimed to be existing locally was not found'')) (\<lambda>r.
            and_then (map_err NodeProtocol (try_deserialize_record (c_reg V) r)) (\<lambda>local_register.
            and_then (map_err NodeRegister (sr_verified_merge (o_bls V) (o_reg V) local_register register)) (\<lambda>merged.
              if merged = local_register then Ok None else Ok (Some merged)))))"

definition validate_and_store_register ::
    "'m node_ops \<Rightarrow> local_store \<Rightarrow> 'm signed_register \<Rightarrow> bool \<Rightarrow> node_cmd list \<times> (node_error, unit) result" where
  "validate_and_store_register V L register is_client_put =
     (let key = to_record_key (o_net V) (RegisterAddress (sr_address register))
      in case register_validation V L register (has_key L key) of
           Inl e \<Rightarrow> ([], Err e)
         | Inr None \<Rightarrow> ([], Ok ())
         | Inr (Some updated_register) \<Rightarrow>
             (case try_serialize_record (c_reg V) updated_register KRegister of
                Inl e \<Rightarrow> ([], Err (NodeProtocol e))
              | Inr value \<Rightarrow>
                  (PutLocalRecord \<lparr> rec_key = key, rec_value = value \<rparr>
                     # (if is_client_put then [ReplicateFresh key (NonChunkType (xor_from_content (o_net V) value))]
                        else []), Ok ())))"

subsection \<open>Spends\<close>

definition get_local_spends ::
    "'m node_ops \<Rightarrow> local_store \<Rightarrow> xor_name \<Rightarrow> (node_error, signed_spend list) result" where
  "get_local_spends V L addr =
     (case get_local L (to_record_key (o_net V) (SpendAddress addr)) of
        None \<Rightarrow> Ok []
      | Some r \<Rightarrow>
          and_then (map_err NodeProtocol (header_from_record (c_spends V) r)) (\<lambda>kind.
            if kind \<noteq> KSpend then Err (NodeNetwork (RecordKindMismatch KSpend))
            else map_err NodeProtocol (try_deserialize_record (c_spends V) r)))"

fun network_spends_of ::
    "'m node_ops \<Rightarrow> (network_error, signed_spend list) result \<Rightarrow> signed_spend list" where
  "network_spends_of V (Inr spends) = spends"
| "network_spends_of V (Inl (GetRecordError (SplitRecord result_map))) =
     concat (map (\<lambda>(_, r, _). case get_raw_signed_spends_from_record (c_spends V) r of Inr s \<Rightarrow> s | Inl _ \<Rightarrow> [])
       result_map)"
| "network_spends_of V (Inl (GetRecordError (NotEnoughCopies r expected got))) =
     (case get_raw_signed_spends_from_record (c_spends V) r of Inr s \<Rightarrow> s | Inl _ \<Rightarrow> [])"
| "network_spends_of V (Inl _) = []"

fun gather_verified ::
    "(signed_spend \<times> (network_error, unit) result) list \<Rightarrow> signed_spend list \<Rightarrow> signed_spend list
      \<Rightarrow> signed_spend list \<times> signed_spend list" where
  "gather_verified [] verified double_spent_parent = (verified, double_spent_parent)"
| "gather_verified ((s, Inr _) # rest) verified double_spent_parent =
     gather_verified rest (bset_insert signed_spend_key s verified) double_spent_parent"
| "gather_verified ((s, Inl (TransferErr DoubleSpentParent)) # rest) verified double_spent_parent =
     gather_verified rest verified (bset_insert signed_spend_key s double_spent_parent)"
| "gather_verified ((s, Inl _) # rest) verified double_spent_parent =
     gather_verified rest verified double_spent_parent"

definition descendant_addresses :: "net_ops \<Rightarrow> signed_spend \<Rightarrow> xor_name list" where
  "descendant_addresses N s = bset_of id (map (\<lambda>(k, _). spend_address_of N k) (sp_descendants (ss_spend s)))"

definition is_live :: "'m node_ops \<Rightarrow> get_record_fn \<Rightarrow> signed_spend \<Rightarrow> bool" where
  "is_live V get_record s \<longleftrightarrow>
     list_ex (\<lambda>a. is_ok (get_raw_spends (o_net V) (c_spends V) get_record a)) (descendant_addresses (o_net V) s)"

definition verified_spends_select_2_live ::
    "'m node_ops \<Rightarrow> get_record_fn \<Rightarrow> signed_spend list \<Rightarrow> (node_error, signed_spend \<times> signed_spend) result" where
  "verified_spends_select_2_live V get_record many_spends =
     (let live = bset_of signed_spend_key (filter (is_live V get_record) many_spends);
          not_live = bset_of signed_spend_key
            (filter (\<lambda>s. signed_spend_key s \<notin> signed_spend_key ` set live) many_spends)
      in case live @ not_live of
           one # two # _ \<Rightarrow> Ok (one, two)
         | _ \<Rightarrow> Err (InvalidRequest ''Expected many spends''))"

definition all_verified_spends ::
    "'m node_ops \<Rightarrow> get_record_fn \<Rightarrow> signed_spend list \<Rightarrow> signed_spend list \<Rightarrow> unique_pubkey \<Rightarrow> signed_spend list" where
  "all_verified_spends V get_record local_spends signed_spends unique_pubkey =
     (let network_spends = network_spends_of V
            (get_raw_spends (o_net V) (c_spends V) get_record (spend_address_of (o_net V) unique_pubkey));
          known = bset_of signed_spend_key local_spends;
          unverified = bset_of signed_spend_key (network_spends @ signed_spends);
          new = filter (\<lambda>s. signed_spend_key s \<notin> signed_spend_key ` set known) unverified;
          (verified, double_spent_parent) = gather_verified
            (map (\<lambda>s. (s, verify_spend (o_bls V) (o_net V) (c_spends V) get_record (genesis_pk V) s)) new) known []
      in if verified \<noteq> [] \<and> double_spent_parent \<noteq> []
         then bset_extend signed_spend_key verified double_spent_parent else verified)"

definition signed_spends_to_keep ::
    "'m node_ops \<Rightarrow> get_record_fn \<Rightarrow> local_store \<Rightarrow> signed_spend list \<Rightarrow> unique_pubkey
      \<Rightarrow> (node_error, signed_spend \<times> signed_spend option) result" where
  "signed_spends_to_keep V get_record L signed_spends unique_pubkey =
     and_then (get_local_spends V L (spend_address_of (o_net V) unique_pubkey)) (\<lambda>local_spends.
       case all_verified_spends V get_record local_spends signed_spends unique_pubkey of
         [] \<Rightarrow> Err (InvalidRequest ''Found no valid spends while validating Spends'')
       | [one] \<Rightarrow> Ok (one, None)
       | [one, two] \<Rightarrow> Ok (one, Some two)
       | many \<Rightarrow> and_then (verified_spends_select_2_live V get_record many) (\<lambda>(one, two). Ok (one, Some two)))"

definition spends_for_key :: "'m node_ops \<Rightarrow> record_key \<Rightarrow> signed_spend list \<Rightarrow> signed_spend list" where
  "spends_for_key V key spends =
     filter (\<lambda>s. to_record_key (o_net V) (SpendAddress (spend_address_of (o_net V) (ss_unique_pubkey s))) = key) spends"

definition validate_merge_and_store_spends ::
    "'m node_ops \<Rightarrow> get_record_fn \<Rightarrow> local_store \<Rightarrow> signed_spend list \<Rightarrow> record_key
      \<Rightarrow> node_cmd list \<times> (node_error, unit) result" where
  "validate_merge_and_store_spends V get_record L signed_spends key =
     (case spends_for_key V key signed_spends of
        [] \<Rightarrow> ([], Err (InvalidRequest ''No spends to verify''))
      | a # rest \<Rightarrow>
          (case signed_spends_to_keep V get_record L (a # rest) (ss_unique_pubkey a) of
             Inl e \<Rightarrow> ([], Err e)
           | Inr (one, two) \<Rightarrow>
               (case try_serialize_record (c_spends V) (one # case_option [] (\<lambda>s. [s]) two) KSpend of
                  Inl e \<Rightarrow> ([], Err (NodeProtocol e))
                | Inr value \<Rightarrow> ([PutLocalRecord \<lparr> rec_key = key, rec_value = value \<rparr>], Ok ()))))"

subsection \<open>Uploads of clients\<close>

text \<open>What a handler sends once its record is stored: \<open>Ok\<close> lets the notifications follow.\<close>

definition notify_when_ok ::
    "node_cmd list \<Rightarrow> node_cmd list \<times> (node_error, unit) result \<Rightarrow> node_cmd list \<times> (node_error, unit) result" where
  "notify_when_ok extra r = (case r of (cmds, Inr u) \<Rightarrow> (cmds @ extra, Inr u) | _ \<Rightarrow> r)"

definition put_paid_chunk ::
    "'m node_ops \<Rightarrow> system_time \<Rightarrow> get_record_fn \<Rightarrow> local_store \<Rightarrow> wallet_disk \<Rightarrow> kad_record
      \<Rightarrow> wallet_disk \<times> node_cmd list \<times> (node_error, unit) result" where
  "put_paid_chunk V now get_record L d r =
     (case try_deserialize_record (c_paid_chunk V) r of
        Inl e \<Rightarrow> (d, [], Err (NodeProtocol e))
      | Inr (payment, c) \<Rightarrow>
          (case validate_key_and_existence V L (chunk_network_address c) (rec_key r) of
             Inl e \<Rightarrow> (d, [], Err e)
           | Inr already_exists \<Rightarrow>
               (case payment_for_us_exists_and_is_still_valid V now get_record d (chunk_network_address c) payment of
                  (d1, cmds, payment_res) \<Rightarrow>
                    let notify = [ReplicateFresh (rec_key r) ChunkType, FetchCompleted (rec_key r) ChunkType]
                    in if already_exists then (d1, cmds @ notify, Ok ())
                       else case payment_res of
                              Inl e \<Rightarrow> (d1, cmds, Err e)
                            | Inr _ \<Rightarrow>
                                (case notify_when_ok notify (store_chunk V c) of
                                   (cmds', res) \<Rightarrow> (d1, cmds @ cmds', res)))))"

definition put_paid_scratchpad ::
    "'m node_ops \<Rightarrow> system_time \<Rightarrow> get_record_fn \<Rightarrow> local_store \<Rightarrow> wallet_disk \<Rightarrow> kad_record
      \<Rightarrow> wallet_disk \<times> node_cmd list \<times> (node_error, unit) result" where
  "put_paid_scratchpad V now get_record L d r =
     (case try_deserialize_record (c_paid_pad V) r of
        Inl e \<Rightarrow> (d, [], Err (NodeProtocol e))
      | Inr (payment, pad) \<Rightarrow>
          (case validate_key_and_existence V L (pad_network_address pad) (rec_key r) of
             Inl e \<Rightarrow> (d, [], Err e)
           | Inr _ \<Rightarrow>
               (case payment_for_us_exists_and_is_still_valid V now get_record d (pad_network_address pad) payment of
                  (d1, cmds, Inl e) \<Rightarrow> (d1, cmds, Err e)
                | (d1, cmds, Inr _) \<Rightarrow>
                    (case notify_when_ok
                            [ReplicateFresh (rec_key r) ScratchpadType, FetchCompleted (rec_key r) ScratchpadType]
                            (validate_and_store_scratchpad_record V L r True) of
                       (cmds', res) \<Rightarrow> (d1, cmds @ cmds', res)))))"

definition put_spends ::
    "'m node_ops \<Rightarrow> get_record_fn \<Rightarrow> local_store \<Rightarrow> kad_record \<Rightarrow> node_cmd list \<times> (node_error, unit) result" where
  "put_spends V get_record L r =
     (case try_deserialize_record (c_spends V) r of
        Inl e \<Rightarrow> ([], Err (NodeProtocol e))
      | Inr spends \<Rightarrow>
          let ty = NonChunkType (xor_from_content (o_net V) (rec_value r))
          in notify_when_ok [ReplicateFresh (rec_key r) ty, FetchCompleted (rec_key r) ty]
               (validate_merge_and_store_spends V get_record L spends (rec_key r)))"

definition put_register ::
    "'m node_ops \<Rightarrow> local_store \<Rightarrow> kad_record \<Rightarrow> node_cmd list \<times> (node_error, unit) result" where
  "put_register V L r =
     (case try_deserialize_record (c_reg V) r of
        Inl e \<Rightarrow> ([], Err (NodeProtocol e))
      | Inr register \<Rightarrow>
          let net_addr = RegisterAddress (sr_address register)
          in case validate_key_and_existence V L net_addr (to_record_key (o_net V) net_addr) of
               Inl e \<Rightarrow> ([], Err e)
             | Inr exists \<Rightarrow>
                 if \<not> exists then ([], Err (InvalidPutWithoutPayment (rec_key r)))
                 else notify_when_ok
                        [FetchCompleted (rec_key r) (NonChunkType (xor_from_content (o_net V) (rec_value r)))]
                        (validate_and_store_register V L register True))"

definition put_paid_register ::
    "'m node_ops \<Rightarrow> system_time \<Rightarrow> get_record_fn \<Rightarrow> local_store \<Rightarrow> wallet_disk \<Rightarrow> kad_record
      \<Rightarrow> wallet_disk \<times> node_cmd list \<times> (node_error, unit) result" where
  "put_paid_register V now get_record L d r =
     (case try_deserialize_record (c_paid_reg V) r of
        Inl e \<Rightarrow> (d, [], Err (NodeProtocol e))
      | Inr (payment, register) \<Rightarrow>
          let net_addr = RegisterAddress (sr_address register); key = to_record_key (o_net V) net_addr
          in if rec_key r \<noteq> key then (d, [], Err RecordKeyMismatch)
             else case validate_key_and_existence V L net_addr key of
                    Inl e \<Rightarrow> (d, [], Err e)
                  | Inr already_exists \<Rightarrow>
                      (case payment_for_us_exists_and_is_still_valid V now get_record d net_addr payment of
                         (d1, cmds, payment_res) \<Rightarrow>
                           if \<not> is_ok payment_res \<and> \<not> already_exists
                           then (d1, cmds, payment_res)
                           else (case notify_when_ok
                                   [FetchCompleted (rec_key r) (NonChunkType (xor_from_content (o_net V) (rec_value r)))]
                                   (validate_and_store_register V L register True) of
                                   (cmds', res) \<Rightarrow> (d1, cmds @ cmds', res))))"

definition validate_and_store_record ::
    "'m node_ops \<Rightarrow> system_time \<Rightarrow> get_record_fn \<Rightarrow> local_store \<Rightarrow> wallet_disk \<Rightarrow> kad_record
      \<Rightarrow> wallet_disk \<times> node_cmd list \<times> (node_error, unit) result" where
  "validate_and_store_record V now get_record L d r =
     (case header_from_record (c_chunk V) r of
        Inl e \<Rightarrow> (d, [], Err (NodeProtocol e))
      | Inr KChunkWithPayment \<Rightarrow> put_paid_chunk V now get_record L d r
      | Inr KChunk \<Rightarrow> (d, [], Err (InvalidPutWithoutPayment (rec_key r)))
      | Inr KScratchpadWithPayment \<Rightarrow> put_paid_scratchpad V now get_record L d r
      | Inr KScratchpad \<Rightarrow> (d, [], Err (InvalidPutWithoutPayment (rec_key r)))
      | Inr KSpend \<Rightarrow> (d, put_spends V get_record L r)
      | Inr KRegister \<Rightarrow> (d, put_register V L r)
      | Inr KRegisterWithPayment \<Rightarrow> put_paid_register V now get_record L d r)"

subsection \<open>Replicated records\<close>

definition store_replicated_in_record ::
    "'m node_ops \<Rightarrow> get_record_fn \<Rightarrow> local_store \<Rightarrow> kad_record \<Rightarrow> node_cmd list \<times> (node_error, unit) result" where
  "store_replicated_in_record V get_record L r =
     (case header_from_record (c_chunk V) r of
        Inl e \<Rightarrow> ([], Err (NodeProtocol e))
      | Inr KChunk \<Rightarrow>
          (case try_deserialize_record (c_chunk V) r of
             Inl e \<Rightarrow> ([], Err (NodeProtocol e))
           | Inr c \<Rightarrow>
               (case validate_key_and_existence V L (chunk_network_address c) (rec_key r) of
                  Inl e \<Rightarrow> ([], Err e)
                | Inr already_exists \<Rightarrow> if already_exists then ([], Ok ()) else store_chunk V c))
      | Inr KScratchpad \<Rightarrow> validate_and_store_scratchpad_record V L r False
      | Inr KSpend \<Rightarrow>
          (case try_deserialize_record (c_spends V) r of
             Inl e \<Rightarrow> ([], Err (NodeProtocol e))
           | Inr spends \<Rightarrow> validate_merge_and_store_spends V get_record L spends (rec_key r))
      | Inr KRegister \<Rightarrow>
          (case try_deserialize_record (c_reg V) r of
             Inl e \<Rightarrow> ([], Err (NodeProtocol e))
           | Inr register \<Rightarrow>
               if rec_key r \<noteq> to_record_key (o_net V) (RegisterAddress (sr_address register))
               then ([], Err RecordKeyMismatch)
               else validate_and_store_register V L register False)
      | Inr _ \<Rightarrow> ([], Err (UnexpectedRecordWithPayment (rec_key r))))"

subsection \<open>What is stored was paid for\<close>

text \<open>A payment a node is satisfied with: notes for the node that are not all known to it, notes
  for the royalties, a quote of the node for the address that has not expired, and an amount
  that covers the price and its royalties.\<close>

definition sufficient_payment ::
    "'m node_ops \<Rightarrow> system_time \<Rightarrow> get_record_fn \<Rightarrow> wallet_disk \<Rightarrow> network_address \<Rightarrow> payment \<Rightarrow> bool" where
  "sufficient_payment V now get_record d address payment \<longleftrightarrow>
     (\<exists>d1 wallet fee cns royalties.
        load_from_path_and_key (o_wallet V) [] [] d None None = (d1, Ok wallet)
        \<and> cash_notes_from_transfers V get_record (pay_transfers payment) wallet (to_record_key (o_net V) address)
            = Ok (fee, cns, royalties)
        \<and> (\<exists>cn \<in> set cns. unseen_note V d1 wallet cn) \<and> royalties \<noteq> []
        \<and> q_content (pay_quote payment) = case_option 0 id (as_xorname (o_net V) address)
        \<and> \<not> has_expired now (pay_quote payment)
        \<and> own_verify V (quote_bytes (o_quote V) (pay_quote payment)) (q_signature (pay_quote payment))
        \<and> unat (as_nano (q_cost (pay_quote payment)))
            + unat (as_nano (calculate_royalties_fee (q_cost (pay_quote payment)))) \<le> unat (as_nano fee))"

text \<open>The payment that an upload carries.\<close>

definition carries_payment :: "'m node_ops \<Rightarrow> kad_record \<Rightarrow> payment \<Rightarrow> bool" where
  "carries_payment V r payment \<longleftrightarrow>
     (\<exists>c. try_deserialize_record (c_paid_chunk V) r = Ok (payment, c))
     \<or> (\<exists>pad. try_deserialize_record (c_paid_pad V) r = Ok (payment, pad))
     \<or> (\<exists>register. try_deserialize_record (c_paid_reg V) r = Ok (payment, register))"

lemma check_payment_ok_iff:
  "check_payment V now address q royalties fee = Ok () \<longleftrightarrow>
     royalties \<noteq> [] \<and> verify_quote_for_storecost V now q address = Ok ()
     \<and> unat (as_nano (q_cost q)) + unat (as_nano (calculate_royalties_fee (q_cost q))) \<le> unat (as_nano fee)"
proof (cases "nano_checked_add (q_cost q) (calculate_royalties_fee (q_cost q))")
  case None
  then have "2 ^ 64 \<le> unat (as_nano (q_cost q)) + unat (as_nano (calculate_royalties_fee (q_cost q)))"
    by (simp add: nano_checked_add_def checked_add_None_iff)
  then have "\<not> unat (as_nano (q_cost q)) + unat (as_nano (calculate_royalties_fee (q_cost q))) \<le> unat (as_nano fee)"
    using unat_u64_less [of "as_nano fee"] by simp
  then show ?thesis using None by (auto simp: check_payment_def result_simps)
next
  case (Some e)
  then have "unat (as_nano e) = unat (as_nano (q_cost q)) + unat (as_nano (calculate_royalties_fee (q_cost q)))"
    by (simp only: nano_checked_add_Some_iff)
  then show ?thesis
    by (auto simp: check_payment_def result_simps Some word_less_nat_alt)
qed

lemma payment_ok_sufficient:
  assumes "payment_for_us_exists_and_is_still_valid V now get_record d address payment = (d', cmds, Ok ())"
  shows "sufficient_payment V now get_record d address payment"
proof -
  obtain d1 wallet fee cns royalties where
    *: "load_from_path_and_key (o_wallet V) [] [] d None None = (d1, Ok wallet)"
      "cash_notes_from_transfers V get_record (pay_transfers payment) wallet (to_record_key (o_net V) address)
         = Ok (fee, cns, royalties)"
      "filter (unseen_note V d1 wallet) cns \<noteq> []"
      "check_payment V now address (pay_quote payment) royalties fee = Ok ()"
    using assms
    by (auto simp: payment_for_us_exists_and_is_still_valid_def Let_def split: prod.splits sum.splits if_splits)
  have "\<exists>cn \<in> set cns. unseen_note V d1 wallet cn"
    using *(3) by (auto simp: filter_empty_conv)
  then show ?thesis
    using *(1,2,4) unfolding sufficient_payment_def check_payment_ok_iff
    by (auto simp: verify_quote_for_storecost_def split: if_splits)
qed

lemma payment_cmds:
  "set (fst (snd (payment_for_us_exists_and_is_still_valid V now get_record d address payment))) \<subseteq> {PaymentReceived}"
  by (auto simp: payment_for_us_exists_and_is_still_valid_def Let_def split: prod.splits sum.splits if_splits)

text \<open>The records the handlers put.\<close>

lemma store_chunk_put:
  "PutLocalRecord r \<in> set (fst (store_chunk V c)) \<Longrightarrow> rec_key r = to_record_key (o_net V) (chunk_network_address c)"
  by (auto simp: store_chunk_def chunk_network_address_def split: sum.splits)

lemma scratchpad_put:
  "PutLocalRecord r' \<in> set (fst (validate_and_store_scratchpad_record V L r client)) \<Longrightarrow> r' = r"
  by (auto simp: validate_and_store_scratchpad_record_def Let_def split: sum.splits if_splits)

lemma register_put:
  "PutLocalRecord r \<in> set (fst (validate_and_store_register V L register client)) \<Longrightarrow>
     rec_key r = to_record_key (o_net V) (RegisterAddress (sr_address register))"
  by (auto simp: validate_and_store_register_def Let_def split: sum.splits option.splits if_splits)

lemma notify_put:
  "PutLocalRecord r \<in> set (fst (notify_when_ok extra res)) \<longleftrightarrow>
     PutLocalRecord r \<in> set (fst res) \<or> is_ok (snd res) \<and> PutLocalRecord r \<in> set extra"
  by (cases res; cases "snd res") (auto simp: notify_when_ok_def)

lemma put_paid_chunk_paid:
  assumes "put_paid_chunk V now get_record L d r = (d', cmds, res)" and "PutLocalRecord r' \<in> set cmds"
  shows "\<exists>address payment. rec_key r' = to_record_key (o_net V) address \<and> carries_payment V r payment
     \<and> sufficient_payment V now get_record d address payment"
proof -
  obtain payment c e where dec: "try_deserialize_record (c_paid_chunk V) r = Ok (payment, c)"
    "validate_key_and_existence V L (chunk_network_address c) (rec_key r) = Ok e"
    using assms by (auto simp: put_paid_chunk_def split: sum.splits)
  obtain d1 pcmds pres where pay: "payment_for_us_exists_and_is_still_valid V now get_record d
      (chunk_network_address c) payment = (d1, pcmds, pres)"
    by (metis prod_cases3)
  have "PutLocalRecord r' \<notin> set pcmds"
    using payment_cmds [of V now get_record d "chunk_network_address c" payment] pay by auto
  then have "pres = Ok ()" and "PutLocalRecord r' \<in> set (fst (store_chunk V c))"
    using assms dec pay
    by (auto simp: put_paid_chunk_def Let_def notify_when_ok_def split: sum.splits if_splits prod.splits)
  moreover have "carries_payment V r payment" using dec(1) by (auto simp: carries_payment_def)
  ultimately show ?thesis using payment_ok_sufficient pay store_chunk_put by blast
qed

lemma put_paid_scratchpad_paid:
  assumes "put_paid_scratchpad V now get_record L d r = (d', cmds, res)" and "PutLocalRecord r' \<in> set cmds"
  shows "r' = r \<and> (\<exists>address payment. rec_key r = to_record_key (o_net V) address \<and> carries_payment V r payment
     \<and> sufficient_payment V now get_record d address payment)"
proof -
  obtain payment pad e where dec: "try_deserialize_record (c_paid_pad V) r = Ok (payment, pad)"
    "validate_key_and_existence V L (pad_network_address pad) (rec_key r) = Ok e"
    using assms by (auto simp: put_paid_scratchpad_def split: sum.splits)
  obtain d1 pcmds pres where pay: "payment_for_us_exists_and_is_still_valid V now get_record d
      (pad_network_address pad) payment = (d1, pcmds, pres)"
    by (metis prod_cases3)
  have "PutLocalRecord r' \<notin> set pcmds"
    using payment_cmds [of V now get_record d "pad_network_address pad" payment] pay by auto
  then have "pres = Ok ()" and "PutLocalRecord r' \<in> set (fst (validate_and_store_scratchpad_record V L r True))"
    using assms dec pay
    by (auto simp: put_paid_scratchpad_def Let_def notify_when_ok_def split: sum.splits if_splits prod.splits)
  moreover have "rec_key r = to_record_key (o_net V) (pad_network_address pad)"
    using dec(2) by (auto simp: validate_key_and_existence_def Let_def split: if_splits)
  moreover have "carries_payment V r payment" using dec(1) by (auto simp: carries_payment_def)
  ultimately show ?thesis using payment_ok_sufficient pay scratchpad_put by blast
qed

lemma put_paid_register_paid:
  assumes "put_paid_register V now get_record L d r = (d', cmds, res)" and "PutLocalRecord r' \<in> set cmds"
  shows "has_key L (rec_key r') \<or> (\<exists>address payment. rec_key r' = to_record_key (o_net V) address \<and> carries_payment V r payment
     \<and> sufficient_payment V now get_record d address payment)"
proof -
  obtain payment register where dec: "try_deserialize_record (c_paid_reg V) r = Ok (payment, register)"
    using assms by (auto simp: put_paid_register_def split: sum.splits)
  let ?a = "RegisterAddress (sr_address register)"
  obtain d1 pcmds pres where pay: "payment_for_us_exists_and_is_still_valid V now get_record d ?a payment
      = (d1, pcmds, pres)"
    by (metis prod_cases3)
  have "PutLocalRecord r' \<notin> set pcmds"
    using payment_cmds [of V now get_record d ?a payment] pay by auto
  then have "pres = Ok () \<or> has_key L (to_record_key (o_net V) ?a)"
    and "PutLocalRecord r' \<in> set (fst (validate_and_store_register V L register True))"
    using assms dec pay
    by (auto simp: put_paid_register_def Let_def notify_when_ok_def validate_key_and_existence_def is_ok_iff
        split: sum.splits if_splits prod.splits)
  moreover have "carries_payment V r payment" using dec by (auto simp: carries_payment_def)
  ultimately show ?thesis using payment_ok_sufficient pay register_put by metis
qed

lemma put_register_exists:
  assumes "PutLocalRecord r' \<in> set (fst (put_register V L r))"
  shows "has_key L (rec_key r')"
proof -
  obtain register where "has_key L (to_record_key (o_net V) (RegisterAddress (sr_address register)))"
    and "PutLocalRecord r' \<in> set (fst (validate_and_store_register V L register True))"
    using assms
    by (auto simp: put_register_def Let_def notify_put validate_key_and_existence_def split: sum.splits if_splits)
  then show ?thesis using register_put by metis
qed

text \<open>C6: a node stores what a client uploads only when the upload carries a sufficient payment
  for the address of the stored record. The exceptions are spends, which are free, and the
  update of a register that the node holds already.\<close>

theorem uploads_are_paid:
  assumes "validate_and_store_record V now get_record L d r = (d', cmds, res)"
    and "PutLocalRecord r' \<in> set cmds"
  shows "header_from_record (c_chunk V) r = Ok KSpend
     \<or> header_from_record (c_chunk V) r \<in> {Ok KRegister, Ok KRegisterWithPayment} \<and> has_key L (rec_key r')
     \<or> (\<exists>address payment. rec_key r' = to_record_key (o_net V) address \<and> carries_payment V r payment
          \<and> sufficient_payment V now get_record d address payment)"
proof (cases "header_from_record (c_chunk V) r")
  case (Inr kind)
  then show ?thesis
    using assms put_paid_chunk_paid [of V now get_record L d r d' cmds res r']
      put_paid_scratchpad_paid [of V now get_record L d r d' cmds res r']
      put_paid_register_paid [of V now get_record L d r d' cmds res r'] put_register_exists [of r' V L r]
    by (cases kind) (auto simp: validate_and_store_record_def split: prod.splits)
qed (use assms in \<open>simp add: validate_and_store_record_def\<close>)

subsection \<open>The spends that are kept\<close>

lemma gather_verified_sets:
  assumes "gather_verified rs v p = (v', p')"
  shows "bset_inv signed_spend_key v \<Longrightarrow> bset_inv signed_spend_key v'" and "set v \<subseteq> set v'"
    and "set v' \<subseteq> set v \<union> {s. (s, Ok ()) \<in> set rs}"
    and "set p' \<subseteq> set p \<union> {s. (s, Err (TransferErr DoubleSpentParent)) \<in> set rs}"
    and "(s, Ok ()) \<in> set rs \<Longrightarrow> signed_spend_key s \<in> signed_spend_key ` set v'"
  using assms
proof (induction rs v p rule: gather_verified.induct)
  case (2 s u rest v p)
  { case 1 then show ?case using 2 by (simp add: bset_insert_inv) }
  { case 2 then show ?case using "2.IH"(2) bset_insert_superset [of v signed_spend_key s] by auto }
  { case 3 then show ?case using "2.IH"(3) bset_insert_subset [of signed_spend_key s v] by fastforce }
  { case 4 then show ?case using "2.IH"(4) by auto }
  { case 5
    have "signed_spend_key s \<in> signed_spend_key ` set (bset_insert signed_spend_key s v)"
      by (simp add: bset_insert_keys)
    moreover have "set (bset_insert signed_spend_key s v) \<subseteq> set v'" using 5(2) "2.IH"(2) by simp
    ultimately show ?case using 5 "2.IH"(5) by auto }
next
  case (3 s rest v p)
  { case 1 then show ?case using 3 by simp }
  { case 2 then show ?case using "3.IH"(2) by simp }
  { case 3 then show ?case using "3.IH"(3) by fastforce }
  { case 4 then show ?case using "3.IH"(4) bset_insert_subset [of signed_spend_key s p] by fastforce }
  { case 5 then show ?case using "3.IH"(5) by auto }
qed auto

abbreviation node_verifies :: "'m node_ops \<Rightarrow> get_record_fn \<Rightarrow> signed_spend \<Rightarrow> (network_error, unit) result" where
  "node_verifies V get_record s \<equiv> verify_spend (o_bls V) (o_net V) (c_spends V) get_record (genesis_pk V) s"

lemma all_verified_facts:
  fixes V :: "'m node_ops"
  assumes "A = all_verified_spends V get_record local_spends ss k"
  shows "bset_inv signed_spend_key A"
    and "s \<in> set local_spends \<Longrightarrow> signed_spend_key s \<in> signed_spend_key ` set A"
    and "s \<in> set ss \<Longrightarrow> node_verifies V get_record s = Ok () \<Longrightarrow> inj_on signed_spend_key
           (set (network_spends_of V (get_raw_spends (o_net V) (c_spends V) get_record (spend_address_of (o_net V) k)) @ ss)
            ) \<Longrightarrow> signed_spend_key s \<in> signed_spend_key ` set A"
    and "s \<in> set A \<Longrightarrow> s \<in> set local_spends \<or> node_verifies V get_record s = Ok ()
           \<or> node_verifies V get_record s = Err (TransferErr DoubleSpentParent)"
proof -
  let ?sk = signed_spend_key
  let ?net = "network_spends_of V (get_raw_spends (o_net V) (c_spends V) get_record (spend_address_of (o_net V) k))"
  define known where "known = bset_of ?sk local_spends"
  define new where "new = filter (\<lambda>s. ?sk s \<notin> ?sk ` set known) (bset_of ?sk (?net @ ss))"
  define rs where "rs = map (\<lambda>s. (s, node_verifies V get_record s)) new"
  obtain v p where g: "gather_verified rs known [] = (v, p)" by (metis surj_pair)
  have A: "A = (if v \<noteq> [] \<and> p \<noteq> [] then bset_extend ?sk v p else v)"
    using assms g by (simp add: all_verified_spends_def Let_def known_def new_def rs_def)
  note gv = gather_verified_sets [OF g]
  have inv: "bset_inv ?sk v" by (rule gv(1)) (simp add: known_def)
  then show "bset_inv ?sk A" by (simp add: A bset_extend_inv)
  have vA: "?sk ` set v \<subseteq> ?sk ` set A" by (auto simp: A bset_extend_keys)
  have known: "?sk ` set known = ?sk ` set local_spends" by (simp add: known_def bset_of_keys)
  then show "?sk s \<in> ?sk ` set A" if "s \<in> set local_spends" for s
    using that gv(2) vA by (metis (no_types, lifting) image_eqI image_mono subsetD)
  show "?sk s \<in> ?sk ` set A" if "s \<in> set ss" "node_verifies V get_record s = Ok ()" "inj_on ?sk (set (?net @ ss))" for s
  proof (cases "?sk s \<in> ?sk ` set known")
    case True
    then show ?thesis using gv(2) vA by blast
  next
    case False
    have "s \<in> set (bset_of ?sk (?net @ ss))" using that by (simp add: bset_of_inj)
    then have "(s, Ok ()) \<in> set rs" using False that(2) by (force simp: rs_def new_def)
    then show ?thesis using gv(5) vA by blast
  qed
  have "set A \<subseteq> set v \<union> set p" using bset_extend_subset [of ?sk v p] by (auto simp: A)
  then show "s \<in> set local_spends \<or> node_verifies V get_record s = Ok ()
     \<or> node_verifies V get_record s = Err (TransferErr DoubleSpentParent)" if sA: "s \<in> set A" for s
  proof -
    consider "s \<in> set v" | "s \<in> set p" using sA \<open>set A \<subseteq> set v \<union> set p\<close> by blast
    then show ?thesis
    proof cases
      case 1
      then have "s \<in> set known \<or> (s, Ok ()) \<in> set rs" using gv(3) by blast
      then show ?thesis using bset_of_subset [of ?sk local_spends] by (auto simp: rs_def known_def)
    next
      case 2
      then have "(s, Err (TransferErr DoubleSpentParent)) \<in> set rs" using gv(4) by auto
      then show ?thesis by (auto simp: rs_def)
    qed
  qed
qed

lemma select_2_live_ok:
  assumes "verified_spends_select_2_live V get_record many = Ok (one, two)" and "bset_inv signed_spend_key many"
  shows "one \<in> set many" and "two \<in> set many" and "signed_spend_key one \<noteq> signed_spend_key two"
    and "is_live V get_record two \<Longrightarrow> is_live V get_record one"
proof -
  let ?sk = signed_spend_key
  define live where "live = bset_of ?sk (filter (is_live V get_record) many)"
  define rest where "rest = bset_of ?sk (filter (\<lambda>s. ?sk s \<notin> ?sk ` set live) many)"
  obtain tail where ord: "live @ rest = one # two # tail"
    using assms(1)
    by (auto simp: verified_spends_select_2_live_def Let_def live_def rest_def split: list.splits)
  have inj: "inj_on ?sk (set many)" using assms(2) by (simp add: bset_inv_def strict_sorted_iff distinct_map)
  have live: "set live = {s \<in> set many. is_live V get_record s}"
    unfolding live_def by (subst bset_of_inj) (auto intro: inj_on_subset [OF inj])
  have rest: "set rest = {s \<in> set many. ?sk s \<notin> ?sk ` set live}"
    unfolding rest_def by (subst bset_of_inj) (auto intro: inj_on_subset [OF inj])
  have "distinct (map ?sk live)" "distinct (map ?sk rest)"
    by (metis bset_of_inv bset_inv_def live_def rest_def strict_sorted_iff)+
  then have "distinct (map ?sk (live @ rest))" using rest by auto
  then show "?sk one \<noteq> ?sk two" unfolding ord by simp
  have "set (live @ rest) \<subseteq> set many" using live rest by auto
  then show "one \<in> set many" and "two \<in> set many" unfolding ord by auto
  show "is_live V get_record one" if "is_live V get_record two"
  proof (cases live)
    case Nil
    then have "two \<in> set rest" using ord by auto
    moreover have "two \<in> set live" using that calculation live rest by auto
    ultimately show ?thesis using Nil by simp
  next
    case (Cons a u)
    then show ?thesis using ord live by auto
  qed
qed

lemma image_filter_diff: "f ` {x \<in> S. f x \<notin> K} = f ` S - K"
  by blast

lemma select_2_live_total:
  assumes "bset_inv signed_spend_key many" and "2 \<le> length many"
  shows "is_ok (verified_spends_select_2_live V get_record many)"
proof -
  let ?sk = signed_spend_key
  define live where "live = bset_of ?sk (filter (is_live V get_record) many)"
  define rest where "rest = bset_of ?sk (filter (\<lambda>s. ?sk s \<notin> ?sk ` set live) many)"
  have "?sk ` set live \<subseteq> ?sk ` set many" unfolding live_def bset_of_keys by auto
  moreover have "?sk ` set rest = ?sk ` set many - ?sk ` set live" 
    unfolding rest_def bset_of_keys set_filter by (rule image_filter_diff)
  ultimately have "?sk ` set (live @ rest) = ?sk ` set many" by (auto simp: image_Un)
  moreover have "card (?sk ` set many) = length many"
    using assms(1) by (metis bset_inv_def distinct_card length_map list.set_map strict_sorted_iff)
  moreover have "card (?sk ` set (live @ rest)) \<le> length (live @ rest)"
    by (metis card_length length_map list.set_map)
  ultimately have "2 \<le> length (live @ rest)" using assms(2) by simp
  then obtain one two tail where "live @ rest = one # two # tail"
    by (metis One_nat_def Suc_1 Suc_le_length_iff)
  then show ?thesis by (simp add: verified_spends_select_2_live_def Let_def live_def rest_def)
qed

lemma signed_spends_to_keep_ok:
  fixes V :: "'m node_ops"
  assumes "signed_spends_to_keep V get_record L ss k = Ok (one, two)"
    and "get_local_spends V L (spend_address_of (o_net V) k) = Ok local_spends"
    and "A = all_verified_spends V get_record local_spends ss k"
    and "kept = one # case_option [] (\<lambda>s. [s]) two"
  shows "set kept \<subseteq> set A" and "distinct (map signed_spend_key kept)" and "length kept = min 2 (length A)"
    and "A \<noteq> []"
proof -
  have inv: "bset_inv signed_spend_key A" by (rule all_verified_facts(1) [OF assms(3)])
  then have dist: "distinct (map signed_spend_key A)" by (simp add: bset_inv_def strict_sorted_iff)
  consider (one) "A = [one]" "two = None" | (two) t where "A = [one, t]" "two = Some t"
    | (more) t where "verified_spends_select_2_live V get_record A = Ok (one, t)" "two = Some t" "2 \<le> length A"
    using assms(1,2)
    by (auto simp: signed_spends_to_keep_def assms(3) result_simps split: list.splits prod.splits)
  then have "set kept \<subseteq> set A \<and> distinct (map signed_spend_key kept) \<and> length kept = min 2 (length A) \<and> A \<noteq> []"
  proof cases
    case (more t)
    then show ?thesis using select_2_live_ok [OF more(1) inv] assms(4) by auto
  qed (use dist assms(4) in auto)
  then show "set kept \<subseteq> set A" "distinct (map signed_spend_key kept)" "length kept = min 2 (length A)" "A \<noteq> []"
    by auto
qed

lemma length_two_keys:
  assumes "f x \<in> f ` set A" and "f y \<in> f ` set A" and "f x \<noteq> f y"
  shows "2 \<le> length A"
proof -
  obtain a b where "a \<in> set A" "b \<in> set A" "a \<noteq> b" using assms by force
  then show ?thesis by (cases A; cases "tl A") auto
qed

text \<open>C11: when a node accepts spends for a key it stores one or two different spends. Each of
  them was stored before, or was verified against the network, or failed only because a parent
  was double spent. Two spends that are stored or verified are never reduced to one: the
  evidence of a double spend stays.\<close>

theorem stored_spends_justified:
  assumes "validate_merge_and_store_spends V get_record L ss key = (cmds, Ok ())"
    and "spends_for_key V key ss = a # rest"
    and "inj_on signed_spend_key (set (network_spends_of V (get_raw_spends (o_net V) (c_spends V) get_record
           (spend_address_of (o_net V) (ss_unique_pubkey a)))) \<union> set ss)"
  shows "\<exists>local_spends kept bs.
     get_local_spends V L (spend_address_of (o_net V) (ss_unique_pubkey a)) = Ok local_spends
     \<and> try_serialize_record (c_spends V) kept KSpend = Ok bs
     \<and> cmds = [PutLocalRecord \<lparr> rec_key = key, rec_value = bs \<rparr>]
     \<and> kept \<noteq> [] \<and> length kept \<le> 2 \<and> distinct (map signed_spend_key kept)
     \<and> (\<forall>s \<in> set kept. s \<in> set local_spends \<or> node_verifies V get_record s = Ok ()
          \<or> node_verifies V get_record s = Err (TransferErr DoubleSpentParent))
     \<and> (\<forall>s1 s2. {s1, s2} \<subseteq> set local_spends \<union> {s \<in> set (a # rest). node_verifies V get_record s = Ok ()}
          \<and> signed_spend_key s1 \<noteq> signed_spend_key s2 \<longrightarrow> length kept = 2)"
proof -
  let ?k = "ss_unique_pubkey a" and ?sk = signed_spend_key
  obtain one two bs where keep: "signed_spends_to_keep V get_record L (a # rest) ?k = Ok (one, two)"
    and ser: "try_serialize_record (c_spends V) (one # case_option [] (\<lambda>s. [s]) two) KSpend = Ok bs"
    and cmds: "cmds = [PutLocalRecord \<lparr> rec_key = key, rec_value = bs \<rparr>]"
    using assms(1,2) by (auto simp: validate_merge_and_store_spends_def split: sum.splits)
  obtain ls where ls: "get_local_spends V L (spend_address_of (o_net V) ?k) = Ok ls"
    using keep by (auto simp: signed_spends_to_keep_def result_simps)
  define A where "A = all_verified_spends V get_record ls (a # rest) ?k"
  define kept where "kept = one # case_option [] (\<lambda>s. [s]) two"
  note k = signed_spends_to_keep_ok [OF keep ls A_def kept_def] and A = all_verified_facts [OF A_def]
  have sub: "set (a # rest) \<subseteq> set ss" unfolding assms(2) [symmetric] spends_for_key_def by auto
  then have inj: "inj_on ?sk (set (network_spends_of V (get_raw_spends (o_net V) (c_spends V) get_record
      (spend_address_of (o_net V) ?k)) @ (a # rest)))"
    by (intro inj_on_subset [OF assms(3)]) auto
  have two: "length kept = 2"
    if "{s1, s2} \<subseteq> set ls \<union> {s \<in> set (a # rest). node_verifies V get_record s = Ok ()}" "?sk s1 \<noteq> ?sk s2"
    for s1 s2
  proof -
    have "?sk s \<in> ?sk ` set A"
      if "s \<in> set ls \<union> {s \<in> set (a # rest). node_verifies V get_record s = Ok ()}" for s
      using that A(2) [of s] A(3) [OF _ _ inj, of s] by blast
    then have "2 \<le> length A" using length_two_keys [of ?sk s1 A s2] that by blast
    then show ?thesis using k(3) by simp
  qed
  have "\<forall>s \<in> set kept. s \<in> set ls \<or> node_verifies V get_record s = Ok ()
      \<or> node_verifies V get_record s = Err (TransferErr DoubleSpentParent)"
    using k(1) A(4) by blast
  moreover have "kept \<noteq> []" "length kept \<le> 2" using k(3) by (auto simp: kept_def)
  ultimately show ?thesis using ls ser cmds k(2) two unfolding kept_def [symmetric] by blast
qed

subsection \<open>A payment of the wallet satisfies the node\<close>

lemma plain_load:
  assumes "plain_wallet W key m d"
  shows "load_from_path_and_key W [] [] d None None =
    (d, Ok \<lparr> hw_key = key, hw_watchonly = \<lparr> wo_main_pubkey = main_pubkey_of (w_bls W) key, wo_available = m \<rparr>,
             hw_unconfirmed = case_option [] id (d_unconfirmed d), hw_auth = auth_new \<rparr>)"
  using assms
  by (simp add: plain_wallet_def load_from_path_and_key_def get_main_key_from_disk_def load_with_key_def
      wo_load_from_def get_main_pubkey_def load_keyless_wallet_def)

lemma plain_deposit:
  assumes "plain_wallet W key m d" and "cn_main_pubkey cn = main_pubkey_of (w_bls W) key"
    and "cn_to_hex W cn \<noteq> None" and "wo_main_pubkey (hw_watchonly w) = main_pubkey_of (w_bls W) key"
  shows "\<exists>d' w'. hw_deposit_and_store_to_disk W d w [cn] = (d', w', Ok ())"
proof -
  have "wo_reload d (hw_watchonly w) =
      (d, \<lparr> wo_main_pubkey = main_pubkey_of (w_bls W) key, wo_available = m \<rparr>, Ok ())"
    using assms(1,4)
    by (simp add: plain_wallet_def wo_reload_def wo_load_from_def get_main_pubkey_def load_keyless_wallet_def)
  then show ?thesis
    using assms(2,3)
    by (auto simp: hw_deposit_and_store_to_disk_def wo_deposit_and_store_to_disk_def cn_derived_pubkey_def Let_def
        split: option.splits)
qed

lemma paid_note_redeemed:
  assumes "paid_note B S amount pk cn" and "inj_on (\<lambda>s. spend_address_of N (ss_unique_pubkey s)) S"
    and "\<forall>s \<in> S. get (spend_address_of N (ss_unique_pubkey s)) = Ok s"
  shows "verify_cash_notes_redemptions B N get pk [cnr_from_cash_note N cn] = Ok [cn]"
  using redeem_roundtrip [of cn B N get] assms unfolding paid_note_def
  by (meson inj_on_subset subsetD)

lemma paid_note_descendant:
  assumes "paid_note B S amount pk cn"
  obtains s where "s \<in> S" and "cn_unique_pubkey B cn \<in> fst ` set (sp_descendants (ss_spend s))"
proof -
  obtain s where "s \<in> set (parent_spends cn)" "get_output_amount (ss_spend s) (cn_unique_pubkey B cn) \<noteq> None"
    using assms unfolding paid_note_def cn_verify_def
    by (cases "parent_spends cn") (auto simp: list_all_iff split: if_splits)
  then show thesis
    using that assms unfolding paid_note_def get_output_amount_def
    by (metis (no_types, lifting) map_of_eq_None_iff subset_eq)
qed

lemma total_single: "total_cash_notes_amount B [cn] = Ok (cn_value B cn)"
proof -
  have "nano_checked_add nano_zero (cn_value B cn) = Some (cn_value B cn)"
    by (simp add: nano_checked_add_Some_iff nano_zero_def)
  then show ?thesis by (simp add: total_cash_notes_amount_def)
qed

lemma payment_accepted:
  assumes wallet: "plain_wallet (o_wallet V) key m d" and pk: "pk = main_pubkey_of (o_bls V) key"
    and given: "paid_note (o_bls V) S (q_cost q) pk cn"
      "transfer_from_cash_note (o_net V) (w_transfer (o_wallet V)) cn = Ok t"
    and royalties: "paid_note (o_bls V) S (calculate_royalties_fee (q_cost q)) (royalties_pk (o_wallet V)) rcn"
    and crypt: "\<forall>b. sk_decrypt (w_transfer (o_wallet V)) key (pk_encrypt (w_transfer (o_wallet V)) pk b) = Some b"
    and codec: "\<forall>c b. cnr_to_bytes (w_transfer (o_wallet V)) c = Some b \<longrightarrow> cnr_from_bytes (w_transfer (o_wallet V)) b = Some c"
    and hex: "cn_to_hex (o_wallet V) cn \<noteq> None"
    and network: "inj_on (\<lambda>s. spend_address_of (o_net V) (ss_unique_pubkey s)) S"
      "\<forall>s \<in> S. get_spend (o_net V) (c_spends V) get_record (spend_address_of (o_net V) (ss_unique_pubkey s)) = Ok s"
    and unseen: "\<forall>s \<in> S. \<forall>k \<in> fst ` set (sp_descendants (ss_spend s)).
      k \<notin> fst ` set m \<and> \<not> has_confirmed_spend d (spend_address_of (o_net V) k)"
    and quote: "verify_quote_for_storecost V now q address = Ok ()"
    and fits: "unat (as_nano (q_cost q)) + unat (as_nano (calculate_royalties_fee (q_cost q))) < 2 ^ 64"
  shows "\<exists>d'. payment_for_us_exists_and_is_still_valid V now get_record d address
     \<lparr> pay_transfers = [t, NetworkRoyalties [cnr_from_cash_note (o_net V) rcn]], pay_quote = q \<rparr>
       = (d', [PaymentReceived], Ok ())"
proof -
  let ?W = "o_wallet V" and ?B = "o_bls V" and ?N = "o_net V" and ?T = "w_transfer (o_wallet V)"
  let ?fee = "calculate_royalties_fee (q_cost q)"
  let ?get = "get_spend ?N (c_spends V) get_record"
  define wn where "wn = \<lparr> hw_key = key, hw_watchonly = \<lparr> wo_main_pubkey = main_pubkey_of ?B key, wo_available = m \<rparr>,
      hw_unconfirmed = case_option [] id (d_unconfirmed d), hw_auth = auth_new \<rparr>"
  note load = plain_load [OF wallet, folded wn_def]
  have cn: "cn_main_pubkey cn = pk" "cn_value ?B cn = q_cost q" and rcn: "cn_value ?B rcn = ?fee"
    using given(1) royalties by (simp_all add: paid_note_def)
  obtain b where t: "t = EncryptedTransfer [pk_encrypt ?T pk b]" and b: "cnr_to_bytes ?T (cnr_from_cash_note ?N cn) = Some b"
    using given(2) cn(1)
    by (auto simp: transfer_from_cash_note_def transfer_create_def cnr_encrypt_def result_simps)
  have "cashnote_redemptions ?T t key = Ok [cnr_from_cash_note ?N cn]"
    using crypt codec b by (simp add: t cnr_decrypt_def)
  then have own: "verify_and_unpack_transfer V get_record t wn = Ok [cn]"
    using paid_note_redeemed [OF given(1) network]
    by (simp add: verify_and_unpack_transfer_def unwrap_transfer_def wn_def hw_address_def pk)
  have roy: "verify_cash_notes_redemptions ?B ?N ?get (royalties_pk ?W) [cnr_from_cash_note ?N rcn] = Ok [rcn]"
    by (rule paid_note_redeemed [OF royalties network])
  obtain e where e: "nano_checked_add ?fee (q_cost q) = Some e"
    using fits by (cases "nano_checked_add ?fee (q_cost q)") (auto simp: nano_checked_add_def checked_add_None_iff)
  then have e': "unat (as_nano e) = unat (as_nano ?fee) + unat (as_nano (q_cost q))"
    by (simp only: nano_checked_add_Some_iff)
  have zero: "nano_checked_add nano_zero ?fee = Some ?fee"
    by (simp add: nano_checked_add_Some_iff nano_zero_def)
  have unpack: "cash_notes_from_transfers V get_record [t, NetworkRoyalties [cnr_from_cash_note ?N rcn]] wn k
      = Ok (e, [cn], [cnr_from_cash_note ?N rcn])" for k
    using own roy by (simp add: cash_notes_from_transfers_def t total_single rcn cn zero e)
  have "unseen_note V d wn cn"
  proof -
    obtain s where "s \<in> S" "cn_unique_pubkey ?B cn \<in> fst ` set (sp_descendants (ss_spend s))"
      by (rule paid_note_descendant [OF given(1)])
    then have "cn_unique_pubkey ?B cn \<notin> fst ` set m"
      and "\<not> has_confirmed_spend d (spend_address_of ?N (cn_unique_pubkey ?B cn))"
      using unseen by blast+
    then show ?thesis by (simp add: unseen_note_def cash_note_presents_def wn_def map_of_eq_None_iff)
  qed
  moreover obtain d' w' where "hw_deposit_and_store_to_disk ?W d wn [cn] = (d', w', Ok ())"
    using plain_deposit [OF wallet _ hex, of wn] cn(1) pk by (auto simp: wn_def)
  moreover have "check_payment V now address q [cnr_from_cash_note ?N rcn] e = Ok ()"
    using quote e' by (simp add: check_payment_ok_iff)
  ultimately show ?thesis
    by (simp add: payment_for_us_exists_and_is_still_valid_def load unpack Let_def)
qed

text \<open>A quote of the node for an address is accepted by it for that address, for an hour.\<close>

lemma own_quote_valid:
  assumes "create_quote_for_storecost V quoted cost address metrics = Ok q"
    and "\<forall>b s. own_sign V b = Some s \<longrightarrow> own_verify V b s"
    and "quoted \<le> now" and "as_secs (now - quoted) \<le> QUOTE_EXPIRATION_SECS"
  shows "verify_quote_for_storecost V now q address = Ok ()" and "q_cost q = cost"
proof -
  obtain s where s: "own_sign V (quote_bytes_for_signing (o_quote V) (case_option 0 id (as_xorname (o_net V) address))
      cost quoted metrics) = Some s"
    and q: "q = \<lparr> q_content = case_option 0 id (as_xorname (o_net V) address), q_cost = cost, q_timestamp = quoted,
       q_metrics = metrics, q_pub_key = own_pub_key V, q_signature = s \<rparr>"
    using assms(1) by (auto simp: create_quote_for_storecost_def Let_def result_simps)
  show "verify_quote_for_storecost V now q address = Ok ()" and "q_cost q = cost"
    using assms(2-4) s by (auto simp: verify_quote_for_storecost_def q has_expired_def quote_bytes_def)
qed

text \<open>C38: the amount that a node compares with the price includes notes that it received before.
  A payment that repeats a note already in the node's wallet is accepted at the full value of
  that note, as soon as it comes with one new note, however small.\<close>

theorem reused_note_counts:
  assumes "load_from_path_and_key (o_wallet V) [] [] d None None = (d, Ok wallet)"
    and "verify_and_unpack_transfer V get_record (EncryptedTransfer t1) wallet = Ok [old]"
    and "cash_note_presents wallet (cn_unique_pubkey (o_bls V) old)"
    and "verify_and_unpack_transfer V get_record (EncryptedTransfer t2) wallet = Ok [new]"
    and "unseen_note V d wallet new"
    and "verify_cash_notes_redemptions (o_bls V) (o_net V) (get_spend (o_net V) (c_spends V) get_record)
           (royalties_pk (o_wallet V)) cnrs = Ok rns" and "cnrs \<noteq> []"
    and "total_cash_notes_amount (o_bls V) rns = Ok fee"
    and "verify_quote_for_storecost V now q address = Ok ()"
    and "unat (as_nano (q_cost q)) + unat (as_nano (calculate_royalties_fee (q_cost q)))
           \<le> unat (as_nano fee) + note_value (o_bls V) old"
    and "unat (as_nano fee) + note_value (o_bls V) old + note_value (o_bls V) new < 2 ^ 64"
    and "hw_deposit_and_store_to_disk (o_wallet V) d wallet [new] = (d', wallet', Ok ())"
  shows "payment_for_us_exists_and_is_still_valid V now get_record d address
     \<lparr> pay_transfers = [EncryptedTransfer t1, EncryptedTransfer t2, NetworkRoyalties cnrs], pay_quote = q \<rparr>
       = (d', [PaymentReceived], Ok ())"
proof -
  let ?B = "o_bls V"
  have add: "\<exists>c. nano_checked_add a b = Some c \<and> unat (as_nano c) = unat (as_nano a) + unat (as_nano b)"
    if "unat (as_nano a) + unat (as_nano b) < 2 ^ 64" for a b
    using that by (cases "nano_checked_add a b")
      (auto simp: nano_checked_add_Some_iff, simp add: nano_checked_add_def checked_add_None_iff)
  obtain both where both: "nano_checked_add (cn_value ?B old) (cn_value ?B new) = Some both"
    "unat (as_nano both) = note_value ?B old + note_value ?B new"
    using add [of "cn_value ?B old" "cn_value ?B new"] assms(11) by auto
  obtain e where e: "nano_checked_add fee both = Some e" "unat (as_nano e) = unat (as_nano fee) + unat (as_nano both)"
    using add [of fee both] assms(11) both(2) by auto
  have zero: "nano_checked_add nano_zero a = Some a" for a
    by (simp add: nano_checked_add_Some_iff nano_zero_def)
  have total: "total_cash_notes_amount ?B [old, new] = Ok both"
    by (simp add: total_cash_notes_amount_def zero both)
  have "cash_notes_from_transfers V get_record [EncryptedTransfer t1, EncryptedTransfer t2, NetworkRoyalties cnrs]
      wallet k = Ok (e, [old, new], cnrs)" for k
    using assms(2,4,6,8) by (simp add: cash_notes_from_transfers_def total zero e)
  moreover have "filter (unseen_note V d wallet) [old, new] = [new]"
    using assms(3,5) by (simp add: unseen_note_def)
  moreover have "check_payment V now address q cnrs e = Ok ()"
    using assms(7,9,10) e(2) both(2) by (simp add: check_payment_ok_iff)
  ultimately show ?thesis
    using assms(12) by (simp add: payment_for_us_exists_and_is_still_valid_def assms(1) Let_def)
qed

subsection \<open>Registers and scratchpads\<close>

text \<open>C14: what a node stores for an uploaded or replicated register is valid, and loses no
  operation: it holds the operations of the incoming register and, when there is a local copy,
  those of the local one, whose base register it keeps.\<close>

theorem stored_register_merges:
  assumes "validate_and_store_register V L register client = (cmds, Ok ())"
    and "PutLocalRecord r' \<in> set cmds"
    and "\<And>r reg. get_local L (to_record_key (o_net V) (RegisterAddress (sr_address register))) = Some r
           \<Longrightarrow> try_deserialize_record (c_reg V) r = Ok reg \<Longrightarrow> sr_verify (o_bls V) (o_reg V) reg = Ok ()"
  shows "\<exists>stored. try_serialize_record (c_reg V) stored KRegister = Ok (rec_value r')
     \<and> sr_verify (o_bls V) (o_reg V) stored = Ok () \<and> set (sr_ops register) \<subseteq> set (sr_ops stored)
     \<and> (has_key L (rec_key r') \<longrightarrow> (\<exists>r reg. get_local L (rec_key r') = Some r
          \<and> try_deserialize_record (c_reg V) r = Ok reg \<and> base_register stored = base_register reg
          \<and> set (sr_ops stored) = set (sr_ops reg) \<union> set (sr_ops register)))"
proof -
  let ?key = "to_record_key (o_net V) (RegisterAddress (sr_address register))"
  obtain stored where val: "register_validation V L register (has_key L ?key) = Ok (Some stored)"
    and ser: "try_serialize_record (c_reg V) stored KRegister = Ok (rec_value r')" and key: "rec_key r' = ?key"
    using assms(1,2)
    by (auto simp: validate_and_store_register_def Let_def split: sum.splits option.splits if_splits)
  have ver: "sr_verify (o_bls V) (o_reg V) register = Ok ()"
    using val by (auto simp: register_validation_def result_simps)
  show ?thesis
  proof (cases "has_key L ?key")
    case False
    then have "stored = register" using val by (auto simp: register_validation_def result_simps)
    then show ?thesis using ser ver False key by auto
  next
    case True
    obtain r reg where r: "get_local L ?key = Some r" "try_deserialize_record (c_reg V) r = Ok reg"
      and m: "sr_verified_merge (o_bls V) (o_reg V) reg register = Ok stored"
      using val True
      by (auto simp: register_validation_def result_simps Let_def split: if_splits)
    have "sr_verify (o_bls V) (o_reg V) stored = Ok ()"
      using replica_step_verify [OF assms(3) [OF r], of "MergeRegister register" stored] m by simp
    moreover have "base_register stored = base_register reg"
      and "set (sr_ops stored) = set (sr_ops reg) \<union> set (sr_ops register)"
      using m by (auto simp: sr_verified_merge_def result_simps op_sets.elems_join)
    ultimately show ?thesis using ser r key by auto
  qed
qed

subsection \<open>Examples\<close>

text \<open>A codec that knows the values of a table only, with the header of a record in two bytes.\<close>

definition table_codec :: "('a \<times> bytes) list \<Rightarrow> 'a codec" where
  "table_codec table =
     \<lparr> enc_header = (\<lambda>n. Some [145, ucast n]),
       dec_header = (\<lambda>bs. case bs of a # n # _ \<Rightarrow> if a = 145 then Some (ucast n) else None | _ \<Rightarrow> None),
       enc_payload = map_of table, dec_payload = map_of (map (\<lambda>(x, bs). (bs, x)) table) \<rparr>"

definition example_chunk :: chunk where
  "example_chunk = \<lparr> chunk_address = 1, chunk_value = [0] \<rparr>"

definition example_payment :: payment where
  "example_payment = \<lparr> pay_transfers = [EncryptedTransfer [[1]],
     NetworkRoyalties [cnr_from_cash_note example_net (example_paid_note 99 3)]], pay_quote = example_quote \<rparr>"

definition example_node :: "merkle_node list node_ops" where
  "example_node = \<lparr> o_wallet = example_payment_ops, o_reg = list_merkle,
     o_quote = \<lparr> decode_pubkey = Some, peer_of_pubkey = id, verify_sig = (\<lambda>_ _ _. True), metrics_to_vec = (\<lambda>_. Some []) \<rparr>,
     own_sign = (\<lambda>_. Some []), own_verify = (\<lambda>_ s. s = []), own_pub_key = [], genesis_pk = 9,
     c_chunk = table_codec [(example_chunk, [7])], c_paid_chunk = table_codec [((example_payment, example_chunk), [8])],
     c_pad = table_codec [], c_paid_pad = table_codec [], c_spends = table_codec [([example_paid_spend], [3])],
     c_reg = table_codec [(example_signed, [9])], c_paid_reg = table_codec [] \<rparr>"

definition example_records :: get_record_fn where
  "example_records key cfg = Ok \<lparr> rec_key = key, rec_value = [145, 2, 3] \<rparr>"

definition example_node_disk :: wallet_disk where
  "example_node_disk = empty_disk \<lparr> d_secret_key := Some 20, d_main_pubkey := Some 20, d_wallet := Some [] \<rparr>"

lemma example_node_spends: "get_spend example_net (c_spends example_node) example_records a = Ok example_paid_spend"
  by (simp add: get_spend_def example_records_def get_signed_spend_from_record_def get_raw_signed_spends_from_record_def
      header_from_record_def header_try_deserialize_def try_deserialize_record_def HEADER_SIZE_def
      example_node_def table_codec_def kind_from_u32_def)

lemma ucast_down_up: "(ucast (ucast (i :: derivation_index) :: unique_pubkey) :: derivation_index) = i"
  by (rule bit_word_eqI) (simp add: bit_ucast_iff)

lemma example_index: "x XOR ucast (i :: derivation_index) = (x XOR ucast j :: unique_pubkey) \<longleftrightarrow> i = j"
proof
  assume "x XOR ucast i = x XOR (ucast j :: unique_pubkey)"
  then have "x XOR (x XOR ucast i) = x XOR (x XOR (ucast j :: unique_pubkey))" by simp
  then have "(ucast i :: unique_pubkey) = ucast j" by (simp flip: xor.assoc)
  then have "(ucast (ucast i :: unique_pubkey) :: derivation_index) = ucast (ucast j :: unique_pubkey)" by simp
  then show "i = j" by (simp only: ucast_down_up)
qed simp

lemma only_element: "set xs \<subseteq> {a} \<Longrightarrow> distinct xs \<Longrightarrow> xs \<noteq> [] \<Longrightarrow> xs = [a]"
  by (cases xs rule: remdups_adj.cases) auto

text \<open>The notes of the example payment are the only ones with its spend, amounts and keys.\<close>

lemma example_paid_parents:
  assumes "paid_note xor_bls {example_paid_spend} amount pk cn"
  shows "parent_spends cn = [example_paid_spend]"
proof -
  have "parent_spends cn \<noteq> []" "set (parent_spends cn) \<subseteq> {example_paid_spend}"
    using assms unfolding paid_note_def cn_verify_def by (metis Inl_Inr_False, blast)
  moreover have "distinct (parent_spends cn)"
    using assms unfolding paid_note_def bset_inv_def strict_sorted_iff distinct_map by blast
  ultimately show ?thesis by (intro only_element)
qed

lemma example_paid_unique:
  "paid_note xor_bls {example_paid_spend} (NanoTokens 4) 20 cn \<Longrightarrow> cn = example_paid_note 20 2"
  "paid_note xor_bls {example_paid_spend} (NanoTokens 1) 99 cn \<Longrightarrow> cn = example_paid_note 99 3"
proof -
  assume a: "paid_note xor_bls {example_paid_spend} (NanoTokens 4) 20 cn"
  then have "20 XOR ucast (cn_derivation_index cn) = (20 XOR ucast (2 :: derivation_index) :: unique_pubkey)"
    using example_paid_parents [OF a]
    by (auto simp: paid_note_def cn_value_def output_amount_or_zero_def get_output_amount_def cn_unique_pubkey_def
        new_unique_pubkey_def example_paid_spend_def signed_spend_sign_def nano_zero_def split: if_splits)
  then show "cn = example_paid_note 20 2"
    using a example_paid_parents [OF a] by (simp only: example_index) (simp add: paid_note_def example_paid_note_def)
next
  assume a: "paid_note xor_bls {example_paid_spend} (NanoTokens 1) 99 cn"
  then have "99 XOR ucast (cn_derivation_index cn) = (99 XOR ucast (3 :: derivation_index) :: unique_pubkey)"
    using example_paid_parents [OF a]
    by (auto simp: paid_note_def cn_value_def output_amount_or_zero_def get_output_amount_def cn_unique_pubkey_def
        new_unique_pubkey_def example_paid_spend_def signed_spend_sign_def nano_zero_def split: if_splits)
  then show "cn = example_paid_note 99 3"
    using a example_paid_parents [OF a] by (simp only: example_index) (simp add: paid_note_def example_paid_note_def)
qed

lemma example_paid_notes:
  "paid_note xor_bls {example_paid_spend} (NanoTokens 4) 20 (example_paid_note 20 2)"
  "paid_note xor_bls {example_paid_spend} (NanoTokens 1) 99 (example_paid_note 99 3)"
  by (simp_all add: paid_note_def cn_value_def output_amount_or_zero_def bset_inv_def cn_verify_def cn_unique_pubkey_def
      new_unique_pubkey_def example_paid_note_def example_paid_spend_def signed_spend_sign_def get_output_amount_def)

lemma example_node_simps [simp]:
  "o_wallet example_node = example_payment_ops" "w_bls example_payment_ops = xor_bls"
  "w_net example_payment_ops = example_net" "royalties_pk example_payment_ops = 99" "o_reg example_node = list_merkle"
  "own_sign example_node = (\<lambda>_. Some [])" "own_verify example_node = (\<lambda>_ s. s = [])"
  by (simp_all add: example_node_def example_payment_ops_simps)

lemma example_node_wallet: "plain_wallet example_payment_ops 20 [] example_node_disk"
  by (simp add: plain_wallet_def example_node_disk_def empty_disk_def main_pubkey_of_def bmap_inv_def)

lemma example_transfers:
  "sk_decrypt (w_transfer example_payment_ops) 20 (pk_encrypt (w_transfer example_payment_ops) pk b) = Some b"
  "cnr_to_bytes (w_transfer example_payment_ops) x = Some b \<Longrightarrow> cnr_from_bytes (w_transfer example_payment_ops) b = Some x"
  "transfer_from_cash_note example_net (w_transfer example_payment_ops) (example_paid_note 20 2)
     = Ok (EncryptedTransfer [[1]])"
  by (auto simp: example_payment_ops_def example_transfer_ops_def example_paid_note_simps transfer_from_cash_note_def
      transfer_create_def cnr_encrypt_def split: if_splits)

lemma example_quote_created:
  "create_quote_for_storecost example_node 0 (NanoTokens 4) (ChunkAddress 1) quoting_metrics_new = Ok example_quote"
  by (simp add: create_quote_for_storecost_def example_quote_def payment_quote_zero_def result_simps)
    (simp add: example_node_def)

definition example_upload :: kad_record where
  "example_upload = \<lparr> rec_key = to_record_key example_net (ChunkAddress 1), rec_value = [145, 0, 8] \<rparr>"

lemma example_upload_decodes:
  "header_from_record (c_chunk example_node) example_upload = Ok KChunkWithPayment"
  "try_deserialize_record (c_paid_chunk example_node) example_upload = Ok (example_payment, example_chunk)"
  "try_serialize_record (c_chunk example_node) example_chunk KChunk = Ok [145, 1, 7]"
  by (simp_all add: header_from_record_def header_try_deserialize_def try_deserialize_record_def try_serialize_record_def
      header_try_serialize_def HEADER_SIZE_def example_node_def table_codec_def kind_from_u32_def example_upload_def)

lemma example_payment_accepted:
  "\<exists>d'. payment_for_us_exists_and_is_still_valid example_node 0 example_records example_node_disk (ChunkAddress 1)
     example_payment = (d', [PaymentReceived], Ok ())"
proof -
  have q: "q_cost example_quote = NanoTokens 4" by (simp add: example_quote_def)
  have unseen: "\<not> has_confirmed_spend example_node_disk a" for a
    by (simp add: has_confirmed_spend_def hmap_contains_def example_node_disk_def empty_disk_def)
  have "\<exists>d'. payment_for_us_exists_and_is_still_valid example_node 0 example_records example_node_disk (ChunkAddress 1)
     \<lparr> pay_transfers = [EncryptedTransfer [[1]],
         NetworkRoyalties [cnr_from_cash_note (o_net example_node) (example_paid_note 99 3)]], pay_quote = example_quote \<rparr>
       = (d', [PaymentReceived], Ok ())"
  proof (rule payment_accepted [where S = "{example_paid_spend}" and cn = "example_paid_note 20 2" and key = 20 and m = "[]"
        and pk = 20])
    show "paid_note (o_bls example_node) {example_paid_spend} (q_cost example_quote) 20 (example_paid_note 20 2)"
      using example_paid_notes(1) by (simp add: q)
    show "verify_quote_for_storecost example_node 0 example_quote (ChunkAddress 1) = Ok ()"
      by (rule own_quote_valid [OF example_quote_created]) simp_all
  qed (simp_all add: q example_fee example_paid_notes example_node_wallet main_pubkey_of_def example_transfers
      example_payment_hex example_node_spends unseen)
  then show ?thesis by (simp add: example_payment_def)
qed

definition empty_local_store :: local_store where
  "empty_local_store = \<lparr> has_key = (\<lambda>_. False), get_local = (\<lambda>_. None) \<rparr>"

lemma example_upload_stored:
  "\<exists>d' cmds. validate_and_store_record example_node 0 example_records empty_local_store example_node_disk example_upload
      = (d', cmds, Ok ())
    \<and> PutLocalRecord \<lparr> rec_key = to_record_key example_net (ChunkAddress 1), rec_value = [145, 1, 7] \<rparr> \<in> set cmds"
proof -
  have c: "chunk_network_address example_chunk = ChunkAddress 1" "chunk_address example_chunk = 1"
    "rec_key example_upload = to_record_key example_net (ChunkAddress 1)"
    by (simp_all add: chunk_network_address_def example_chunk_def example_upload_def)
  obtain d' where pay: "payment_for_us_exists_and_is_still_valid example_node 0 example_records example_node_disk
      (ChunkAddress 1) example_payment = (d', [PaymentReceived], Ok ())"
    using example_payment_accepted by blast
  have "validate_key_and_existence example_node empty_local_store (ChunkAddress 1) (rec_key example_upload) = Ok False"
    by (simp add: validate_key_and_existence_def empty_local_store_def c(3))
  then show ?thesis
    by (simp add: validate_and_store_record_def put_paid_chunk_def example_upload_decodes c(1,2) pay store_chunk_def
        notify_when_ok_def)
qed

theorem uploads_are_paid_witness:
  "\<exists>address payment. to_record_key example_net (ChunkAddress 1) = to_record_key example_net address
     \<and> carries_payment example_node example_upload payment
     \<and> sufficient_payment example_node 0 example_records example_node_disk address payment"
proof -
  obtain d' cmds where v: "validate_and_store_record example_node 0 example_records empty_local_store example_node_disk
      example_upload = (d', cmds, Ok ())"
    and put: "PutLocalRecord \<lparr> rec_key = to_record_key example_net (ChunkAddress 1), rec_value = [145, 1, 7] \<rparr> \<in> set cmds"
    using example_upload_stored by blast
  from uploads_are_paid [OF v put] show ?thesis by (simp add: example_upload_decodes)
qed

text \<open>A node that holds a spend keeps it when the spend is uploaded again.\<close>

definition spend_local_store :: local_store where
  "spend_local_store = \<lparr> has_key = (\<lambda>_. True), get_local = (\<lambda>key. Some \<lparr> rec_key = key, rec_value = [145, 2, 3] \<rparr>) \<rparr>"

definition example_spend_key :: record_key where
  "example_spend_key = to_record_key example_net (SpendAddress (spend_address_of example_net (ss_unique_pubkey example_paid_spend)))"

lemma example_spends_decode:
  "get_raw_spends example_net (c_spends example_node) example_records a = Ok [example_paid_spend]"
  "get_local_spends example_node spend_local_store a = Ok [example_paid_spend]"
  "try_serialize_record (c_spends example_node) [example_paid_spend] KSpend = Ok [145, 2, 3]"
  by (simp_all add: get_raw_spends_def example_records_def get_raw_signed_spends_from_record_def get_local_spends_def
      spend_local_store_def header_from_record_def header_try_deserialize_def try_deserialize_record_def
      try_serialize_record_def header_try_serialize_def HEADER_SIZE_def example_node_def table_codec_def kind_from_u32_def)

theorem stored_spends_justified_witness:
  "\<exists>kept bs. validate_merge_and_store_spends example_node example_records spend_local_store [example_paid_spend]
        example_spend_key = ([PutLocalRecord \<lparr> rec_key = example_spend_key, rec_value = bs \<rparr>], Ok ())
     \<and> try_serialize_record (c_spends example_node) kept KSpend = Ok bs \<and> kept \<noteq> [] \<and> length kept \<le> 2"
proof -
  have key: "spends_for_key example_node example_spend_key [example_paid_spend] = [example_paid_spend]"
    by (simp add: spends_for_key_def example_spend_key_def)
  have all: "all_verified_spends example_node example_records [example_paid_spend] [example_paid_spend] k
      = [example_paid_spend]" for k
    by (simp add: all_verified_spends_def Let_def example_spends_decode bset_of_def bset_extend_def)
  have v: "validate_merge_and_store_spends example_node example_records spend_local_store [example_paid_spend]
      example_spend_key = ([PutLocalRecord \<lparr> rec_key = example_spend_key, rec_value = [145, 2, 3] \<rparr>], Ok ())"
    by (simp add: validate_merge_and_store_spends_def key signed_spends_to_keep_def example_spends_decode all)
  have "inj_on signed_spend_key (set (network_spends_of example_node (get_raw_spends (o_net example_node)
      (c_spends example_node) example_records (spend_address_of (o_net example_node) (ss_unique_pubkey example_paid_spend))))
      \<union> set [example_paid_spend])"
    by (simp add: example_spends_decode)
  from stored_spends_justified [OF v key this] show ?thesis using v by auto
qed

text \<open>A new register is stored as it is.\<close>

lemma example_register_stored:
  "validate_and_store_register example_node empty_local_store example_signed False
     = ([PutLocalRecord \<lparr> rec_key = to_record_key example_net (RegisterAddress (sr_address example_signed)),
          rec_value = [145, 3, 9] \<rparr>], Ok ())"
proof -
  have "sr_verify xor_bls list_merkle example_signed = Ok ()"
    by (simp add: sr_verify_def register_bytes_def list_merkle_def example_signed_def)
  moreover have "try_serialize_record (c_reg example_node) example_signed KRegister = Ok [145, 3, 9]"
    by (simp add: try_serialize_record_def header_try_serialize_def example_node_def table_codec_def)
  ultimately show ?thesis
    by (simp add: validate_and_store_register_def register_validation_def empty_local_store_def Let_def)
qed

theorem stored_register_merges_witness:
  "\<exists>stored. try_serialize_record (c_reg example_node) stored KRegister = Ok [145, 3, 9]
     \<and> sr_verify xor_bls list_merkle stored = Ok ()"
  using stored_register_merges [OF example_register_stored,
      of "\<lparr> rec_key = to_record_key example_net (RegisterAddress (sr_address example_signed)), rec_value = [145, 3, 9] \<rparr>"]
  by (auto simp: empty_local_store_def)

text \<open>A node that has the note of 4 nanos already, and a payment with that note and a new one of 1.\<close>

definition reuse_wallet_ops :: wallet_ops where
  "reuse_wallet_ops = example_payment_ops
     \<lparr> w_transfer := w_transfer example_payment_ops \<lparr> cnr_from_bytes := (\<lambda>bs.
         if bs = [1] then Some (cnr_from_cash_note example_net (example_paid_note 20 2))
         else Some (cnr_from_cash_note example_net (example_paid_note 20 116))) \<rparr>,
       note_to_vec := (\<lambda>_. Some [66]) \<rparr>"

definition reuse_node :: "merkle_node list node_ops" where
  "reuse_node = example_node \<lparr> o_wallet := reuse_wallet_ops \<rparr>"

definition reuse_disk :: wallet_disk where
  "reuse_disk = empty_disk \<lparr> d_secret_key := Some 20, d_main_pubkey := Some 20, d_wallet := Some [(22, NanoTokens 4)],
     d_cash_notes := [(note_file reuse_wallet_ops 22, ''B'')] \<rparr>"

definition reuse_wallet :: hot_wallet where
  "reuse_wallet = \<lparr> hw_key = 20, hw_watchonly = \<lparr> wo_main_pubkey = 20, wo_available = [(22, NanoTokens 4)] \<rparr>,
     hw_unconfirmed = [], hw_auth = auth_new \<rparr>"

lemma reuse_simps:
  "o_wallet reuse_node = reuse_wallet_ops" "w_bls reuse_wallet_ops = xor_bls" "w_net reuse_wallet_ops = example_net"
  "royalties_pk reuse_wallet_ops = 99" "c_spends reuse_node = c_spends example_node"
  "cn_unique_pubkey xor_bls (example_paid_note 20 2) = 22" "cn_unique_pubkey xor_bls (example_paid_note 20 116) = 96"
  "cn_value xor_bls (example_paid_note 20 116) = NanoTokens 1" "hw_key reuse_wallet = 20"
  by (simp_all add: reuse_node_def reuse_wallet_ops_def cn_unique_pubkey_def new_unique_pubkey_def example_paid_note_def
      cn_value_def output_amount_or_zero_def get_output_amount_def example_paid_spend_def signed_spend_sign_def reuse_wallet_def)

lemma reuse_plain: "plain_wallet reuse_wallet_ops 20 [(22, NanoTokens 4)] reuse_disk"
proof -
  have "cn_from_hex reuse_wallet_ops ''B'' = Some (example_paid_note 20 2)"
    using example_payment_hex(4) by (simp add: cn_from_hex_def reuse_wallet_ops_def)
  then have "load_created_cash_note reuse_wallet_ops reuse_disk 22 = Some (example_paid_note 20 2)"
    by (simp add: load_created_cash_note_def reuse_disk_def)
  then show ?thesis
    unfolding plain_wallet_def note_on_disk_def
    by (simp add: reuse_simps example_paid_note_simps main_pubkey_of_def)
      (simp add: reuse_disk_def empty_disk_def bmap_inv_def)
qed

lemma reuse_load: "load_from_path_and_key reuse_wallet_ops [] [] reuse_disk None None = (reuse_disk, Ok reuse_wallet)"
  using plain_load [OF reuse_plain]
  by (simp add: reuse_simps reuse_wallet_def main_pubkey_of_def) (simp add: reuse_disk_def empty_disk_def)

lemma reuse_unpack:
  assumes "paid_note xor_bls {example_paid_spend} amount 20 cn"
    and "cnr_from_bytes (w_transfer reuse_wallet_ops) bs = Some (cnr_from_cash_note example_net cn)"
  shows "verify_and_unpack_transfer reuse_node example_records (EncryptedTransfer [bs]) reuse_wallet = Ok [cn]"
proof -
  have "sk_decrypt (w_transfer reuse_wallet_ops) 20 bs = Some bs"
    by (simp add: reuse_wallet_ops_def example_payment_ops_def example_transfer_ops_def)
  then have "unwrap_transfer reuse_wallet_ops reuse_wallet (EncryptedTransfer [bs]) = Ok [cnr_from_cash_note example_net cn]"
    using assms(2) by (simp add: unwrap_transfer_def cnr_decrypt_def reuse_simps)
  moreover have "verify_cash_notes_redemptions xor_bls example_net (get_spend example_net (c_spends example_node) example_records)
      20 [cnr_from_cash_note example_net cn] = Ok [cn]"
    by (rule paid_note_redeemed [OF assms(1)]) (simp_all add: example_node_spends)
  ultimately show ?thesis
    by (simp add: verify_and_unpack_transfer_def reuse_simps hw_address_def main_pubkey_of_def)
qed

theorem reused_note_counts_witness:
  "\<exists>d'. payment_for_us_exists_and_is_still_valid reuse_node 0 example_records reuse_disk (ChunkAddress 1)
     \<lparr> pay_transfers = [EncryptedTransfer [[1]], EncryptedTransfer [[2]],
         NetworkRoyalties [cnr_from_cash_note example_net (example_paid_note 99 3)]], pay_quote = example_quote \<rparr>
       = (d', [PaymentReceived], Ok ())"
proof -
  have new: "paid_note xor_bls {example_paid_spend} (NanoTokens 1) 20 (example_paid_note 20 116)"
    by (simp add: paid_note_def cn_value_def output_amount_or_zero_def bset_inv_def cn_verify_def cn_unique_pubkey_def
      new_unique_pubkey_def example_paid_note_def example_paid_spend_def signed_spend_sign_def get_output_amount_def)
  have q: "q_cost example_quote = NanoTokens 4" by (simp add: example_quote_def)
  have bytes: "cnr_from_bytes (w_transfer reuse_wallet_ops) [1] = Some (cnr_from_cash_note example_net (example_paid_note 20 2))"
    "cnr_from_bytes (w_transfer reuse_wallet_ops) [2] = Some (cnr_from_cash_note example_net (example_paid_note 20 116))"
    by (simp_all add: reuse_wallet_ops_def)
  obtain d' w' where dep: "hw_deposit_and_store_to_disk reuse_wallet_ops reuse_disk reuse_wallet [example_paid_note 20 116]
      = (d', w', Ok ())"
    using plain_deposit [OF reuse_plain, of "example_paid_note 20 116" reuse_wallet]
    by (auto simp: reuse_simps main_pubkey_of_def example_paid_note_simps cn_to_hex_def reuse_wallet_def)
      (auto simp: reuse_wallet_ops_def)
  have quote: "verify_quote_for_storecost reuse_node 0 example_quote (ChunkAddress 1) = Ok ()"
    by (simp add: verify_quote_for_storecost_def example_quote_def payment_quote_zero_def has_expired_def
        reuse_node_def reuse_wallet_ops_def)
  have "payment_for_us_exists_and_is_still_valid reuse_node 0 example_records reuse_disk (ChunkAddress 1)
     \<lparr> pay_transfers = [EncryptedTransfer [[1]], EncryptedTransfer [[2]],
         NetworkRoyalties [cnr_from_cash_note example_net (example_paid_note 99 3)]], pay_quote = example_quote \<rparr>
       = (d', [PaymentReceived], Ok ())"
  proof (rule reused_note_counts [where rns = "[example_paid_note 99 3]"])
    show "verify_and_unpack_transfer reuse_node example_records (EncryptedTransfer [[1]]) reuse_wallet
        = Ok [example_paid_note 20 2]"
      by (rule reuse_unpack [OF example_paid_notes(1) bytes(1)])
    show "verify_and_unpack_transfer reuse_node example_records (EncryptedTransfer [[2]]) reuse_wallet
        = Ok [example_paid_note 20 116]"
      by (rule reuse_unpack [OF new bytes(2)])
    show "verify_cash_notes_redemptions (o_bls reuse_node) (o_net reuse_node)
        (get_spend (o_net reuse_node) (c_spends reuse_node) example_records) (royalties_pk (o_wallet reuse_node))
        [cnr_from_cash_note example_net (example_paid_note 99 3)] = Ok [example_paid_note 99 3]"
      unfolding reuse_simps by (rule paid_note_redeemed [OF example_paid_notes(2)]) (simp_all add: example_node_spends)
    show "total_cash_notes_amount (o_bls reuse_node) [example_paid_note 99 3] = Ok (NanoTokens 1)"
      by (simp add: total_single example_paid_note_simps reuse_simps)
    show "unseen_note reuse_node reuse_disk reuse_wallet (example_paid_note 20 116)"
      by (simp add: unseen_note_def reuse_simps cash_note_presents_def reuse_wallet_def has_confirmed_spend_def
          hmap_contains_def reuse_disk_def empty_disk_def)
    show "cash_note_presents reuse_wallet (cn_unique_pubkey (o_bls reuse_node) (example_paid_note 20 2))"
      by (simp add: reuse_simps cash_note_presents_def reuse_wallet_def)
  qed (simp_all add: reuse_simps reuse_load dep quote q example_fee example_paid_note_simps)
  then show ?thesis by blast
qed

end
