(* ===== verification/Swarm_Driver.thy ===== *)
theory Swarm_Driver
  imports Replication Get_Record
begin

text \<open>
  The local commands of the swarm driver (sn\_networking cmd.rs) with the handlers of
  replication lists (event/request\_response.rs): they tie the record store and the replication
  fetcher together and keep track of peers that misbehave. The routing table of the Kademlia
  library is the list \<open>routing_table\<close> of its peers, in the order of their distance to the node;
  the library itself changes it by the event \<open>RoutingTableChanged\<close>. Time is an argument of
  every handler; events, requests to peers and their times are fields of the state. Random
  choices are arguments.
\<close>

section \<open>The swarm driver\<close>

datatype node_issue =
  ConnectionIssue | ReplicationFailure | CloseNodesShunning | BadQuoting | FailedChunkProofCheck

datatype terminate_node_reason = HardDiskWriteError | UpnpGatewayNotFound

text \<open>The events and requests that the handlers below send; the messages themselves, and the
  events about requests, are in the theory \<open>Requests\<close>.\<close>

datatype network_event =
    PeerAdded peer_id nat
  | PeerRemoved peer_id nat
  | KeysToFetchForReplication "(peer_id \<times> record_key) list"
  | TerminateNode terminate_node_reason
  | ChunkProofVerification peer_id "network_address list"

datatype peer_request =
    CmdReplicate network_address "(network_address \<times> record_type) list"
  | CmdPeerConsideredAsBad network_address network_address node_issue

record swarm_driver =
  self_peer_id :: peer_id
  sd_store :: unified_record_store
  sd_fetcher :: replication_fetcher
  routing_table :: "peer_id list"
  peers_in_rt :: nat
  bad_nodes :: "(peer_id, (node_issue \<times> system_time) list \<times> bool) btree_map"
  quotes_history :: "(peer_id, payment_quote) btree_map"
  replication_targets :: "(peer_id, system_time) btree_map"
  sd_blocklist :: "peer_id list"
  hard_disk_write_error :: usize
  sd_events :: "network_event list"
  sd_requests :: "(system_time \<times> peer_id \<times> peer_request) list"

record swarm_ops =
  s_net :: net_ops
  s_store :: store_ops
  s_codec :: "signed_spend list codec"

definition MAX_CONTINUOUS_HDD_WRITE_ERROR :: usize where
  "MAX_CONTINUOUS_HDD_WRITE_ERROR = 5"

definition REPLICATION_TIMEOUT :: nat where
  "REPLICATION_TIMEOUT = from_secs 45"

definition REPLICATION_PEERS_COUNT :: nat where
  "REPLICATION_PEERS_COUNT = CLOSE_GROUP_SIZE + 2"

definition send_event :: "network_event \<Rightarrow> swarm_driver \<Rightarrow> swarm_driver" where
  "send_event e s = s \<lparr> sd_events := sd_events s @ [e] \<rparr>"

definition send_request_to :: "system_time \<Rightarrow> peer_id \<Rightarrow> peer_request \<Rightarrow> swarm_driver \<Rightarrow> swarm_driver" where
  "send_request_to now peer req s = s \<lparr> sd_requests := sd_requests s @ [(now, peer, req)] \<rparr>"

definition send_keys_to_fetch :: "(peer_id \<times> record_key) list \<Rightarrow> swarm_driver \<Rightarrow> swarm_driver" where
  "send_keys_to_fetch ks s = (if ks = [] then s else send_event (KeysToFetchForReplication ks) s)"

subsection \<open>Peers by distance (lib.rs, driver.rs)\<close>

definition sort_peers_by_address ::
    "net_ops \<Rightarrow> peer_id list \<Rightarrow> network_address \<Rightarrow> nat \<Rightarrow> (network_error, peer_id list) result" where
  "sort_peers_by_address N peers address expected_entries =
     (if CLOSE_GROUP_SIZE > length peers then Err (NotEnoughPeers (length peers) CLOSE_GROUP_SIZE)
      else Ok (take expected_entries (sort_key (\<lambda>p. addr_distance N address (from_peer p)) peers)))"

definition get_closest_k_value_local_peers :: "swarm_driver \<Rightarrow> peer_id list" where
  "get_closest_k_value_local_peers s = take K_VALUE (self_peer_id s # routing_table s)"

definition get_responsbile_range_estimate :: "net_ops \<Rightarrow> swarm_driver \<Rightarrow> peer_id list \<Rightarrow> nat option" where
  "get_responsbile_range_estimate N s closest_k_peers =
     (if closest_k_peers = [] then None
      else ilog2 (addr_distance N (from_peer (self_peer_id s))
             (from_peer (closest_k_peers ! (min (K_VALUE div 2) (length closest_k_peers) - 1)))))"

text \<open>The cheapest quote; the random choice between equal costs is the list \<open>coins\<close>.\<close>

fun min_by_cost ::
    "network_address \<times> main_pubkey \<times> payment_quote \<Rightarrow> (network_address \<times> main_pubkey \<times> payment_quote) list
      \<Rightarrow> bool list \<Rightarrow> network_address \<times> main_pubkey \<times> payment_quote" where
  "min_by_cost best [] coins = best"
| "min_by_cost best (x # xs) coins =
     (let a = as_nano (q_cost (snd (snd best))); b = as_nano (q_cost (snd (snd x)))
      in if a < b then min_by_cost best xs coins
         else if b < a then min_by_cost x xs coins
         else case coins of
                [] \<Rightarrow> min_by_cost best xs []
              | heads # coins' \<Rightarrow> min_by_cost (if heads then best else x) xs coins')"

definition get_fees_from_store_cost_responses ::
    "net_ops \<Rightarrow> bool list \<Rightarrow> (network_address \<times> main_pubkey \<times> payment_quote) list
      \<Rightarrow> (network_error, peer_id \<times> main_pubkey \<times> payment_quote) result" where
  "get_fees_from_store_cost_responses N coins all_costs =
     (case all_costs of
        [] \<Rightarrow> Err NoStoreCostResponses
      | x # xs \<Rightarrow>
          (case min_by_cost x xs coins of
             (address, pk, quote) \<Rightarrow>
               and_then (ok_or (as_peer_id N address) NoStoreCostResponses) (\<lambda>peer. Ok (peer, pk, quote))))"

subsection \<open>The routing table (event/mod.rs)\<close>

definition update_on_peer_addition :: "peer_id \<Rightarrow> swarm_driver \<Rightarrow> swarm_driver" where
  "update_on_peer_addition peer s =
     (let n = peers_in_rt s + 1 in send_event (PeerAdded peer n) (s \<lparr> peers_in_rt := n \<rparr>))"

definition update_on_peer_removal :: "peer_id \<Rightarrow> swarm_driver \<Rightarrow> swarm_driver" where
  "update_on_peer_removal peer s =
     (let n = peers_in_rt s - 1 in send_event (PeerRemoved peer n) (s \<lparr> peers_in_rt := n \<rparr>))"

definition remove_peer :: "peer_id \<Rightarrow> swarm_driver \<Rightarrow> swarm_driver" where
  "remove_peer peer s =
     (if peer \<in> set (routing_table s)
      then update_on_peer_removal peer (s \<lparr> routing_table := filter (\<lambda>p. p \<noteq> peer) (routing_table s) \<rparr>)
      else s)"

subsection \<open>Issues of peers\<close>

definition track_issue ::
    "system_time \<Rightarrow> node_issue \<Rightarrow> (node_issue \<times> system_time) list \<Rightarrow> (node_issue \<times> system_time) list" where
  "track_issue now issue issue_vec =
     (let recent = filter (\<lambda>(_, timestamp). as_secs (now - timestamp) < 300) issue_vec;
          kept = (if length recent = 10 then tl recent else recent);
          is_new_issue = (if kept = [] then True else as_secs (now - snd (last kept)) > 10)
      in if is_new_issue then kept @ [(issue, now)] else kept)"

definition frequent_issue :: "(node_issue \<times> system_time) list \<Rightarrow> node_issue option" where
  "frequent_issue issue_vec =
     map_option fst (find (\<lambda>(issue, _). length (filter (\<lambda>(i, _). issue = i) issue_vec) \<ge> 3) issue_vec)"

definition record_node_issue ::
    "system_time \<Rightarrow> peer_id \<Rightarrow> node_issue \<Rightarrow> swarm_driver \<Rightarrow> swarm_driver" where
  "record_node_issue now peer issue s =
     (let (issue_vec, is_bad) = (case map_of (bad_nodes s) peer of Some e \<Rightarrow> e | None \<Rightarrow> ([], False));
          issue_vec' = (if is_bad then issue_vec else track_issue now issue issue_vec);
          new_bad = (if is_bad then None else frequent_issue issue_vec');
          is_bad' = (is_bad \<or> new_bad \<noteq> None);
          s1 = s \<lparr> bad_nodes := bmap_insert peer (issue_vec', is_bad') (bad_nodes s) \<rparr>
      in if \<not> is_bad' then s1
         else let s2 = remove_peer peer s1
              in case new_bad of
                   None \<Rightarrow> s2
                 | Some bad_behaviour \<Rightarrow>
                     send_request_to now peer
                       (CmdPeerConsideredAsBad (from_peer (self_peer_id s)) (from_peer peer) bad_behaviour) s2)"

definition is_peer_shunned :: "net_ops \<Rightarrow> swarm_driver \<Rightarrow> network_address \<Rightarrow> bool" where
  "is_peer_shunned N s target =
     (case as_peer_id N target of
        None \<Rightarrow> False
      | Some peer \<Rightarrow> (case map_of (bad_nodes s) peer of Some (_, is_bad) \<Rightarrow> is_bad | None \<Rightarrow> False))"

definition verify_peer_quote ::
    "system_time \<Rightarrow> peer_id \<times> payment_quote \<Rightarrow> swarm_driver \<Rightarrow> swarm_driver" where
  "verify_peer_quote now pq s =
     (case pq of (peer, quote) \<Rightarrow>
        (case map_of (quotes_history s) peer of
           Some history_quote \<Rightarrow>
             if \<not> historical_verify now history_quote quote then record_node_issue now peer BadQuoting s
             else if is_newer_than history_quote quote then s
             else s \<lparr> quotes_history := bmap_insert peer quote (quotes_history s) \<rparr>
         | None \<Rightarrow> s \<lparr> quotes_history := bmap_insert peer quote (quotes_history s) \<rparr>))"

definition quote_verification ::
    "system_time \<Rightarrow> (peer_id \<times> payment_quote) list \<Rightarrow> swarm_driver \<Rightarrow> swarm_driver" where
  "quote_verification now quotes s =
     fold (\<lambda>(peer, quote) s.
             case map_of (bad_nodes s) peer of
               Some (_, True) \<Rightarrow> s
             | _ \<Rightarrow> verify_peer_quote now (peer, quote) s) quotes s"

subsection \<open>The store and the fetcher\<close>

definition record_type_of :: "swarm_ops \<Rightarrow> kad_record \<Rightarrow> (network_error, record_type) result" where
  "record_type_of P r =
     (case header_from_record (s_codec P) r of
        Inl _ \<Rightarrow> Err InCorrectRecordHeader
      | Inr KChunk \<Rightarrow> Ok ChunkType
      | Inr KScratchpad \<Rightarrow> Ok ScratchpadType
      | Inr KSpend \<Rightarrow> Ok (NonChunkType (xor_from_content (s_net P) (rec_value r)))
      | Inr KRegister \<Rightarrow> Ok (NonChunkType (xor_from_content (s_net P) (rec_value r)))
      | Inr _ \<Rightarrow> Err InCorrectRecordHeader)"

definition put_verified_local_record ::
    "swarm_ops \<Rightarrow> system_time \<Rightarrow> kad_record \<Rightarrow> swarm_driver \<Rightarrow> swarm_driver \<times> (network_error, unit) result" where
  "put_verified_local_record P now r s =
     (case record_type_of P r of
        Inl e \<Rightarrow> (s, Err e)
      | Inr ty \<Rightarrow>
          (case unified_put_verified (s_net P) (s_store P) (sd_store s) r ty of
             (store, result) \<Rightarrow>
               let f1 = (case result of
                           Inl MaxRecords \<Rightarrow>
                             set_farthest_on_full (s_net P) (sd_fetcher s) (unified_get_farthest store)
                         | _ \<Rightarrow> sd_fetcher s);
                   (f2, ks) = notify_about_new_put (s_net P) now f1 (rec_key r) ty;
                   f3 = (case get_farthest_replication_distance_bucket store of
                           Some distance \<Rightarrow> set_replication_distance_range f2 distance
                         | None \<Rightarrow> f2)
               in (send_keys_to_fetch ks (s \<lparr> sd_store := store, sd_fetcher := f3 \<rparr>),
                   case result of Inl _ \<Rightarrow> Err KademliaStoreError | Inr _ \<Rightarrow> Ok ())))"

definition add_local_record_as_stored :: "swarm_ops \<Rightarrow> record_key \<Rightarrow> record_type \<Rightarrow> swarm_driver \<Rightarrow> swarm_driver" where
  "add_local_record_as_stored P key ty s =
     s \<lparr> sd_store := unified_mark_as_stored (s_net P) (sd_store s) key ty, hard_disk_write_error := 0 \<rparr>"

definition remove_failed_local_record :: "swarm_ops \<Rightarrow> record_key \<Rightarrow> swarm_driver \<Rightarrow> swarm_driver" where
  "remove_failed_local_record P key s =
     (let n = (if hard_disk_write_error s = - 1 then hard_disk_write_error s else hard_disk_write_error s + 1);
          s' = s \<lparr> sd_store := unified_remove (s_net P) (s_store P) (sd_store s) key, hard_disk_write_error := n \<rparr>
      in if n > MAX_CONTINUOUS_HDD_WRITE_ERROR then send_event (TerminateNode HardDiskWriteError) s' else s')"

definition fetch_completed :: "swarm_ops \<Rightarrow> system_time \<Rightarrow> record_key \<Rightarrow> record_type \<Rightarrow> swarm_driver \<Rightarrow> swarm_driver" where
  "fetch_completed P now key ty s =
     (case notify_fetch_early_completed (s_net P) now (sd_fetcher s) key ty of
        (f, ks) \<Rightarrow> send_keys_to_fetch ks (s \<lparr> sd_fetcher := f \<rparr>))"

definition try_interval_replication :: "system_time \<Rightarrow> swarm_driver \<Rightarrow> swarm_driver" where
  "try_interval_replication now s =
     (let targets = hmap_retain (\<lambda>_ timestamp. timestamp > now) (replication_targets s);
          replicate_targets =
            filter (\<lambda>p. map_of targets p = None) (take REPLICATION_PEERS_COUNT (routing_table s));
          s1 = s \<lparr> replication_targets := targets \<rparr>;
          all_records = map snd (record_addresses_ref (sd_store s))
      in if replicate_targets = [] \<or> all_records = [] then s1
         else fold (\<lambda>peer s.
                 (send_request_to now peer (CmdReplicate (from_peer (self_peer_id s)) all_records) s)
                   \<lparr> replication_targets :=
                       bmap_insert peer (now + REPLICATION_TIMEOUT) (replication_targets s) \<rparr>)
               replicate_targets s1)"

definition verify_peer_storage ::
    "swarm_ops \<Rightarrow> (nat \<Rightarrow> nat) \<Rightarrow> network_address \<Rightarrow> swarm_driver \<Rightarrow> swarm_driver" where
  "verify_peer_storage P random peer s =
     (case as_peer_id (s_net P) peer of
        None \<Rightarrow> s
      | Some target_peer \<Rightarrow>
          let closest_peers = take 20 (routing_table s) @ [self_peer_id s];
              candidates = List.map_filter (\<lambda>(addr, ty).
                  if ty = ChunkType
                  then (case sort_peers_by_address (s_net P) closest_peers addr CLOSE_GROUP_SIZE of
                          Inr close_group \<Rightarrow> if target_peer \<in> set close_group then Some addr else None
                        | Inl _ \<Rightarrow> None)
                  else None) (map snd (record_addresses_ref (sd_store s)));
              sorted = sort_key (addr_distance (s_net P) peer) candidates
          in if length sorted > 50
             then send_event (ChunkProofVerification target_peer [sorted ! random (length sorted div 2)]) s
             else s)"

text \<open>The random choices of a replication list: whether to check the sender, whether to check
  another close peer as well, the indexes drawn until that peer is not the sender, and the
  records to ask for.\<close>

record replicate_choices =
  check_sender :: bool
  check_other :: bool
  other_indexes :: "nat list"
  pick_for_sender :: "nat \<Rightarrow> nat"
  pick_for_other :: "nat \<Rightarrow> nat"

definition add_keys_to_replication_fetcher ::
    "swarm_ops \<Rightarrow> system_time \<Rightarrow> replicate_choices \<Rightarrow> network_address \<Rightarrow> (network_address \<times> record_type) list
      \<Rightarrow> swarm_driver \<Rightarrow> swarm_driver" where
  "add_keys_to_replication_fetcher P now rng sender incoming_keys s =
     (case as_peer_id (s_net P) sender of
        None \<Rightarrow> s
      | Some holder \<Rightarrow>
          if holder \<notin> set (get_closest_k_value_local_peers s) \<or> holder = self_peer_id s then s
          else case add_keys (s_net P) now (sd_fetcher s) holder incoming_keys (record_addresses_ref (sd_store s)) of
                 (f, ks) \<Rightarrow>
                   let s1 = send_keys_to_fetch ks (s \<lparr> sd_fetcher := f \<rparr>);
                       close_group_peers = take CLOSE_GROUP_SIZE (routing_table s)
                   in if length incoming_keys > 1 \<and> check_sender rng
                      then let s2 = verify_peer_storage P (pick_for_sender rng) sender s1
                           in if check_other rng \<and> length close_group_peers = CLOSE_GROUP_SIZE
                              then (case find (\<lambda>i. sender \<noteq> from_peer (close_group_peers ! i)) (other_indexes rng) of
                                      Some i \<Rightarrow>
                                        verify_peer_storage P (pick_for_other rng) (from_peer (close_group_peers ! i)) s2
                                    | None \<Rightarrow> s2)
                              else s2
                      else s1)"

subsection \<open>Commands\<close>

datatype local_cmd =
    CmdTriggerIntervalReplication
  | CmdPaymentReceived
  | CmdPutVerifiedLocalRecord kad_record
  | CmdAddLocalRecordAsStored record_key record_type
  | CmdRemoveFailedLocalRecord record_key
  | CmdAddPeerToBlockList peer_id
  | CmdRecordNodeIssue peer_id node_issue
  | CmdQuoteVerification "(peer_id \<times> payment_quote) list"
  | CmdFetchCompleted record_key record_type
  | CmdTriggerUnrelevantRecordCleanup

fun handle_local_cmd ::
    "swarm_ops \<Rightarrow> system_time \<Rightarrow> local_cmd \<Rightarrow> swarm_driver \<Rightarrow> swarm_driver \<times> (network_error, unit) result" where
  "handle_local_cmd P now CmdTriggerIntervalReplication s = (try_interval_replication now s, Ok ())"
| "handle_local_cmd P now CmdPaymentReceived s =
     (s \<lparr> sd_store := unified_payment_received (sd_store s) \<rparr>, Ok ())"
| "handle_local_cmd P now (CmdPutVerifiedLocalRecord r) s = put_verified_local_record P now r s"
| "handle_local_cmd P now (CmdAddLocalRecordAsStored key ty) s = (add_local_record_as_stored P key ty s, Ok ())"
| "handle_local_cmd P now (CmdRemoveFailedLocalRecord key) s = (remove_failed_local_record P key s, Ok ())"
| "handle_local_cmd P now (CmdAddPeerToBlockList peer) s =
     (s \<lparr> sd_blocklist := List.insert peer (sd_blocklist s) \<rparr>, Ok ())"
| "handle_local_cmd P now (CmdRecordNodeIssue peer issue) s = (record_node_issue now peer issue s, Ok ())"
| "handle_local_cmd P now (CmdQuoteVerification quotes) s = (quote_verification now quotes s, Ok ())"
| "handle_local_cmd P now (CmdFetchCompleted key ty) s = (fetch_completed P now key ty s, Ok ())"
| "handle_local_cmd P now CmdTriggerUnrelevantRecordCleanup s =
     (s \<lparr> sd_store := unified_cleanup (s_net P) (s_store P) (sd_store s) \<rparr>, Ok ())"

text \<open>The commands that only answer their sender.\<close>

datatype local_query =
    GetLocalStoreCost record_key
  | GetLocalRecord record_key
  | RecordStoreHasKey record_key
  | GetAllLocalRecordAddresses
  | GetCloseGroupLocalPeers network_address
  | GetClosestKLocalPeers
  | IsPeerShunned network_address

datatype local_answer =
    StoreCostAnswer "nano_tokens \<times> quoting_metrics"
  | RecordAnswer "kad_record option"
  | BoolAnswer bool
  | AddressesAnswer "(network_address, record_type) hash_map"
  | PeersAnswer "peer_id list"

fun handle_local_query :: "swarm_ops \<Rightarrow> system_time \<Rightarrow> local_query \<Rightarrow> swarm_driver \<Rightarrow> local_answer" where
  "handle_local_query P now (GetLocalStoreCost key) s =
     StoreCostAnswer (unified_store_cost (s_net P) now (sd_store s) key)"
| "handle_local_query P now (GetLocalRecord key) s =
     RecordAnswer (unified_get (s_store P) (sd_store s) key)"
| "handle_local_query P now (RecordStoreHasKey key) s = BoolAnswer (unified_contains (sd_store s) key)"
| "handle_local_query P now GetAllLocalRecordAddresses s = AddressesAnswer (unified_record_addresses (sd_store s))"
| "handle_local_query P now (GetCloseGroupLocalPeers key) s =
     PeersAnswer (take CLOSE_GROUP_SIZE
       (sort_key (\<lambda>p. addr_distance (s_net P) key (from_peer p)) (routing_table s)))"
| "handle_local_query P now GetClosestKLocalPeers s = PeersAnswer (get_closest_k_value_local_peers s)"
| "handle_local_query P now (IsPeerShunned target) s = BoolAnswer (is_peer_shunned (s_net P) s target)"

text \<open>A run of the driver: local commands, replication lists of peers and changes of the routing
  table by the Kademlia library, each with its time. The disk tasks that the store spawned end
  one after the other, with success or not, and their commands arrive as local commands.\<close>

datatype swarm_event =
    LocalCmd local_cmd
  | ReplicationListReceived replicate_choices network_address "(network_address \<times> record_type) list"
  | RoutingTableChanged "peer_id list"
  | DiskTaskDone bool

fun sd_handle :: "swarm_ops \<Rightarrow> system_time \<Rightarrow> swarm_event \<Rightarrow> swarm_driver \<Rightarrow> swarm_driver" where
  "sd_handle P now (LocalCmd cmd) s = fst (handle_local_cmd P now cmd s)"
| "sd_handle P now (ReplicationListReceived rng sender ks) s = add_keys_to_replication_fetcher P now rng sender ks s"
| "sd_handle P now (RoutingTableChanged peers) s = s \<lparr> routing_table := peers \<rparr>"
| "sd_handle P now (DiskTaskDone ok) s =
     (case sd_store s of
        ClientStore \<Rightarrow> s
      | NodeStore st \<Rightarrow>
          (case spawned st of
             [] \<Rightarrow> s
           | t # ts \<Rightarrow> s \<lparr> sd_store := NodeStore (run_task (s_store P) ok t (st \<lparr> spawned := ts \<rparr>)) \<rparr>))"

definition sd_run :: "swarm_ops \<Rightarrow> swarm_driver \<Rightarrow> (system_time \<times> swarm_event) list \<Rightarrow> swarm_driver" where
  "sd_run P s evs = fold (\<lambda>(now, e) s. sd_handle P now e s) evs s"

lemma sd_run_snoc: "sd_run P s (evs @ [(now, e)]) = sd_handle P now e (sd_run P s evs)"
  by (simp add: sd_run_def)

text \<open>The cheapest quote is paid.\<close>

lemma min_by_cost_min:
  "min_by_cost best xs coins \<in> insert best (set xs)
   \<and> (\<forall>x \<in> insert best (set xs). as_nano (q_cost (snd (snd (min_by_cost best xs coins)))) \<le> as_nano (q_cost (snd (snd x))))"
proof (induction xs arbitrary: best coins)
  case (Cons x xs)
  define y where "y = min_by_cost best (x # xs) coins"
  define c where "c = (\<lambda>e::network_address \<times> main_pubkey \<times> payment_quote. as_nano (q_cost (snd (snd e))))"
  have y_eq: "y = (if c best < c x then min_by_cost best xs coins
      else if c x < c best then min_by_cost x xs coins
      else case coins of [] \<Rightarrow> min_by_cost best xs []
        | heads # coins' \<Rightarrow> min_by_cost (if heads then best else x) xs coins')"
    unfolding y_def c_def by (simp only: min_by_cost.simps Let_def)
  obtain best' coins' where y: "y = min_by_cost best' xs coins'" "best' \<in> {best, x}"
    and le: "c best' \<le> c best" "c best' \<le> c x"
  proof (cases "c best = c x")
    case True
    then show ?thesis using y_eq that [of best] that [of x] by (cases coins) (auto split: if_splits)
  next
    case False
    then show ?thesis using y_eq that [of best coins] that [of x coins] by (auto split: if_splits)
  qed
  have "as_nano (q_cost (snd (snd y))) \<le> as_nano (q_cost (snd (snd e)))" if "e \<in> insert best (set (x # xs))" for e
    using Cons.IH [of best' coins', THEN conjunct2] that le unfolding y(1) c_def by (auto intro: order.trans)
  moreover have "y \<in> insert best (set (x # xs))"
    using Cons.IH [of best' coins', THEN conjunct1] y(2) unfolding y(1) by auto
  ultimately show ?case unfolding y_def by blast
qed simp

subsection \<open>Issues are tracked with their reports\<close>

definition spaced :: "(node_issue \<times> system_time) list \<Rightarrow> bool" where
  "spaced v \<longleftrightarrow> sorted_wrt (\<lambda>e e'. as_secs (snd e' - snd e) > 10 \<and> as_secs (snd e' - snd e) < 300) v"

lemma spaced_sub: "spaced v \<Longrightarrow> spaced (filter Q v)" "spaced v \<Longrightarrow> spaced (tl v)"
  by (auto simp: spaced_def sorted_wrt_filter) (cases v; simp)

lemma spaced_snoc:
  assumes "spaced v" and "\<forall>e \<in> set v. as_secs (now - snd e) < 300"
    and "v \<noteq> [] \<Longrightarrow> as_secs (now - snd (last v)) > 10"
  shows "spaced (v @ [(issue, now)])"
proof (cases v rule: rev_cases)
  case (snoc u e)
  have "as_secs (now - snd e') > 10" if "e' \<in> set v" for e'
  proof (cases "e' = e")
    case False
    then have "as_secs (snd e - snd e') > 10" using assms(1) that snoc by (auto simp: spaced_def sorted_wrt_append)
    then have "snd e' \<le> snd e" by (cases "snd e' \<le> snd e") simp_all
    then have "as_secs (now - snd e) \<le> as_secs (now - snd e')" by (intro div_le_mono diff_le_mono2)
    then show ?thesis using assms(3) snoc by simp
  qed (use assms(3) snoc in simp)
  then show ?thesis using assms(1,2) by (simp add: spaced_def sorted_wrt_append)
qed (simp add: spaced_def)

lemma track_issue_spaced:
  assumes "spaced v"
  shows "spaced (track_issue now issue v)" and "set (track_issue now issue v) \<subseteq> insert (issue, now) (set v)"
proof -
  define recent where "recent = filter (\<lambda>(_, timestamp). as_secs (now - timestamp) < 300) v"
  define kept where "kept = (if length recent = 10 then tl recent else recent)"
  have kept: "spaced kept" "set kept \<subseteq> set recent"
    using assms spaced_sub unfolding kept_def recent_def by (auto dest: list.set_sel(2) [rotated])
  have track: "track_issue now issue v
      = (if kept = [] \<or> as_secs (now - snd (last kept)) > 10 then kept @ [(issue, now)] else kept)"
    by (simp add: track_issue_def Let_def kept_def recent_def)
  have "\<forall>e \<in> set kept. as_secs (now - snd e) < 300" using kept(2) by (auto simp: recent_def)
  then show "spaced (track_issue now issue v)"
    using kept(1) spaced_snoc [of kept now issue] by (auto simp: track)
  show "set (track_issue now issue v) \<subseteq> insert (issue, now) (set v)"
    using kept(2) by (auto simp: track recent_def)
qed

text \<open>Three entries of the same kind.\<close>

lemma frequent_issue_three:
  assumes "frequent_issue v = Some issue" and "spaced v"
  obtains t1 t2 t3 where "{(issue, t1), (issue, t2), (issue, t3)} \<subseteq> set v"
    and "as_secs (t2 - t1) > 10" and "as_secs (t3 - t2) > 10" and "as_secs (t3 - t1) < 300"
proof -
  define u where "u = filter (\<lambda>(i, _). issue = i) v"
  have "3 \<le> length u"
    using assms(1) by (auto simp: frequent_issue_def u_def find_Some_iff)
  then obtain a b c w where u: "u = a # b # c # w"
    by (auto simp: numeral_3_eq_3 Suc_le_length_iff)
  have "spaced u" using assms(2) spaced_sub unfolding u_def by blast
  then have gaps: "as_secs (snd b - snd a) > 10" "as_secs (snd c - snd b) > 10" "as_secs (snd c - snd a) < 300"
    unfolding u spaced_def by simp_all
  have "e \<in> set v \<and> e = (issue, snd e)" if "e \<in> {a, b, c}" for e
  proof -
    have "e \<in> set u" using that u by auto
    then show ?thesis by (auto simp: u_def)
  qed
  then have "{(issue, snd a), (issue, snd b), (issue, snd c)} \<subseteq> set v"
    by (metis (no_types, lifting) bot.extremum insertCI insert_subset)
  then show thesis using gaps that by blast
qed

subsection \<open>What the handlers keep\<close>

lemma send_event_frame [simp]:
  "bad_nodes (send_event e s) = bad_nodes s" "sd_requests (send_event e s) = sd_requests s"
  "replication_targets (send_event e s) = replication_targets s" "sd_store (send_event e s) = sd_store s"
  "sd_fetcher (send_event e s) = sd_fetcher s" "quotes_history (send_event e s) = quotes_history s"
  "sd_blocklist (send_event e s) = sd_blocklist s" "routing_table (send_event e s) = routing_table s"
  "self_peer_id (send_event e s) = self_peer_id s"
  by (simp_all add: send_event_def)

lemma send_keys_frame [simp]:
  "bad_nodes (send_keys_to_fetch ks s) = bad_nodes s" "sd_requests (send_keys_to_fetch ks s) = sd_requests s"
  "replication_targets (send_keys_to_fetch ks s) = replication_targets s"
  "sd_store (send_keys_to_fetch ks s) = sd_store s" "sd_fetcher (send_keys_to_fetch ks s) = sd_fetcher s"
  "quotes_history (send_keys_to_fetch ks s) = quotes_history s"
  "sd_blocklist (send_keys_to_fetch ks s) = sd_blocklist s" "routing_table (send_keys_to_fetch ks s) = routing_table s"
  by (simp_all add: send_keys_to_fetch_def)

lemma remove_peer_frame [simp]:
  "bad_nodes (remove_peer p s) = bad_nodes s" "sd_requests (remove_peer p s) = sd_requests s"
  "replication_targets (remove_peer p s) = replication_targets s" "sd_store (remove_peer p s) = sd_store s"
  "sd_fetcher (remove_peer p s) = sd_fetcher s" "quotes_history (remove_peer p s) = quotes_history s"
  "sd_blocklist (remove_peer p s) = sd_blocklist s"
  "routing_table (remove_peer p s) = filter (\<lambda>q. q \<noteq> p) (routing_table s)"
  by (auto simp: remove_peer_def update_on_peer_removal_def Let_def intro: filter_True [symmetric])

lemma send_request_frame [simp]:
  "bad_nodes (send_request_to t p r s) = bad_nodes s"
  "sd_requests (send_request_to t p r s) = sd_requests s @ [(t, p, r)]"
  "replication_targets (send_request_to t p r s) = replication_targets s"
  "sd_store (send_request_to t p r s) = sd_store s" "sd_fetcher (send_request_to t p r s) = sd_fetcher s"
  "quotes_history (send_request_to t p r s) = quotes_history s"
  "sd_blocklist (send_request_to t p r s) = sd_blocklist s" "routing_table (send_request_to t p r s) = routing_table s"
  by (simp_all add: send_request_to_def)

lemma verify_storage_frame [simp]:
  "bad_nodes (verify_peer_storage P rnd a s) = bad_nodes s" "sd_requests (verify_peer_storage P rnd a s) = sd_requests s"
  "replication_targets (verify_peer_storage P rnd a s) = replication_targets s"
  "sd_store (verify_peer_storage P rnd a s) = sd_store s" "sd_fetcher (verify_peer_storage P rnd a s) = sd_fetcher s"
  "quotes_history (verify_peer_storage P rnd a s) = quotes_history s"
  "sd_blocklist (verify_peer_storage P rnd a s) = sd_blocklist s"
  "routing_table (verify_peer_storage P rnd a s) = routing_table s"
  by (simp_all add: verify_peer_storage_def Let_def split: option.split)

text \<open>A replication list changes the fetcher at most; the events of the other handlers on the
  store and the fetcher leave the peers alone.\<close>

lemma add_keys_driver:
  obtains "add_keys_to_replication_fetcher P now rng sender ks s = s"
  | holder s' where "add_keys_to_replication_fetcher P now rng sender ks s = s'"
    and "sd_fetcher s' = fst (add_keys (s_net P) now (sd_fetcher s) holder ks (record_addresses_ref (sd_store s)))"
    and "bad_nodes s' = bad_nodes s" and "sd_requests s' = sd_requests s"
    and "replication_targets s' = replication_targets s" and "sd_store s' = sd_store s"
    and "quotes_history s' = quotes_history s" and "sd_blocklist s' = sd_blocklist s"
    and "routing_table s' = routing_table s"
proof (cases "as_peer_id (s_net P) sender")
  case None
  then show ?thesis using that(1) by (simp add: add_keys_to_replication_fetcher_def)
next
  case (Some holder)
  show ?thesis
  proof (cases "holder \<notin> set (get_closest_k_value_local_peers s) \<or> holder = self_peer_id s")
    case True
    then show ?thesis using that(1) Some by (simp add: add_keys_to_replication_fetcher_def)
  next
    case False
    obtain f ks' where a: "add_keys (s_net P) now (sd_fetcher s) holder ks (record_addresses_ref (sd_store s)) = (f, ks')"
      by fastforce
    show ?thesis
      by (rule that(2) [OF refl, of holder])
        (use Some False a in \<open>simp_all add: add_keys_to_replication_fetcher_def Let_def split: option.split\<close>)
  qed
qed

text \<open>An update of the bad nodes by one report.\<close>

definition issue_entry ::
    "system_time \<Rightarrow> node_issue \<Rightarrow> (node_issue \<times> system_time) list \<times> bool \<Rightarrow> (node_issue \<times> system_time) list \<times> bool" where
  "issue_entry now issue e =
     (if snd e then e
      else (track_issue now issue (fst e), frequent_issue (track_issue now issue (fst e)) \<noteq> None))"

definition issues_of :: "swarm_driver \<Rightarrow> peer_id \<Rightarrow> (node_issue \<times> system_time) list \<times> bool" where
  "issues_of s peer = (case map_of (bad_nodes s) peer of Some e \<Rightarrow> e | None \<Rightarrow> ([], False))"

lemma record_node_issue_cases:
  fixes s :: swarm_driver and peer :: peer_id
  defines "e \<equiv> issues_of s peer"
  obtains reqs where "bad_nodes (record_node_issue now peer issue s) = bmap_insert peer (issue_entry now issue e) (bad_nodes s)"
    and "sd_requests (record_node_issue now peer issue s) = sd_requests s @ reqs"
    and "if snd (issue_entry now issue e) \<and> \<not> snd e
         then \<exists>b. reqs = [(now, peer, CmdPeerConsideredAsBad (from_peer (self_peer_id s)) (from_peer peer) b)]
         else reqs = []"
proof -
  define v where "v = fst e"
  define b where "b = snd e"
  have e: "(case map_of (bad_nodes s) peer of Some e \<Rightarrow> e | None \<Rightarrow> ([], False)) = (v, b)"
    by (simp add: v_def b_def e_def issues_of_def)
  show thesis
  proof (cases b)
    case True
    then have "e = (v, True)" by (simp add: v_def b_def prod_eq_iff)
    then show ?thesis
      using e that [of "[]"] True by (simp add: record_node_issue_def issue_entry_def Let_def)
  next
    case False
    show ?thesis
    proof (cases "frequent_issue (track_issue now issue v)")
      case None
      then show ?thesis
        using e False that [of "[]"]
        by (simp add: record_node_issue_def issue_entry_def Let_def flip: v_def b_def)
    next
      case (Some i)
      then show ?thesis
        using e False that
          [of "[(now, peer, CmdPeerConsideredAsBad (from_peer (self_peer_id s)) (from_peer peer) i)]"]
        by (simp add: record_node_issue_def issue_entry_def Let_def flip: v_def b_def)
    qed
  qed
qed

lemma record_node_issue_frame [simp]:
  "replication_targets (record_node_issue now p i s) = replication_targets s"
  "sd_store (record_node_issue now p i s) = sd_store s" "sd_fetcher (record_node_issue now p i s) = sd_fetcher s"
  "quotes_history (record_node_issue now p i s) = quotes_history s"
  "sd_blocklist (record_node_issue now p i s) = sd_blocklist s"
  by (auto simp: record_node_issue_def Let_def split: prod.split option.split)

lemma try_interval_cases:
  fixes s :: swarm_driver and now :: system_time
  defines "kept \<equiv> hmap_retain (\<lambda>_ timestamp. timestamp > now) (replication_targets s)"
  defines "due \<equiv> filter (\<lambda>p. map_of kept p = None) (take REPLICATION_PEERS_COUNT (routing_table s))"
  obtains peers ks where "peers = [] \<or> peers = due"
    and "sd_requests (try_interval_replication now s)
          = sd_requests s @ map (\<lambda>p. (now, p, CmdReplicate (from_peer (self_peer_id s)) ks)) peers"
    and "replication_targets (try_interval_replication now s)
          = fold (\<lambda>p. bmap_insert p (now + REPLICATION_TIMEOUT)) peers kept"
proof -
  define ks where "ks = map snd (record_addresses_ref (sd_store s))"
  let ?g = "\<lambda>peer s. (send_request_to now peer (CmdReplicate (from_peer (self_peer_id s)) ks) s)
      \<lparr> replication_targets := bmap_insert peer (now + REPLICATION_TIMEOUT) (replication_targets s) \<rparr>"
  have fold: "self_peer_id (fold ?g ps u) = self_peer_id u
      \<and> sd_requests (fold ?g ps u) = sd_requests u @ map (\<lambda>p. (now, p, CmdReplicate (from_peer (self_peer_id u)) ks)) ps
      \<and> replication_targets (fold ?g ps u)
          = fold (\<lambda>p. bmap_insert p (now + REPLICATION_TIMEOUT)) ps (replication_targets u)" for ps u
    by (induction ps arbitrary: u) (simp_all add: send_request_to_def)
  have eq: "try_interval_replication now s
      = (if due = [] \<or> ks = [] then s \<lparr> replication_targets := kept \<rparr>
         else fold ?g due (s \<lparr> replication_targets := kept \<rparr>))"
    by (simp add: try_interval_replication_def Let_def kept_def due_def ks_def)
  show thesis
  proof (cases "due = [] \<or> ks = []")
    case True
    then show ?thesis using that [of "[]"] eq by simp
  next
    case False
    then show ?thesis using that [of due ks] eq fold [of due "s \<lparr> replication_targets := kept \<rparr>"] by simp
  qed
qed

lemma try_interval_frame [simp]:
  "bad_nodes (try_interval_replication now s) = bad_nodes s" "sd_store (try_interval_replication now s) = sd_store s"
  "sd_fetcher (try_interval_replication now s) = sd_fetcher s"
  "quotes_history (try_interval_replication now s) = quotes_history s"
  "sd_blocklist (try_interval_replication now s) = sd_blocklist s"
  "routing_table (try_interval_replication now s) = routing_table s"
proof -
  let ?g = "\<lambda>ks peer s. (send_request_to now peer (CmdReplicate (from_peer (self_peer_id s)) ks) s)
      \<lparr> replication_targets := bmap_insert peer (now + REPLICATION_TIMEOUT) (replication_targets s) \<rparr>"
  have "bad_nodes (fold (?g ks) ps u) = bad_nodes u \<and> sd_store (fold (?g ks) ps u) = sd_store u
      \<and> sd_fetcher (fold (?g ks) ps u) = sd_fetcher u \<and> quotes_history (fold (?g ks) ps u) = quotes_history u
      \<and> sd_blocklist (fold (?g ks) ps u) = sd_blocklist u \<and> routing_table (fold (?g ks) ps u) = routing_table u" for ks ps u
    by (induction ps arbitrary: u) (simp_all add: send_request_to_def)
  then show "bad_nodes (try_interval_replication now s) = bad_nodes s" "sd_store (try_interval_replication now s) = sd_store s"
    "sd_fetcher (try_interval_replication now s) = sd_fetcher s"
    "quotes_history (try_interval_replication now s) = quotes_history s"
    "sd_blocklist (try_interval_replication now s) = sd_blocklist s"
    "routing_table (try_interval_replication now s) = routing_table s"
    by (simp_all add: try_interval_replication_def Let_def)
qed

lemma store_handlers_frame [simp]:
  "bad_nodes (fst (put_verified_local_record P now r s)) = bad_nodes s"
  "sd_requests (fst (put_verified_local_record P now r s)) = sd_requests s"
  "replication_targets (fst (put_verified_local_record P now r s)) = replication_targets s"
  "quotes_history (fst (put_verified_local_record P now r s)) = quotes_history s"
  "sd_blocklist (fst (put_verified_local_record P now r s)) = sd_blocklist s"
  "routing_table (fst (put_verified_local_record P now r s)) = routing_table s"
  "bad_nodes (remove_failed_local_record P key s) = bad_nodes s"
  "sd_requests (remove_failed_local_record P key s) = sd_requests s"
  "replication_targets (remove_failed_local_record P key s) = replication_targets s"
  "quotes_history (remove_failed_local_record P key s) = quotes_history s"
  "sd_blocklist (remove_failed_local_record P key s) = sd_blocklist s"
  "routing_table (remove_failed_local_record P key s) = routing_table s"
  "sd_fetcher (remove_failed_local_record P key s) = sd_fetcher s"
  "bad_nodes (fetch_completed P now key ty s) = bad_nodes s"
  "sd_requests (fetch_completed P now key ty s) = sd_requests s"
  "replication_targets (fetch_completed P now key ty s) = replication_targets s"
  "quotes_history (fetch_completed P now key ty s) = quotes_history s"
  "sd_blocklist (fetch_completed P now key ty s) = sd_blocklist s"
  "routing_table (fetch_completed P now key ty s) = routing_table s"
  "sd_store (fetch_completed P now key ty s) = sd_store s"
  by (simp_all add: put_verified_local_record_def remove_failed_local_record_def fetch_completed_def Let_def
      split: sum.split prod.split)

lemma quote_verification_Cons:
  "quote_verification now ((p, q) # quotes) s
     = quote_verification now quotes
         (case map_of (bad_nodes s) p of Some (_, True) \<Rightarrow> s | _ \<Rightarrow> verify_peer_quote now (p, q) s)"
  by (simp add: quote_verification_def)

text \<open>A quote changes the history or reports its peer.\<close>

lemma verify_quote_cases:
  obtains "verify_peer_quote now (p, q) s = s"
  | "verify_peer_quote now (p, q) s = record_node_issue now p BadQuoting s"
  | "verify_peer_quote now (p, q) s = s \<lparr> quotes_history := bmap_insert p q (quotes_history s) \<rparr>"
proof (cases "map_of (quotes_history s) p")
  case None
  then show ?thesis by (intro that(3)) (simp add: verify_peer_quote_def)
next
  case (Some h)
  consider "\<not> historical_verify now h q" | "historical_verify now h q" "is_newer_than h q"
    | "historical_verify now h q" "\<not> is_newer_than h q" by blast
  then show ?thesis
  proof cases
    case 1
    then show ?thesis using Some by (intro that(2)) (simp add: verify_peer_quote_def)
  next
    case 2
    then show ?thesis using Some by (intro that(1)) (simp add: verify_peer_quote_def)
  next
    case 3
    then show ?thesis using Some by (intro that(3)) (simp add: verify_peer_quote_def)
  qed
qed

lemma quote_verification_induct:
  assumes "Q s" and "\<And>s p. p \<in> fst ` set quotes \<Longrightarrow> Q s \<Longrightarrow> Q (record_node_issue now p BadQuoting s)"
    and "\<And>s p q. Q s \<Longrightarrow> Q (s \<lparr> quotes_history := bmap_insert p q (quotes_history s) \<rparr>)"
  shows "Q (quote_verification now quotes s)"
  using assms(1,2)
proof (induction quotes arbitrary: s)
  case Nil
  then show ?case by (simp add: quote_verification_def)
next
  case (Cons pq quotes)
  obtain p q where pq: "pq = (p, q)" by (cases pq)
  have "Q (verify_peer_quote now (p, q) s)"
    by (cases rule: verify_quote_cases [of now p q s]) (use Cons.prems assms(3) pq in auto)
  then have "Q (case map_of (bad_nodes s) p of Some (_, True) \<Rightarrow> s | _ \<Rightarrow> verify_peer_quote now (p, q) s)"
    using Cons.prems(1) by (auto split: option.split bool.split)
  then show ?case using Cons.IH Cons.prems(2) pq by (simp add: quote_verification_Cons)
qed

subsection \<open>Bad peers\<close>

text \<open>A report of an issue: by another part of the node, or by a quote that contradicts the
  history of its peer.\<close>

definition reported :: "(system_time \<times> swarm_event) list \<Rightarrow> peer_id \<Rightarrow> node_issue \<Rightarrow> system_time \<Rightarrow> bool" where
  "reported evs peer issue t \<longleftrightarrow>
     (t, LocalCmd (CmdRecordNodeIssue peer issue)) \<in> set evs
     \<or> issue = BadQuoting
       \<and> (\<exists>quotes. (t, LocalCmd (CmdQuoteVerification quotes)) \<in> set evs \<and> peer \<in> fst ` set quotes)"

definition is_notice :: "peer_request \<Rightarrow> bool" where
  "is_notice r = (case r of CmdPeerConsideredAsBad _ _ _ \<Rightarrow> True | CmdReplicate _ _ \<Rightarrow> False)"

definition notices :: "peer_id \<Rightarrow> swarm_driver \<Rightarrow> nat" where
  "notices peer s = length (filter (\<lambda>(_, p, r). p = peer \<and> is_notice r) (sd_requests s))"

definition issues_inv :: "(system_time \<times> swarm_event) list \<Rightarrow> swarm_driver \<Rightarrow> bool" where
  "issues_inv evs s \<longleftrightarrow>
     (\<forall>peer. spaced (fst (issues_of s peer)) \<and> (\<forall>(i, t) \<in> set (fst (issues_of s peer)). reported evs peer i t)
        \<and> (snd (issues_of s peer) \<longrightarrow> frequent_issue (fst (issues_of s peer)) \<noteq> None)
        \<and> notices peer s = (if snd (issues_of s peer) then 1 else 0))"

lemma issues_inv_frame:
  assumes "issues_inv evs s" and "set evs \<subseteq> set evs'" and "bad_nodes s' = bad_nodes s"
    and "filter (\<lambda>(_, _, r). is_notice r) (sd_requests s') = filter (\<lambda>(_, _, r). is_notice r) (sd_requests s)"
  shows "issues_inv evs' s'"
proof -
  have n: "notices peer u = length (filter (\<lambda>(_, p, _). p = peer) (filter (\<lambda>(_, _, r). is_notice r) (sd_requests u)))" for peer u
    unfolding notices_def filter_filter by (rule arg_cong [of _ _ length], rule filter_cong) auto
  have "notices peer s' = notices peer s" for peer using assms(4) by (simp add: n)
  moreover have "issues_of s' = issues_of s" using assms(3) by (simp add: issues_of_def fun_eq_iff)
  moreover have "case it of (i, t) \<Rightarrow> reported evs' peer i t" if "it \<in> set (fst (issues_of s peer))" for it peer
  proof -
    have "case it of (i, t) \<Rightarrow> reported evs peer i t" using assms(1) that unfolding issues_inv_def by blast
    then show ?thesis using assms(2) by (cases it) (auto simp: reported_def)
  qed
  ultimately show ?thesis using assms(1) unfolding issues_inv_def by simp
qed

lemma issues_inv_report:
  assumes "issues_inv evs s" and "reported evs peer issue now"
  shows "issues_inv evs (record_node_issue now peer issue s)"
proof -
  let ?e = "issues_of s peer" and ?s' = "record_node_issue now peer issue s"
  obtain reqs where upd: "bad_nodes ?s' = bmap_insert peer (issue_entry now issue ?e) (bad_nodes s)"
    and sent: "sd_requests ?s' = sd_requests s @ reqs"
    and reqs: "if snd (issue_entry now issue ?e) \<and> \<not> snd ?e
         then \<exists>b. reqs = [(now, peer, CmdPeerConsideredAsBad (from_peer (self_peer_id s)) (from_peer peer) b)]
         else reqs = []"
    by (rule record_node_issue_cases [of now peer issue s])
  have old: "spaced (fst ?e)" "\<forall>(i, t) \<in> set (fst ?e). reported evs peer i t"
    "snd ?e \<longrightarrow> frequent_issue (fst ?e) \<noteq> None" "notices peer s = (if snd ?e then 1 else 0)"
    using assms(1) unfolding issues_inv_def by blast+
  have entry: "issues_of ?s' q = (if q = peer then issue_entry now issue ?e else issues_of s q)" for q
    using upd by (simp add: issues_of_def)
  have count: "notices q ?s' = notices q s
      + (if q = peer \<and> snd (issue_entry now issue ?e) \<and> \<not> snd ?e then 1 else 0)" for q
    using sent reqs by (auto simp: notices_def is_notice_def split: if_splits)
  have "spaced (fst (issue_entry now issue ?e))"
    using track_issue_spaced(1) [OF old(1)] old(1) by (simp add: issue_entry_def)
  moreover have "\<forall>(i, t) \<in> set (fst (issue_entry now issue ?e)). reported evs peer i t"
  proof clarify
    fix i t
    assume it: "(i, t) \<in> set (fst (issue_entry now issue ?e))"
    then have "(i, t) \<in> insert (issue, now) (set (fst ?e))"
      using track_issue_spaced(2) [OF old(1), of now issue] by (cases "snd ?e") (auto simp: issue_entry_def)
    then show "reported evs peer i t" using old(2) assms(2) by auto
  qed
  moreover have "snd (issue_entry now issue ?e) \<longrightarrow> frequent_issue (fst (issue_entry now issue ?e)) \<noteq> None"
    using old(3) by (simp add: issue_entry_def)
  moreover have "notices peer ?s' = (if snd (issue_entry now issue ?e) then 1 else 0)"
    using old(4) count [of peer] by (auto simp: issue_entry_def)
  ultimately show ?thesis
    using assms(1) entry count unfolding issues_inv_def by auto
qed

lemma issues_inv_step:
  assumes "issues_inv evs s"
  shows "issues_inv (evs @ [(now, e)]) (sd_handle P now e s)"
proof -
  define evs' where "evs' = evs @ [(now, e)]"
  have more_evs: "issues_inv evs' s" using assms by (rule issues_inv_frame) (auto simp: evs'_def)
  have new: "(now, e) \<in> set evs'" by (simp add: evs'_def)
  have "issues_inv evs' (sd_handle P now e s)"
  proof (cases e)
    case (LocalCmd cmd)
    show ?thesis
    proof (cases cmd)
      case CmdTriggerIntervalReplication
      obtain peers ks where "sd_requests (try_interval_replication now s)
          = sd_requests s @ map (\<lambda>p. (now, p, CmdReplicate (from_peer (self_peer_id s)) ks)) peers"
        by (rule try_interval_cases)
      then have "filter (\<lambda>(_, _, r). is_notice r) (sd_requests (try_interval_replication now s))
          = filter (\<lambda>(_, _, r). is_notice r) (sd_requests s)"
        by (simp add: is_notice_def filter_empty_conv)
      then show ?thesis
        using LocalCmd CmdTriggerIntervalReplication issues_inv_frame [OF more_evs subset_refl] by simp
    next
      case (CmdRecordNodeIssue p i)
      then show ?thesis
        using LocalCmd new issues_inv_report [OF more_evs] by (simp add: reported_def)
    next
      case (CmdQuoteVerification quotes)
      have "issues_inv evs' (quote_verification now quotes s)"
      proof (rule quote_verification_induct [where Q = "issues_inv evs'"])
        show "issues_inv evs' s" by (rule more_evs)
        show "issues_inv evs' (record_node_issue now p BadQuoting s)"
          if "p \<in> fst ` set quotes" "issues_inv evs' s" for s p
          using that LocalCmd new CmdQuoteVerification by (intro issues_inv_report) (auto simp: reported_def)
      qed (erule issues_inv_frame, simp_all)
      then show ?thesis using LocalCmd CmdQuoteVerification by simp
    qed (use LocalCmd in \<open>simp_all add: issues_inv_frame [OF more_evs subset_refl] add_local_record_as_stored_def\<close>)
  next
    case (ReplicationListReceived rng sender ks)
    then show ?thesis
      by (cases rule: add_keys_driver [of P now rng sender ks s])
        (simp_all add: more_evs issues_inv_frame [OF more_evs subset_refl])
  next
    case (RoutingTableChanged peers)
    then show ?thesis by (simp add: issues_inv_frame [OF more_evs subset_refl])
  next
    case (DiskTaskDone ok)
    then show ?thesis
      by (simp add: more_evs issues_inv_frame [OF more_evs subset_refl] split: unified_record_store.split list.split)
  qed
  then show ?thesis by (simp add: evs'_def)
qed

lemma issues_inv_run:
  assumes "bad_nodes s = []" and "sd_requests s = []"
  shows "issues_inv evs (sd_run P s evs)"
proof (induction evs rule: rev_induct)
  case Nil
  then show ?case using assms by (simp add: sd_run_def issues_inv_def issues_of_def notices_def spaced_def)
next
  case (snoc e evs)
  then show ?case by (cases e) (simp add: sd_run_snoc issues_inv_step)
qed

text \<open>C23: a peer is shunned only after three reports of the same issue, each more than ten seconds
  after the one before and all within five minutes; it is told so exactly once, and a peer that
  is not shunned is never told.\<close>

theorem shunned_only_after_reports:
  assumes "bad_nodes s = []" and "sd_requests s = []" and "as_peer_id N a = Some peer"
    and "s' = sd_run P s evs"
  shows "if is_peer_shunned N s' a
    then notices peer s' = 1
      \<and> (\<exists>issue t1 t2 t3. reported evs peer issue t1 \<and> reported evs peer issue t2 \<and> reported evs peer issue t3
            \<and> as_secs (t2 - t1) > 10 \<and> as_secs (t3 - t2) > 10 \<and> as_secs (t3 - t1) < 300)
    else notices peer s' = 0"
proof -
  have inv: "spaced (fst (issues_of s' peer))" "\<forall>(i, t) \<in> set (fst (issues_of s' peer)). reported evs peer i t"
    "snd (issues_of s' peer) \<longrightarrow> frequent_issue (fst (issues_of s' peer)) \<noteq> None"
    "notices peer s' = (if snd (issues_of s' peer) then 1 else 0)"
    using issues_inv_run [OF assms(1,2), of evs P] assms(4) unfolding issues_inv_def by blast+
  have shunned: "is_peer_shunned N s' a = snd (issues_of s' peer)"
    using assms(3) by (simp add: is_peer_shunned_def issues_of_def split: option.split prod.split)
  show ?thesis
  proof (cases "snd (issues_of s' peer)")
    case True
    then obtain issue where "frequent_issue (fst (issues_of s' peer)) = Some issue" using inv(3) by blast
    then obtain t1 t2 t3 where "{(issue, t1), (issue, t2), (issue, t3)} \<subseteq> set (fst (issues_of s' peer))"
      and gaps: "as_secs (t2 - t1) > 10" "as_secs (t3 - t2) > 10" "as_secs (t3 - t1) < 300"
      by (rule frequent_issue_three [OF _ inv(1)])
    then have "reported evs peer issue t1 \<and> reported evs peer issue t2 \<and> reported evs peer issue t3"
      using inv(2) by blast
    then show ?thesis using True shunned inv(4) gaps by auto
  qed (use shunned inv(4) in simp)
qed

definition example_swarm_ops :: swarm_ops where
  "example_swarm_ops = \<lparr> s_net = example_net, s_store = example_store_ops, s_codec = null_codec \<rparr>"

definition example_driver :: swarm_driver where
  "example_driver = \<lparr> self_peer_id = [0], sd_store = NodeStore (example_store 2 2), sd_fetcher = fetcher_new [0],
     routing_table = [[1], [2]], peers_in_rt = 2, bad_nodes = [], quotes_history = [], replication_targets = [],
     sd_blocklist = [], hard_disk_write_error = 0, sd_events = [], sd_requests = [] \<rparr>"

theorem shunned_only_after_reports_witness:
  "notices [1] (sd_run example_swarm_ops example_driver
     [(from_secs 0, LocalCmd (CmdRecordNodeIssue [1] ReplicationFailure)),
      (from_secs 20, LocalCmd (CmdRecordNodeIssue [1] ReplicationFailure)),
      (from_secs 40, LocalCmd (CmdRecordNodeIssue [1] ReplicationFailure))]) = 1"
proof -
  let ?evs = "[(from_secs 0, LocalCmd (CmdRecordNodeIssue [1] ReplicationFailure)),
      (from_secs 20, LocalCmd (CmdRecordNodeIssue [1] ReplicationFailure)),
      (from_secs 40, LocalCmd (CmdRecordNodeIssue [1] ReplicationFailure))]"
  let ?s = "sd_run example_swarm_ops example_driver ?evs"
  have a: "as_peer_id example_net (from_peer [1]) = Some [1]"
    by (simp add: from_peer_def example_net_def)
  have "is_peer_shunned example_net ?s (from_peer [1])"
    using a by (simp add: is_peer_shunned_def sd_run_def example_driver_def record_node_issue_def Let_def
        track_issue_def frequent_issue_def remove_peer_def update_on_peer_removal_def send_event_def send_request_to_def)
  then show ?thesis
    using shunned_only_after_reports [OF _ _ a refl, of example_driver example_swarm_ops ?evs]
    by (simp add: example_driver_def)
qed

end
