(* ===== verification/Swarm_Runs.thy ===== *)
theory Swarm_Runs
  imports Swarm_Driver
begin

text \<open>
  Runs of the swarm driver: what every event keeps of the store, the fetcher and the tables of
  peers, how the driver uses the replication fetcher, how often it sends its own replication
  lists, and when it asks for the end of the node.
\<close>

section \<open>Well-formed drivers\<close>

definition store_wf :: "net_ops \<Rightarrow> unified_record_store \<Rightarrow> bool" where
  "store_wf N u = (case u of ClientStore \<Rightarrow> True | NodeStore st \<Rightarrow> store_inv N st)"

definition driver_wf :: "net_ops \<Rightarrow> swarm_driver \<Rightarrow> bool" where
  "driver_wf N s \<longleftrightarrow> store_wf N (sd_store s) \<and> fetcher_inv N (sd_fetcher s)
     \<and> bmap_inv (bad_nodes s) \<and> bmap_inv (quotes_history s) \<and> bmap_inv (replication_targets s)
     \<and> distinct (sd_blocklist s) \<and> list_all (\<lambda>(_, v, _). length v \<le> 10) (bad_nodes s)"

lemma bmap_inv_retain [simp]: "bmap_inv m \<Longrightarrow> bmap_inv (hmap_retain p m)"
  by (induction m) (auto simp: bmap_inv_def hmap_retain_def)

lemma bmap_inv_fold_insert: "bmap_inv m \<Longrightarrow> bmap_inv (fold (\<lambda>k. bmap_insert k v) ks m)"
  by (induction ks arbitrary: m) (simp_all add: bmap_insert_inv)

lemma bmap_insert_set: "set (bmap_insert k v m) \<subseteq> insert (k, v) (set m)"
  by (induction k v m rule: bmap_insert.induct) auto

lemma store_wf_operations:
  assumes "store_wf N u"
  shows "store_wf N (fst (unified_put_verified N Op u r ty))" and "store_wf N (unified_mark_as_stored N u key ty)"
    and "store_wf N (unified_remove N Op u key)" and "store_wf N (unified_cleanup N Op u)"
    and "store_wf N (unified_payment_received u)"
  using assms
  by (cases u; simp add: store_wf_def store_inv_put_verified store_inv_mark_as_stored store_inv_remove
      store_inv_cleanup payment_received_def; simp add: store_inv_def)+

subsection \<open>The driver uses the fetcher by its operations\<close>

text \<open>The operations of the replication fetcher that one event of the driver performs.\<close>

fun fetcher_events :: "swarm_ops \<Rightarrow> system_time \<Rightarrow> swarm_event \<Rightarrow> swarm_driver \<Rightarrow> fetcher_event list" where
  "fetcher_events P now (LocalCmd (CmdPutVerifiedLocalRecord r)) s =
     (case record_type_of P r of
        Inl _ \<Rightarrow> []
      | Inr ty \<Rightarrow>
          (case unified_put_verified (s_net P) (s_store P) (sd_store s) r ty of
             (store, result) \<Rightarrow>
               (case result of Inl MaxRecords \<Rightarrow> [FarthestOnFull (unified_get_farthest store)] | _ \<Rightarrow> [])
               @ NewPut now (rec_key r) ty
               # (case get_farthest_replication_distance_bucket store of Some d \<Rightarrow> [DistanceRange d] | None \<Rightarrow> [])))"
| "fetcher_events P now (LocalCmd (CmdFetchCompleted key ty)) s = [FetchCompleted now key ty]"
| "fetcher_events P now (ReplicationListReceived rng sender ks) s =
     (case as_peer_id (s_net P) sender of
        None \<Rightarrow> []
      | Some holder \<Rightarrow>
          if holder \<notin> set (get_closest_k_value_local_peers s) \<or> holder = self_peer_id s then []
          else [AddKeys now holder ks (record_addresses_ref (sd_store s))])"
| "fetcher_events P now _ s = []"

lemma quote_verification_frame [simp]:
  "sd_fetcher (quote_verification now quotes s) = sd_fetcher s" "sd_store (quote_verification now quotes s) = sd_store s"
  "sd_blocklist (quote_verification now quotes s) = sd_blocklist s"
  "replication_targets (quote_verification now quotes s) = replication_targets s"
proof -
  show "sd_fetcher (quote_verification now quotes s) = sd_fetcher s"
    by (rule quote_verification_induct [where Q = "\<lambda>u. sd_fetcher u = sd_fetcher s"]) simp_all
  show "sd_store (quote_verification now quotes s) = sd_store s"
    by (rule quote_verification_induct [where Q = "\<lambda>u. sd_store u = sd_store s"]) simp_all
  show "sd_blocklist (quote_verification now quotes s) = sd_blocklist s"
    by (rule quote_verification_induct [where Q = "\<lambda>u. sd_blocklist u = sd_blocklist s"]) simp_all
  show "replication_targets (quote_verification now quotes s) = replication_targets s"
    by (rule quote_verification_induct [where Q = "\<lambda>u. replication_targets u = replication_targets s"]) simp_all
qed

lemma put_verified_fetcher:
  "sd_fetcher (fst (put_verified_local_record P now r s))
     = foldl (fetcher_step (s_net P)) (sd_fetcher s) (fetcher_events P now (LocalCmd (CmdPutVerifiedLocalRecord r)) s)"
  by (auto simp: put_verified_local_record_def Let_def split: sum.split prod.split store_error.split option.split)

lemma sd_handle_fetcher:
  "sd_fetcher (sd_handle P now e s) = foldl (fetcher_step (s_net P)) (sd_fetcher s) (fetcher_events P now e s)"
proof (cases e)
  case (LocalCmd cmd)
  then show ?thesis
    using put_verified_fetcher [of P now _ s]
    by (cases cmd) (simp_all add: add_local_record_as_stored_def fetch_completed_def split: prod.split)
next
  case (ReplicationListReceived rng sender ks)
  then show ?thesis
    by (simp add: add_keys_to_replication_fetcher_def Let_def split: option.split prod.split)
qed (simp_all split: unified_record_store.split list.split)

fun run_fetcher_events :: "swarm_ops \<Rightarrow> swarm_driver \<Rightarrow> (system_time \<times> swarm_event) list \<Rightarrow> fetcher_event list" where
  "run_fetcher_events P s [] = []"
| "run_fetcher_events P s ((now, e) # evs) = fetcher_events P now e s @ run_fetcher_events P (sd_handle P now e s) evs"

lemma sd_run_Cons: "sd_run P s ((now, e) # evs) = sd_run P (sd_handle P now e s) evs"
  by (simp add: sd_run_def)

lemma sd_run_fetcher:
  "sd_fetcher (sd_run P s evs) = foldl (fetcher_step (s_net P)) (sd_fetcher s) (run_fetcher_events P s evs)"
proof (induction evs arbitrary: s)
  case Nil
  then show ?case by (simp add: sd_run_def)
next
  case (Cons e evs)
  then show ?case by (cases e) (simp add: sd_run_Cons sd_handle_fetcher)
qed

definition is_replication_list :: "swarm_event \<Rightarrow> bool" where
  "is_replication_list e = (case e of ReplicationListReceived _ _ _ \<Rightarrow> True | _ \<Rightarrow> False)"

lemma fetcher_events_adds:
  "length (filter is_add (fetcher_events P now e s)) \<le> (if is_replication_list e then 1 else 0)"
  by (cases "(P, now, e, s)" rule: fetcher_events.cases)
    (auto simp: is_add_def is_replication_list_def split: sum.split prod.split store_error.split option.split)

lemma run_fetcher_adds:
  "length (filter is_add (run_fetcher_events P s evs)) \<le> length (filter (\<lambda>(_, e). is_replication_list e) evs)"
proof (induction P s evs rule: run_fetcher_events.induct)
  case (2 P s now e evs)
  then show ?case using fetcher_events_adds [of P now e s] by (simp split: if_splits)
qed simp

text \<open>C20: the driver uses the replication fetcher only through the operations of the fetcher, and
  at most once per replication list to add keys, so that it never has more fetches in progress
  than the limit plus the number of replication lists it received.\<close>

theorem driver_refines_fetcher:
  assumes "sd_fetcher s = fetcher_new p" and "s' = sd_run P s evs"
  shows "sd_fetcher s' = foldl (fetcher_step (s_net P)) (fetcher_new p) (run_fetcher_events P s evs)
     \<and> length (filter is_add (run_fetcher_events P s evs)) \<le> length (filter (\<lambda>(_, e). is_replication_list e) evs)
     \<and> length (on_going_fetches (sd_fetcher s'))
         \<le> MAX_PARALLEL_FETCH + length (filter (\<lambda>(_, e). is_replication_list e) evs)"
proof -
  let ?es = "run_fetcher_events P s evs"
  have f: "sd_fetcher s' = foldl (fetcher_step (s_net P)) (fetcher_new p) ?es"
    using sd_run_fetcher [of P s evs] assms by simp
  then show ?thesis
    using run_fetcher_adds [of P s evs] fetches_bounded [of "s_net P" p ?es] by simp
qed

subsection \<open>Every event keeps the driver well formed\<close>

lemma fetcher_inv_run: "fetcher_inv N f \<Longrightarrow> fetcher_inv N (foldl (fetcher_step N) f es)"
  by (induction es arbitrary: f) (simp_all add: fetcher_inv_step)

lemma track_issue_length:
  assumes "length v \<le> 10"
  shows "length (track_issue now issue v) \<le> 10"
proof -
  define recent where "recent = filter (\<lambda>(_, timestamp). as_secs (now - timestamp) < 300) v"
  define kept where "kept = (if length recent = 10 then tl recent else recent)"
  have "length recent \<le> 10" using assms length_filter_le le_trans unfolding recent_def by blast
  then have "length kept < 10" by (simp add: kept_def)
  moreover have "track_issue now issue v
      = (if kept = [] \<or> as_secs (now - snd (last kept)) > 10 then kept @ [(issue, now)] else kept)"
    by (simp add: track_issue_def Let_def kept_def recent_def)
  ultimately show ?thesis by simp
qed

definition peers_wf :: "swarm_driver \<Rightarrow> bool" where
  "peers_wf s \<longleftrightarrow> bmap_inv (bad_nodes s) \<and> bmap_inv (quotes_history s)
     \<and> list_all (\<lambda>(_, v, _). length v \<le> 10) (bad_nodes s)"

lemma peers_wf_report:
  assumes "peers_wf s"
  shows "peers_wf (record_node_issue now peer issue s)"
proof -
  let ?e = "issue_entry now issue (issues_of s peer)"
  have upd: "bad_nodes (record_node_issue now peer issue s) = bmap_insert peer ?e (bad_nodes s)"
    by (rule record_node_issue_cases [of now peer issue s])
  have "length (fst (issues_of s peer)) \<le> 10"
    using assms by (auto simp: peers_wf_def issues_of_def list_all_iff split: option.split dest!: map_of_SomeD)
  then have "length (fst ?e) \<le> 10" by (simp add: issue_entry_def track_issue_length)
  then have "list_all (\<lambda>(_, v, _). length v \<le> 10) (bmap_insert peer ?e (bad_nodes s))"
    using assms bmap_insert_set [of peer ?e "bad_nodes s"]
    by (auto simp: peers_wf_def list_all_iff case_prod_unfold dest!: subsetD)
  then show ?thesis using assms upd by (simp add: peers_wf_def bmap_insert_inv)
qed

lemma driver_wf_iff:
  "driver_wf N s \<longleftrightarrow> store_wf N (sd_store s) \<and> fetcher_inv N (sd_fetcher s) \<and> peers_wf s
     \<and> bmap_inv (replication_targets s) \<and> distinct (sd_blocklist s)"
  by (auto simp: driver_wf_def peers_wf_def)

lemma peers_wf_frame:
  "peers_wf s \<Longrightarrow> bad_nodes s' = bad_nodes s \<Longrightarrow> quotes_history s' = quotes_history s \<Longrightarrow> peers_wf s'"
  by (simp add: peers_wf_def)

lemma try_interval_targets: "bmap_inv (replication_targets s) \<Longrightarrow> bmap_inv (replication_targets (try_interval_replication now s))"
  by (rule try_interval_cases [of now s]) (simp add: bmap_inv_fold_insert)

lemma put_verified_store:
  "store_wf (s_net P) (sd_store s) \<Longrightarrow> store_wf (s_net P) (sd_store (fst (put_verified_local_record P now r s)))"
  by (cases "record_type_of P r")
    (auto simp: put_verified_local_record_def Let_def case_prod_unfold store_wf_operations(1))

lemma sd_handle_store:
  assumes "store_wf (s_net P) (sd_store s)"
  shows "store_wf (s_net P) (sd_store (sd_handle P now e s))"
proof (cases e)
  case (LocalCmd cmd)
  then show ?thesis
    using assms put_verified_store [OF assms, of now] store_wf_operations [OF assms]
    by (cases cmd) (simp_all add: add_local_record_as_stored_def remove_failed_local_record_def Let_def)
next
  case (ReplicationListReceived rng sender ks)
  then show ?thesis
    using assms by (cases rule: add_keys_driver [of P now rng sender ks s]) simp_all
next
  case (DiskTaskDone ok)
  have "store_inv N (st \<lparr> spawned := ts \<rparr>) = store_inv N st" for N st ts by (simp add: store_inv_def)
  then show ?thesis
    using assms DiskTaskDone
    by (auto simp: store_wf_def store_inv_run_task split: unified_record_store.split list.split)
qed (simp add: assms)

lemma sd_handle_peers:
  assumes "peers_wf s"
  shows "peers_wf (sd_handle P now e s)"
proof (cases e)
  case (LocalCmd cmd)
  have "peers_wf (quote_verification now quotes s)" for quotes
    by (rule quote_verification_induct [where Q = peers_wf])
      (simp_all add: assms peers_wf_report, simp add: peers_wf_def bmap_insert_inv)
  then show ?thesis
    using LocalCmd assms
    by (cases cmd) (simp_all add: peers_wf_report peers_wf_frame [OF assms] add_local_record_as_stored_def)
next
  case (ReplicationListReceived rng sender ks)
  then show ?thesis
    by (cases rule: add_keys_driver [of P now rng sender ks s]) (simp_all add: assms peers_wf_frame [OF assms])
qed (simp_all add: assms peers_wf_frame [OF assms] split: unified_record_store.split list.split)

lemma sd_handle_tables:
  assumes "bmap_inv (replication_targets s) \<and> distinct (sd_blocklist s)"
  shows "bmap_inv (replication_targets (sd_handle P now e s)) \<and> distinct (sd_blocklist (sd_handle P now e s))"
proof (cases e)
  case (LocalCmd cmd)
  then show ?thesis
    using assms by (cases cmd) (simp_all add: try_interval_targets add_local_record_as_stored_def)
next
  case (ReplicationListReceived rng sender ks)
  then show ?thesis
    using assms by (cases rule: add_keys_driver [of P now rng sender ks s]) simp_all
qed (simp_all add: assms split: unified_record_store.split list.split)

lemma driver_wf_step:
  assumes "driver_wf (s_net P) s"
  shows "driver_wf (s_net P) (sd_handle P now e s)"
  using assms sd_handle_store [of P s now e] sd_handle_peers [of s P now e] sd_handle_tables [of s P now e]
  by (simp add: driver_wf_iff sd_handle_fetcher fetcher_inv_run)

text \<open>C16: every event keeps the driver well formed: the index of the store has distinct keys with
  their addresses and the right farthest record, the fetcher holds nothing beyond its range and
  no entry twice, the maps of peers are in order, at most ten issues are kept per peer and the
  list of blocked peers has no repetition.\<close>

theorem driver_stays_well_formed:
  assumes "driver_wf (s_net P) s"
  shows "driver_wf (s_net P) (sd_run P s evs)"
  using assms
proof (induction evs arbitrary: s)
  case (Cons e evs)
  then show ?case by (cases e) (simp add: sd_run_Cons driver_wf_step)
qed (simp add: sd_run_def)

theorem driver_stays_well_formed_witness:
  "driver_wf example_net (sd_run example_swarm_ops example_driver
     [(0, LocalCmd (CmdAddLocalRecordAsStored [1] ChunkType)), (1, LocalCmd (CmdAddPeerToBlockList [2]))])"
proof -
  have "driver_wf (s_net example_swarm_ops) example_driver"
    using example_store_inv [of example_net 2 2] fetcher_inv_reachable [of example_net "[0]" "[]"]
    by (simp add: driver_wf_def example_driver_def example_swarm_ops_def store_wf_def)
  from driver_stays_well_formed [OF this, of "[(0, LocalCmd (CmdAddLocalRecordAsStored [1] ChunkType)),
      (1, LocalCmd (CmdAddPeerToBlockList [2]))]"]
  show ?thesis by (simp add: example_swarm_ops_def)
qed

definition example_choices :: replicate_choices where
  "example_choices = \<lparr> check_sender = False, check_other = False, other_indexes = [],
     pick_for_sender = (\<lambda>_. 0), pick_for_other = (\<lambda>_. 0) \<rparr>"

theorem driver_refines_fetcher_witness:
  "length (on_going_fetches (sd_fetcher (sd_run example_swarm_ops example_driver
     [(0, ReplicationListReceived example_choices (from_peer [1]) [(ChunkAddress 1, ChunkType)])])))
     \<le> MAX_PARALLEL_FETCH + 1"
proof -
  have "sd_fetcher example_driver = fetcher_new [0]" by (simp add: example_driver_def)
  from driver_refines_fetcher [OF this refl, of example_swarm_ops
      "[(0, ReplicationListReceived example_choices (from_peer [1]) [(ChunkAddress 1, ChunkType)])]"]
  show ?thesis by (elim conjE) (simp add: is_replication_list_def)
qed

section \<open>Pace of the replication\<close>

text \<open>The times of the replication lists sent to a peer.\<close>

definition lists_sent :: "peer_id \<Rightarrow> swarm_driver \<Rightarrow> system_time list" where
  "lists_sent peer s = map fst (filter (\<lambda>(_, p, r). p = peer \<and> \<not> is_notice r) (sd_requests s))"

definition far_apart :: "system_time list \<Rightarrow> bool" where
  "far_apart ts \<longleftrightarrow> sorted_wrt (\<lambda>t u. t + REPLICATION_TIMEOUT \<le> u) ts"

definition paced :: "system_time \<Rightarrow> swarm_driver \<Rightarrow> bool" where
  "paced now s \<longleftrightarrow> distinct (routing_table s) \<and> bmap_inv (replication_targets s)
     \<and> (\<forall>p. far_apart (lists_sent p s)
          \<and> (lists_sent p s \<noteq> [] \<longrightarrow> last (lists_sent p s) + REPLICATION_TIMEOUT \<le> now
               \<or> map_of (replication_targets s) p = Some (last (lists_sent p s) + REPLICATION_TIMEOUT)))"

lemma far_apart_snoc:
  assumes "far_apart ts" and "ts \<noteq> [] \<Longrightarrow> last ts + REPLICATION_TIMEOUT \<le> now"
  shows "far_apart (ts @ [now])"
proof (cases ts rule: rev_cases)
  case (snoc us u)
  have "t + REPLICATION_TIMEOUT \<le> now" if "t \<in> set ts" for t
  proof -
    have "t + REPLICATION_TIMEOUT \<le> u \<or> t = u"
      using assms(1) that snoc by (auto simp: far_apart_def sorted_wrt_append)
    then have "t \<le> u" by auto
    then show ?thesis using assms(2) snoc by simp
  qed
  then show ?thesis using assms(1) by (simp add: far_apart_def sorted_wrt_append)
qed (simp add: far_apart_def)

lemma paced_frame:
  assumes "paced t s" and "t \<le> now" and "distinct (routing_table s')" and "replication_targets s' = replication_targets s"
    and "\<And>p. lists_sent p s' = lists_sent p s"
  shows "paced now s'"
  using assms by (auto simp: paced_def)

lemma map_of_fold_insert:
  "map_of (fold (\<lambda>k. bmap_insert k v) ks m) k = (if k \<in> set ks then Some v else map_of m k)"
  by (induction ks arbitrary: m) auto

lemma filter_eq_distinct: "distinct xs \<Longrightarrow> filter (\<lambda>x. x = a) xs = (if a \<in> set xs then [a] else [])"
  by (induction xs) auto

lemma paced_interval:
  assumes "paced t s" and "t \<le> now"
  shows "paced now (try_interval_replication now s)"
proof -
  let ?s' = "try_interval_replication now s"
  let ?kept = "hmap_retain (\<lambda>_ timestamp. timestamp > now) (replication_targets s)"
  have inv: "distinct (routing_table s)" "bmap_inv (replication_targets s)"
    "\<And>p. far_apart (lists_sent p s)"
    "\<And>p. lists_sent p s \<noteq> [] \<Longrightarrow> last (lists_sent p s) + REPLICATION_TIMEOUT \<le> t
        \<or> map_of (replication_targets s) p = Some (last (lists_sent p s) + REPLICATION_TIMEOUT)"
    using assms(1) unfolding paced_def by blast+
  obtain peers ks where peers: "peers = []
      \<or> peers = filter (\<lambda>p. map_of ?kept p = None) (take REPLICATION_PEERS_COUNT (routing_table s))"
    and sent: "sd_requests ?s' = sd_requests s @ map (\<lambda>p. (now, p, CmdReplicate (from_peer (self_peer_id s)) ks)) peers"
    and targets: "replication_targets ?s' = fold (\<lambda>p. bmap_insert p (now + REPLICATION_TIMEOUT)) peers ?kept"
    by (rule try_interval_cases)
  have kept: "map_of ?kept p = (case map_of (replication_targets s) p of None \<Rightarrow> None
      | Some v \<Rightarrow> if now < v then Some v else None)" for p
    using hmap_retain_get bmap_inv_distinct [OF inv(2)] by (auto simp: hmap_inv_def)
  have "distinct peers" using peers inv(1) by auto
  then have lists: "lists_sent p ?s' = lists_sent p s @ (if p \<in> set peers then [now] else [])" for p
    using sent filter_eq_distinct [of peers p]
    by (simp add: lists_sent_def is_notice_def filter_map comp_def split: if_splits)
  have due: "last (lists_sent p s) + REPLICATION_TIMEOUT \<le> now \<or> map_of ?kept p = Some (last (lists_sent p s) + REPLICATION_TIMEOUT)"
    if "lists_sent p s \<noteq> []" for p
    using inv(4) [OF that] assms(2) kept [of p] by (auto split: if_splits)
  have "far_apart (lists_sent p ?s')
      \<and> (lists_sent p ?s' \<noteq> [] \<longrightarrow> last (lists_sent p ?s') + REPLICATION_TIMEOUT \<le> now
           \<or> map_of (replication_targets ?s') p = Some (last (lists_sent p ?s') + REPLICATION_TIMEOUT))" for p
  proof (cases "p \<in> set peers")
    case True
    then have "map_of ?kept p = None" using peers by auto
    then have "far_apart (lists_sent p s @ [now])" using due [of p] inv(3) by (intro far_apart_snoc) auto
    then show ?thesis using True lists targets by (simp add: map_of_fold_insert)
  next
    case False
    then show ?thesis using due [of p] inv(3) lists targets by (auto simp: map_of_fold_insert)
  qed
  then show ?thesis using inv(1,2) targets by (simp add: paced_def bmap_inv_fold_insert)
qed

lemma lists_sent_report [simp]: "lists_sent q (record_node_issue now p i s) = lists_sent q s"
  by (rule record_node_issue_cases [of now p i s]) (auto simp: lists_sent_def is_notice_def split: if_splits)

lemma routing_report: "routing_table (record_node_issue now p i s)
    = (if snd (issue_entry now i (issues_of s p)) then filter (\<lambda>q. q \<noteq> p) (routing_table s) else routing_table s)"
  by (auto simp: record_node_issue_def issue_entry_def issues_of_def Let_def split: prod.split option.split)

lemma lists_sent_history [simp]: "lists_sent p (s \<lparr> quotes_history := h \<rparr>) = lists_sent p s"
  by (simp add: lists_sent_def)

definition table_distinct :: "swarm_event \<Rightarrow> bool" where
  "table_distinct e = (case e of RoutingTableChanged peers \<Rightarrow> distinct peers | _ \<Rightarrow> True)"

lemma paced_step:
  assumes "paced t s" and "t \<le> now" and "table_distinct e"
  shows "paced now (sd_handle P now e s)"
proof -
  have d: "distinct (routing_table s)" using assms(1) by (simp add: paced_def)
  show ?thesis
  proof (cases e)
    case (LocalCmd cmd)
    show ?thesis
    proof (cases cmd)
      case CmdTriggerIntervalReplication
      then show ?thesis using LocalCmd paced_interval [OF assms(1,2)] by simp
    next
      case (CmdRecordNodeIssue p i)
      then show ?thesis
        using LocalCmd d paced_frame [OF assms(1,2)] by (simp add: routing_report)
    next
      case (CmdQuoteVerification quotes)
      let ?Q = "\<lambda>u. distinct (routing_table u) \<and> (\<forall>p. lists_sent p u = lists_sent p s)"
      have "?Q (quote_verification now quotes s)"
        by (rule quote_verification_induct [where Q = ?Q]) (simp_all add: d routing_report)
      then show ?thesis
        using LocalCmd CmdQuoteVerification paced_frame [OF assms(1,2)] by simp
    qed (auto simp: LocalCmd d lists_sent_def add_local_record_as_stored_def intro!: paced_frame [OF assms(1,2)])
  next
    case (ReplicationListReceived rng sender ks)
    then show ?thesis
      using d by (cases rule: add_keys_driver [of P now rng sender ks s])
        (auto simp: lists_sent_def intro!: paced_frame [OF assms(1,2)])
  next
    case (RoutingTableChanged peers)
    then show ?thesis
      using assms(3) by (simp add: table_distinct_def paced_frame [OF assms(1,2)] lists_sent_def)
  next
    case (DiskTaskDone ok)
    then show ?thesis
      using d by (simp add: paced_frame [OF assms(1,2)] lists_sent_def split: unified_record_store.split list.split)
  qed
qed

lemma paced_run:
  assumes "paced t s" and "sorted_wrt (\<le>) (t # map fst evs)" and "list_all (\<lambda>(_, e). table_distinct e) evs"
  shows "\<exists>t'. paced t' (sd_run P s evs)"
  using assms
proof (induction evs arbitrary: t s)
  case (Cons te evs)
  obtain now e where te: "te = (now, e)" by (cases te)
  have "paced now (sd_handle P now e s)" using Cons.prems te by (intro paced_step [of t]) auto
  from Cons.IH [OF this] show ?case using Cons.prems te by (simp add: sd_run_Cons)
qed (auto simp: sd_run_def)



section \<open>The end of the node on disk errors\<close>

text \<open>The results of writes to disk, as their commands report them, and the number of failures
  since the last success.\<close>

fun write_result :: "swarm_event \<Rightarrow> bool option" where
  "write_result (LocalCmd (CmdAddLocalRecordAsStored _ _)) = Some True"
| "write_result (LocalCmd (CmdRemoveFailedLocalRecord _)) = Some False"
| "write_result _ = None"

definition failures_at_end :: "(system_time \<times> swarm_event) list \<Rightarrow> nat" where
  "failures_at_end evs = length (takeWhile Not (rev (List.map_filter (\<lambda>(_, e). write_result e) evs)))"

definition ends_node :: "swarm_driver \<Rightarrow> bool" where
  "ends_node s \<longleftrightarrow> TerminateNode HardDiskWriteError \<in> set (sd_events s)"

definition disk_view :: "swarm_driver \<Rightarrow> usize \<times> bool" where
  "disk_view s = (hard_disk_write_error s, ends_node s)"

lemma disk_view_update [simp]:
  "disk_view (s \<lparr> sd_store := u \<rparr>) = disk_view s" "disk_view (s \<lparr> sd_fetcher := f \<rparr>) = disk_view s"
  "disk_view (s \<lparr> bad_nodes := b \<rparr>) = disk_view s" "disk_view (s \<lparr> quotes_history := h \<rparr>) = disk_view s"
  "disk_view (s \<lparr> replication_targets := ts \<rparr>) = disk_view s" "disk_view (s \<lparr> routing_table := t \<rparr>) = disk_view s"
  "disk_view (s \<lparr> sd_blocklist := l \<rparr>) = disk_view s" "disk_view (s \<lparr> peers_in_rt := n \<rparr>) = disk_view s"
  "disk_view (send_request_to now p r s) = disk_view s"
  by (simp_all add: disk_view_def ends_node_def send_request_to_def)

lemma disk_view_event [simp]: "e \<noteq> TerminateNode HardDiskWriteError \<Longrightarrow> disk_view (send_event e s) = disk_view s"
  by (auto simp: disk_view_def ends_node_def send_event_def)

lemma disk_view_handlers [simp]:
  "disk_view (send_keys_to_fetch ks s) = disk_view s" "disk_view (remove_peer p s) = disk_view s"
  "disk_view (verify_peer_storage P rnd a s) = disk_view s"
  "disk_view (record_node_issue now p i s) = disk_view s"
  "disk_view (fetch_completed P now key ty s) = disk_view s"
  "disk_view (fst (put_verified_local_record P now r s)) = disk_view s"
proof -
  show keys [simp]: "disk_view (send_keys_to_fetch ks s) = disk_view s" for ks s by (simp add: send_keys_to_fetch_def)
  show peer [simp]: "disk_view (remove_peer p s) = disk_view s" for p s
    by (simp add: remove_peer_def update_on_peer_removal_def Let_def)
  show "disk_view (verify_peer_storage P rnd a s) = disk_view s"
    by (simp add: verify_peer_storage_def Let_def split: option.split)
  show "disk_view (record_node_issue now p i s) = disk_view s"
    by (auto simp: record_node_issue_def Let_def split: prod.split option.split)
  show "disk_view (fetch_completed P now key ty s) = disk_view s"
    by (simp add: fetch_completed_def split: prod.split)
  show "disk_view (fst (put_verified_local_record P now r s)) = disk_view s"
    by (simp add: put_verified_local_record_def Let_def split: sum.split prod.split)
qed

lemma disk_view_other:
  assumes "write_result e = None"
  shows "disk_view (sd_handle P now e s) = disk_view s"
proof (cases e)
  case (LocalCmd cmd)
  have q: "disk_view (quote_verification now quotes s) = disk_view s" for quotes
    by (rule quote_verification_induct [where Q = "\<lambda>u. disk_view u = disk_view s"]) simp_all
  have fold: "disk_view (fold (\<lambda>peer s. (send_request_to now peer (CmdReplicate (from_peer (self_peer_id s)) ks) s)
      \<lparr> replication_targets := bmap_insert peer (now + REPLICATION_TIMEOUT) (replication_targets s) \<rparr>) ps u) = disk_view u" for ks ps u
    by (induction ps arbitrary: u) simp_all
  have "disk_view (try_interval_replication now s) = disk_view s"
    by (simp add: try_interval_replication_def Let_def fold)
  then show ?thesis using LocalCmd assms q by (cases cmd) simp_all
next
  case (ReplicationListReceived rng sender ks)
  then show ?thesis
    by (simp add: add_keys_to_replication_fetcher_def Let_def split: option.split prod.split)
qed (simp_all split: unified_record_store.split list.split)

lemma failures_snoc:
  "failures_at_end (evs @ [(now, e)])
     = (case write_result e of None \<Rightarrow> failures_at_end evs | Some ok \<Rightarrow> if ok then 0 else failures_at_end evs + 1)"
  by (simp add: failures_at_end_def List.map_filter_def split: option.split)

lemma failures_le: "failures_at_end evs \<le> length evs"
  unfolding failures_at_end_def List.map_filter_def
  by (rule order.trans [OF length_takeWhile_le]) simp

lemma remove_failed_view:
  "disk_view (remove_failed_local_record P key s)
     = (let n = (if hard_disk_write_error s = - 1 then hard_disk_write_error s else hard_disk_write_error s + 1)
        in (n, ends_node s \<or> n > MAX_CONTINUOUS_HDD_WRITE_ERROR))"
  by (simp add: disk_view_def ends_node_def remove_failed_local_record_def Let_def send_event_def)

lemma some_prefix_snoc: "(\<exists>n. Q (take n (xs @ [x]))) \<longleftrightarrow> (\<exists>n. Q (take n xs)) \<or> Q (xs @ [x])"
proof
  assume "\<exists>n. Q (take n (xs @ [x]))"
  then obtain n where "Q (take n (xs @ [x]))" ..
  then show "(\<exists>n. Q (take n xs)) \<or> Q (xs @ [x])" by (cases "n \<le> length xs") auto
next
  assume "(\<exists>n. Q (take n xs)) \<or> Q (xs @ [x])"
  then show "\<exists>n. Q (take n (xs @ [x]))"
  proof
    assume "\<exists>n. Q (take n xs)"
    then obtain n where "Q (take n xs)" ..
    then show ?thesis by (intro exI [of _ "min n (length xs)"]) (cases "n \<le> length xs"; simp add: min_def)
  qed (rule exI [of _ "Suc (length xs)"], simp)
qed

lemma disk_counter:
  assumes "hard_disk_write_error s = 0" and "\<not> ends_node s" and "length evs < 2 ^ 64"
  shows "disk_view (sd_run P s evs)
    = (of_nat (failures_at_end evs), \<exists>n. failures_at_end (take n evs) > 5)"
  using assms(3)
proof (induction evs rule: rev_induct)
  case Nil
  then show ?case using assms by (simp add: sd_run_def disk_view_def failures_at_end_def List.map_filter_def)
next
  case (snoc te evs)
  obtain now e where te: "te = (now, e)" by (cases te)
  let ?s = "sd_run P s evs" and ?k = "failures_at_end evs"
  have IH: "hard_disk_write_error ?s = of_nat ?k" "ends_node ?s \<longleftrightarrow> (\<exists>n. failures_at_end (take n evs) > 5)"
    using snoc by (simp_all add: disk_view_def)
  have step: "sd_run P s (evs @ [te]) = sd_handle P now e ?s" by (simp add: te sd_run_snoc)
  have pre: "(\<exists>n. failures_at_end (take n (evs @ [te])) > 5)
      \<longleftrightarrow> (\<exists>n. failures_at_end (take n evs) > 5) \<or> failures_at_end (evs @ [te]) > 5"
    by (rule some_prefix_snoc)
  show ?case
  proof (cases "write_result e" rule: option.exhaust)
    case None
    moreover have "failures_at_end evs > 5 \<Longrightarrow> \<exists>n. failures_at_end (take n evs) > 5"
      by (rule exI [of _ "length evs"]) simp
    ultimately show ?thesis
      using IH pre disk_view_other [OF None, of P now ?s] unfolding step
      by (auto simp: te failures_snoc disk_view_def)
  next
    case (Some ok)
    show ?thesis
    proof (cases ok)
      case True
      then obtain key ty where "e = LocalCmd (CmdAddLocalRecordAsStored key ty)"
        using Some by (cases e rule: write_result.cases) auto
      then show ?thesis
        using IH pre unfolding step
        by (simp add: te failures_snoc disk_view_def ends_node_def add_local_record_as_stored_def)
    next
      case False
      then obtain key where e: "e = LocalCmd (CmdRemoveFailedLocalRecord key)"
        using Some by (cases e rule: write_result.cases) auto
      have k: "?k + 1 < 2 ^ 64" using failures_le [of evs] snoc.prems by simp
      have u: "unat (of_nat ?k :: usize) = ?k" "unat (of_nat (?k + 1) :: usize) = ?k + 1"
        using k by (simp_all only: unat_of_nat) simp_all
      have "(of_nat ?k :: usize) \<noteq> - 1"
      proof
        assume "(of_nat ?k :: usize) = - 1"
        then have "?k = unat (- 1 :: usize)" using u(1) by simp
        then show False using k by (simp add: unsigned_minus_1_eq_mask mask_eq_exp_minus_1)
      qed
      moreover have "MAX_CONTINUOUS_HDD_WRITE_ERROR < (of_nat (?k + 1) :: usize) \<longleftrightarrow> ?k + 1 > 5"
        using u(2) unfolding MAX_CONTINUOUS_HDD_WRITE_ERROR_def word_less_nat_alt by simp
      ultimately have "disk_view (remove_failed_local_record P key ?s) = (of_nat (?k + 1), ends_node ?s \<or> ?k + 1 > 5)"
        by (simp add: remove_failed_view IH(1) add.commute)
      then show ?thesis
        using IH(2) pre unfolding step by (simp add: te e failures_snoc)
    qed
  qed
qed

text \<open>C25: the driver asks for the end of the node exactly when six writes to disk failed with no
  successful write in between.\<close>

theorem node_ends_on_disk_errors:
  assumes "hard_disk_write_error s = 0" and "TerminateNode HardDiskWriteError \<notin> set (sd_events s)"
    and "length evs < 2 ^ 64"
  shows "TerminateNode HardDiskWriteError \<in> set (sd_events (sd_run P s evs))
     \<longleftrightarrow> (\<exists>n. failures_at_end (take n evs) > 5)"
  using disk_counter [OF assms(1) _ assms(3), of P] assms(2) by (simp add: disk_view_def ends_node_def)

theorem node_ends_on_disk_errors_witness:
  "TerminateNode HardDiskWriteError \<in> set (sd_events (sd_run example_swarm_ops example_driver
     (replicate 6 (0, LocalCmd (CmdRemoveFailedLocalRecord [1])))))"
proof -
  let ?evs = "replicate 6 (0, LocalCmd (CmdRemoveFailedLocalRecord [1]))"
  have "failures_at_end (take 6 ?evs) = 6"
    by (simp add: failures_at_end_def map_filter_simps numeral_eq_Suc)
  then have "\<exists>n. failures_at_end (take n ?evs) > 5" by (intro exI [of _ 6]) simp
  then show ?thesis
    using node_ends_on_disk_errors [of example_driver ?evs example_swarm_ops] by (simp add: example_driver_def)
qed

end
