(* ===== verification/Discovery.thy ===== *)
theory Discovery
  imports Swarm_Driver
begin

text \<open>
  Network discovery (sn\_networking network\_discovery.rs) and the pace of the continuous
  bootstrap (bootstrap.rs). Random peers, random indexes and random intervals are arguments; the
  batches of the parallel generation of candidates are combined in their order. Instants are
  nanoseconds, as in the other components.
\<close>

section \<open>Candidates for network discovery\<close>

type_synonym candidate_map = "(nat, network_address list) btree_map"

record network_discovery =
  nd_self :: peer_id
  nd_candidates :: candidate_map

definition MAX_PEERS_PER_BUCKET :: nat where
  "MAX_PEERS_PER_BUCKET = 5"

definition candidate_bucket :: "net_ops \<Rightarrow> peer_id \<Rightarrow> network_address \<Rightarrow> nat option" where
  "candidate_bucket N self candidate = ilog2 (addr_distance N candidate (from_peer self))"

definition or_default_push :: "nat \<Rightarrow> network_address \<Rightarrow> candidate_map \<Rightarrow> candidate_map" where
  "or_default_push i a m = bmap_insert i (case_option [] id (map_of m i) @ [a]) m"

definition by_bucket :: "net_ops \<Rightarrow> peer_id \<Rightarrow> peer_id list \<Rightarrow> candidate_map" where
  "by_bucket N self peers =
     fold (\<lambda>peer acc. case candidate_bucket N self (from_peer peer) of
                        Some i \<Rightarrow> or_default_push i (from_peer peer) acc
                      | None \<Rightarrow> acc) peers []"

definition insert_candidates :: "nat \<Rightarrow> network_address list \<Rightarrow> candidate_map \<Rightarrow> candidate_map" where
  "insert_candidates i new_candidates m =
     (case map_of m i of
        Some existing \<Rightarrow>
          let l = existing @ filter (\<lambda>c. c \<notin> set existing) new_candidates
          in bmap_insert i (drop (length l - MAX_PEERS_PER_BUCKET) l) m
      | None \<Rightarrow> bmap_insert i new_candidates m)"

definition insert_all_candidates :: "candidate_map \<Rightarrow> candidate_map \<Rightarrow> candidate_map" where
  "insert_all_candidates new m = fold (\<lambda>(i, cs). insert_candidates i cs) new m"

definition handle_get_closest_query :: "net_ops \<Rightarrow> peer_id list \<Rightarrow> network_discovery \<Rightarrow> network_discovery" where
  "handle_get_closest_query N closest_peers d =
     d \<lparr> nd_candidates := insert_all_candidates (by_bucket N (nd_self d) closest_peers) (nd_candidates d) \<rparr>"

definition merge_batch :: "candidate_map \<Rightarrow> candidate_map \<Rightarrow> candidate_map" where
  "merge_batch batch acc =
     fold (\<lambda>(i, cs) acc.
             let entry = case_option [] id (map_of acc i)
             in bmap_insert i (entry @ take (MAX_PEERS_PER_BUCKET - length entry) cs) acc) batch acc"

definition generate_candidates :: "net_ops \<Rightarrow> peer_id \<Rightarrow> peer_id list list \<Rightarrow> candidate_map" where
  "generate_candidates N self batches = fold (\<lambda>batch. merge_batch (by_bucket N self batch)) batches []"

definition discovery_new :: "net_ops \<Rightarrow> peer_id \<Rightarrow> peer_id list list \<Rightarrow> network_discovery" where
  "discovery_new N self batches = \<lparr> nd_self = self, nd_candidates = generate_candidates N self batches \<rparr>"

definition try_refresh_candidates :: "net_ops \<Rightarrow> peer_id list list \<Rightarrow> network_discovery \<Rightarrow> network_discovery" where
  "try_refresh_candidates N batches d =
     d \<lparr> nd_candidates := insert_all_candidates (generate_candidates N (nd_self d) batches) (nd_candidates d) \<rparr>"

text \<open>One candidate per bucket. The index is taken modulo the number of candidates of the bucket,
  which panics on an empty one.\<close>

definition pick_candidate :: "usize \<Rightarrow> network_address list \<Rightarrow> network_address option" where
  "pick_candidate random cs = (if cs = [] then None else Some (cs ! (unat random mod length cs)))"

definition discovery_candidates ::
    "net_ops \<Rightarrow> peer_id list list \<Rightarrow> (nat \<Rightarrow> usize) \<Rightarrow> network_discovery
      \<Rightarrow> network_discovery \<times> network_address list option" where
  "discovery_candidates N batches random d =
     (let d' = try_refresh_candidates N batches d
      in (d', those (map (\<lambda>(i, cs). pick_candidate (random i) cs) (nd_candidates d'))))"

subsection \<open>The buckets\<close>

text \<open>Every bucket holds at least one candidate, and only addresses at its own distance.\<close>

definition candidates_wf :: "net_ops \<Rightarrow> peer_id \<Rightarrow> candidate_map \<Rightarrow> bool" where
  "candidates_wf N self m \<longleftrightarrow> bmap_inv m
     \<and> (\<forall>i cs. map_of m i = Some cs \<longrightarrow> cs \<noteq> [] \<and> (\<forall>a \<in> set cs. candidate_bucket N self a = Some i))"

lemma candidates_wf_Nil: "candidates_wf N self []"
  by (simp add: candidates_wf_def)

lemma candidates_wf_insert:
  assumes "candidates_wf N self m" and "cs \<noteq> []" and "\<forall>a \<in> set cs. candidate_bucket N self a = Some i"
  shows "candidates_wf N self (bmap_insert i cs m)"
  using assms by (auto simp: candidates_wf_def bmap_insert_inv split: if_splits)

lemma candidates_wf_get:
  "candidates_wf N self m \<Longrightarrow> a \<in> set (case_option [] id (map_of m i)) \<Longrightarrow> candidate_bucket N self a = Some i"
  by (cases "map_of m i") (auto simp: candidates_wf_def)

lemma candidates_wf_entry:
  assumes "candidates_wf N self m" and "(i, cs) \<in> set m"
  shows "cs \<noteq> []" and "\<forall>a \<in> set cs. candidate_bucket N self a = Some i"
proof -
  have "map_of m i = Some cs"
    using assms bmap_inv_distinct by (intro map_of_is_SomeI) (auto simp: candidates_wf_def)
  then show "cs \<noteq> []" and "\<forall>a \<in> set cs. candidate_bucket N self a = Some i"
    using assms(1) by (auto simp: candidates_wf_def)
qed

lemma fold_wf:
  assumes "candidates_wf N self m"
    and "\<And>e m. e \<in> set es \<Longrightarrow> candidates_wf N self m \<Longrightarrow> candidates_wf N self (f e m)"
  shows "candidates_wf N self (fold f es m)"
  using assms by (induction es arbitrary: m) simp_all

lemma by_bucket_wf: "candidates_wf N self (by_bucket N self peers)"
  unfolding by_bucket_def
proof (rule fold_wf [OF candidates_wf_Nil])
  fix peer m assume m: "candidates_wf N self m"
  show "candidates_wf N self (case candidate_bucket N self (from_peer peer) of
      Some i \<Rightarrow> or_default_push i (from_peer peer) m | None \<Rightarrow> m)"
  proof (cases "candidate_bucket N self (from_peer peer)")
    case (Some i)
    then show ?thesis
      using candidates_wf_insert [OF m, of "case_option [] id (map_of m i) @ [from_peer peer]" i]
        candidates_wf_get [OF m, of _ i] by (auto simp: or_default_push_def)
  qed (simp add: m)
qed

lemma insert_candidates_wf:
  assumes "candidates_wf N self m" and "cs \<noteq> []" and "\<forall>a \<in> set cs. candidate_bucket N self a = Some i"
  shows "candidates_wf N self (insert_candidates i cs m)"
proof (cases "map_of m i")
  case (Some existing)
  let ?l = "existing @ filter (\<lambda>c. c \<notin> set existing) cs"
  have "existing \<noteq> []" "\<forall>a \<in> set existing. candidate_bucket N self a = Some i"
    using assms(1) Some by (auto simp: candidates_wf_def)
  then have "\<forall>a \<in> set ?l. candidate_bucket N self a = Some i" "?l \<noteq> []" using assms(3) by auto
  moreover have "drop (length ?l - MAX_PEERS_PER_BUCKET) ?l \<noteq> []"
    using \<open>?l \<noteq> []\<close> unfolding MAX_PEERS_PER_BUCKET_def drop_eq_Nil
    by (metis diff_less length_greater_0_conv not_less zero_less_numeral)
  ultimately have "candidates_wf N self (bmap_insert i (drop (length ?l - MAX_PEERS_PER_BUCKET) ?l) m)"
    using candidates_wf_insert [OF assms(1)] in_set_dropD by metis
  then show ?thesis using Some by (simp add: insert_candidates_def Let_def)
qed (use assms in \<open>simp add: insert_candidates_def candidates_wf_insert\<close>)

lemma insert_all_wf:
  assumes "candidates_wf N self new" and "candidates_wf N self m"
  shows "candidates_wf N self (insert_all_candidates new m)"
  unfolding insert_all_candidates_def
proof (rule fold_wf [OF assms(2)])
  fix e m assume e: "e \<in> set new" and m: "candidates_wf N self m"
  then show "candidates_wf N self ((case e of (i, cs) \<Rightarrow> insert_candidates i cs) m)"
    using candidates_wf_entry [OF assms(1), of "fst e" "snd e"] insert_candidates_wf [OF m, of "snd e" "fst e"]
    by (simp add: case_prod_unfold)
qed

lemma merge_batch_wf:
  assumes "candidates_wf N self batch" and "candidates_wf N self acc"
  shows "candidates_wf N self (merge_batch batch acc)"
  unfolding merge_batch_def
proof (rule fold_wf [OF assms(2)])
  fix e m assume e: "e \<in> set batch" and m: "candidates_wf N self m"
  obtain i cs where ics: "e = (i, cs)" by (cases e)
  let ?entry = "case_option [] id (map_of m i)"
  have "?entry @ take (MAX_PEERS_PER_BUCKET - length ?entry) cs \<noteq> []"
    using candidates_wf_entry(1) [OF assms(1), of i cs] e ics by (auto simp: MAX_PEERS_PER_BUCKET_def)
  moreover have "\<forall>a \<in> set (?entry @ take (MAX_PEERS_PER_BUCKET - length ?entry) cs). candidate_bucket N self a = Some i"
    using candidates_wf_get [OF m] candidates_wf_entry(2) [OF assms(1), of i cs] e ics by (auto dest: in_set_takeD)
  ultimately show "candidates_wf N self ((case e of (i, cs) \<Rightarrow> (\<lambda>acc. let entry = case_option [] id (map_of acc i)
      in bmap_insert i (entry @ take (MAX_PEERS_PER_BUCKET - length entry) cs) acc)) m)"
    using candidates_wf_insert [OF m] by (simp add: ics Let_def)
qed

lemma generate_candidates_wf: "candidates_wf N self (generate_candidates N self batches)"
  unfolding generate_candidates_def
  by (rule fold_wf [OF candidates_wf_Nil]) (rule merge_batch_wf [OF by_bucket_wf])

text \<open>In every state of the discovery a candidate of every bucket is found: no bucket is empty.\<close>

datatype discovery_event = ClosestPeersFound "peer_id list" | CandidatesAsked "peer_id list list" "nat \<Rightarrow> usize"

fun discovery_step :: "net_ops \<Rightarrow> discovery_event \<Rightarrow> network_discovery \<Rightarrow> network_discovery" where
  "discovery_step N (ClosestPeersFound ps) d = handle_get_closest_query N ps d"
| "discovery_step N (CandidatesAsked batches random) d = fst (discovery_candidates N batches random d)"

lemma discovery_step_wf:
  assumes "candidates_wf N (nd_self d) (nd_candidates d)"
  shows "candidates_wf N (nd_self (discovery_step N e d)) (nd_candidates (discovery_step N e d))
    \<and> nd_self (discovery_step N e d) = nd_self d"
  using assms by (cases e) (simp_all add: handle_get_closest_query_def discovery_candidates_def Let_def
      try_refresh_candidates_def insert_all_wf by_bucket_wf generate_candidates_wf)

lemma those_picks:
  assumes "candidates_wf N self m"
  shows "\<exists>as. those (map (\<lambda>(i, cs). pick_candidate (random i) cs) m) = Some as
     \<and> map (candidate_bucket N self) as = map (\<lambda>(i, _). Some i) m"
proof -
  define pick where "pick = (\<lambda>(i::nat, cs::network_address list). cs ! (unat (random i) mod length cs))"
  have "(\<lambda>(i, cs). pick_candidate (random i) cs) e = Some (pick e) \<and> candidate_bucket N self (pick e) = Some (fst e)"
    if "e \<in> set m" for e
    using candidates_wf_entry [OF assms, of "fst e" "snd e"] that
    by (auto simp: pick_candidate_def pick_def case_prod_unfold)
  then have "map (\<lambda>(i, cs). pick_candidate (random i) cs) m = map (Some \<circ> pick) m"
    and "map (candidate_bucket N self) (map pick m) = map (\<lambda>(i, _). Some i) m"
    by (simp_all add: case_prod_unfold)
  moreover have "those (map (Some \<circ> pick) l) = Some (map pick l)" for l by (induction l) simp_all
  ultimately show ?thesis by (intro exI [of _ "map pick m"]) (simp only: simp_thms)
qed

lemma candidates_never_panic:
  fixes N :: net_ops
  defines "run \<equiv> fold (discovery_step N)"
  shows "\<exists>d' as. discovery_candidates N batches random (run es (discovery_new N self init)) = (d', Some as)
     \<and> map (candidate_bucket N self) as = map (\<lambda>(i, _). Some i) (nd_candidates d')"
proof -
  define d where "d = run es (discovery_new N self init)"
  have "candidates_wf N self (nd_candidates d) \<and> nd_self d = self"
    unfolding d_def run_def
  proof (induction es rule: rev_induct)
    case (snoc e es)
    then show ?case using discovery_step_wf [of N "fold (discovery_step N) es (discovery_new N self init)" e] by auto
  qed (simp add: discovery_new_def generate_candidates_wf)
  then have "candidates_wf N self (nd_candidates (try_refresh_candidates N batches d))"
    by (simp add: try_refresh_candidates_def insert_all_wf generate_candidates_wf)
  then show ?thesis
    using those_picks unfolding d_def [symmetric] by (auto simp: discovery_candidates_def Let_def)
qed

text \<open>A bucket that is seen for the first time is not cut to the limit.\<close>

lemma new_bucket_exceeds_limit:
  assumes "map_of m i = None"
  shows "map_of (insert_candidates i cs m) i = Some cs"
  using assms by (simp add: insert_candidates_def)

lemma old_bucket_keeps_limit:
  assumes "map_of m i = Some existing"
  shows "\<exists>l. map_of (insert_candidates i cs m) i = Some l \<and> length l \<le> MAX_PEERS_PER_BUCKET"
  using assms by (simp add: insert_candidates_def Let_def)

section \<open>The continuous bootstrap\<close>

definition BOOTSTRAP_INTERVAL :: nat where
  "BOOTSTRAP_INTERVAL = from_secs 10"

definition BOOTSTRAP_CONNECTED_PEERS_STEP :: u32 where
  "BOOTSTRAP_CONNECTED_PEERS_STEP = 5"

definition LAST_PEER_ADDED_TIME_LIMIT :: nat where
  "LAST_PEER_ADDED_TIME_LIMIT = from_secs 180"

definition LAST_BOOTSTRAP_TRIGGERED_TIME_LIMIT :: nat where
  "LAST_BOOTSTRAP_TRIGGERED_TIME_LIMIT = from_secs 30"

record continuous_bootstrap =
  initial_bootstrap_done :: bool
  last_peer_added_instant :: system_time
  last_bootstrap_triggered :: "system_time option"

definition bootstrap_new :: "system_time \<Rightarrow> continuous_bootstrap" where
  "bootstrap_new now =
     \<lparr> initial_bootstrap_done = False, last_peer_added_instant = now, last_bootstrap_triggered = None \<rparr>"

definition bootstrap_initiated :: "system_time \<Rightarrow> continuous_bootstrap \<Rightarrow> continuous_bootstrap" where
  "bootstrap_initiated now b = b \<lparr> last_bootstrap_triggered := Some now \<rparr>"

definition notify_new_peer :: "system_time \<Rightarrow> continuous_bootstrap \<Rightarrow> continuous_bootstrap \<times> bool" where
  "notify_new_peer now b =
     (let b' = b \<lparr> last_peer_added_instant := now \<rparr>
      in if \<not> initial_bootstrap_done b' then (b' \<lparr> initial_bootstrap_done := True \<rparr>, True) else (b', False))"

text \<open>The random interval \<open>slowdown\<close> is between 300 and 600 seconds.\<close>

definition should_we_bootstrap ::
    "system_time \<Rightarrow> nat \<Rightarrow> continuous_bootstrap \<Rightarrow> u32 \<Rightarrow> nat \<Rightarrow> bool \<times> nat option" where
  "should_we_bootstrap now slowdown b peers current_interval =
     (let is_ongoing = (case last_bootstrap_triggered b of
                          Some t \<Rightarrow> now - t < LAST_BOOTSTRAP_TRIGGERED_TIME_LIMIT
                        | None \<Rightarrow> False);
          should_bootstrap = (\<not> is_ongoing \<and> peers \<ge> 1)
      in if now - last_peer_added_instant b > LAST_PEER_ADDED_TIME_LIMIT \<and> peers \<noteq> 0
         then (should_bootstrap, Some (from_secs slowdown))
         else let step = max 1 (peers div BOOTSTRAP_CONNECTED_PEERS_STEP);
                  new_interval = BOOTSTRAP_INTERVAL * unat step
              in (should_bootstrap, if new_interval > current_interval then Some new_interval else None))"

text \<open>The driver: a new peer triggers the first discovery, the timer the later ones.\<close>

datatype bootstrap_event = BootstrapTimer nat u32 nat | PeerAddedToTable

fun bootstrap_step ::
    "system_time \<Rightarrow> bootstrap_event \<Rightarrow> continuous_bootstrap \<Rightarrow> continuous_bootstrap \<times> bool" where
  "bootstrap_step now (BootstrapTimer slowdown peers interval) b =
     (if fst (should_we_bootstrap now slowdown b peers interval) then (bootstrap_initiated now b, True) else (b, False))"
| "bootstrap_step now PeerAddedToTable b =
     (case notify_new_peer now b of
        (b', True) \<Rightarrow> (bootstrap_initiated now b', True)
      | (b', False) \<Rightarrow> (b', False))"

text \<open>The discoveries triggered in a run, with whether they are the initial one.\<close>

fun bootstrap_run ::
    "continuous_bootstrap \<Rightarrow> (system_time \<times> bootstrap_event) list \<Rightarrow> (system_time \<times> bool) list" where
  "bootstrap_run b [] = []"
| "bootstrap_run b ((now, e) # es) =
     (case bootstrap_step now e b of
        (b', fired) \<Rightarrow> (if fired then [(now, e = PeerAddedToTable)] else []) @ bootstrap_run b' es)"

lemma initial_once:
  "length (filter snd (bootstrap_run b es)) \<le> (if initial_bootstrap_done b then 0 else 1)"
proof (induction es arbitrary: b)
  case (Cons te es)
  obtain now e where te: "te = (now, e)" by (cases te)
  obtain b' fired where step: "bootstrap_step now e b = (b', fired)" by fastforce
  have keep: "initial_bootstrap_done b \<Longrightarrow> initial_bootstrap_done b'"
    and fire: "fired \<and> e = PeerAddedToTable \<Longrightarrow> \<not> initial_bootstrap_done b \<and> initial_bootstrap_done b'"
    using step by (cases e; auto simp: notify_new_peer_def bootstrap_initiated_def Let_def split: if_splits)+
  show ?case
    using Cons.IH [of b'] keep fire by (auto simp: te step split: if_splits)
qed simp

lemma first_trigger_late:
  assumes "last_bootstrap_triggered b = Some t" and "bootstrap_run b es = x # more'" and "\<not> snd x"
  shows "fst x - t \<ge> LAST_BOOTSTRAP_TRIGGERED_TIME_LIMIT"
  using assms
proof (induction es arbitrary: b)
  case (Cons te es)
  obtain n e where te: "te = (n, e)" by (cases te)
  show ?case
  proof (cases e)
    case (BootstrapTimer slowdown peers interval)
    show ?thesis
    proof (cases "fst (should_we_bootstrap n slowdown b peers interval)")
      case True
      then show ?thesis
        using Cons.prems BootstrapTimer te
        by (auto simp: should_we_bootstrap_def Let_def split: if_splits)
    qed (use Cons BootstrapTimer te in auto)
  next
    case PeerAddedToTable
    then show ?thesis
      using Cons.prems te Cons.IH [of "b \<lparr> last_peer_added_instant := n \<rparr>"]
      by (auto simp: notify_new_peer_def Let_def split: if_splits)
  qed
qed simp

text \<open>Two discoveries that the timer triggers are at least thirty seconds apart.\<close>

lemma bootstrap_paced:
  assumes "Suc i < length (bootstrap_run b es)" and "\<not> snd (bootstrap_run b es ! Suc i)"
  shows "fst (bootstrap_run b es ! Suc i) - fst (bootstrap_run b es ! i) \<ge> LAST_BOOTSTRAP_TRIGGERED_TIME_LIMIT"
  using assms
proof (induction es arbitrary: b i)
  case (Cons te es)
  obtain now e where te: "te = (now, e)" by (cases te)
  obtain b' fired where step: "bootstrap_step now e b = (b', fired)" by fastforce
  show ?case
  proof (cases fired)
    case False
    then show ?thesis using Cons te step by simp
  next
    case True
    have trig: "last_bootstrap_triggered b' = Some now"
      using step True by (cases e) (auto simp: bootstrap_initiated_def notify_new_peer_def Let_def split: if_splits)
    have run: "bootstrap_run b (te # es) = (now, e = PeerAddedToTable) # bootstrap_run b' es"
      using True by (simp add: te step)
    show ?thesis
    proof (cases i)
      case 0
      obtain x rest where x: "bootstrap_run b' es = x # rest"
        using Cons.prems(1) 0 run by (cases "bootstrap_run b' es") auto
      then show ?thesis
        using first_trigger_late [OF trig x] Cons.prems(2) 0 run by simp
    next
      case (Suc j)
      then show ?thesis using Cons.IH [of j b'] Cons.prems run by simp
    qed
  qed
qed simp

end
