(* ===== verification/Requests.thy ===== *)
theory Requests
  imports Discovery
begin

text \<open>
  The messages between peers (sn\_protocol messages) and how the swarm driver handles requests,
  responses and queries for the closest peers (sn\_networking cmd.rs, event/request\_response.rs,
  event/kad.rs). The libraries give each request and query its identifier, carried by the
  command here, and the command carries what the library answers at once to a put or a dial (an
  address to dial is given by the peer it ends with, if any); a caller waits on a one-shot channel, which is a number, and \<open>ro_alive\<close> tells
  whether its receiver still exists. What is sent to peers, to callers and to the node is logged
  in the state.
\<close>

section \<open>Messages\<close>

type_synonym nonce = u64

datatype chunk_proof = ChunkProof bytes

datatype query =
    GetStoreCost network_address
  | GetReplicatedRecord network_address network_address
  | GetRegisterRecord network_address network_address
  | GetChunkExistenceProof network_address nonce
  | CheckNodeInProblem network_address

datatype query_response =
    StoreCostResponse "(protocol_error, payment_quote) result" main_pubkey network_address
  | NodeInProblemResponse network_address network_address bool
  | ReplicatedRecordResponse "(protocol_error, network_address \<times> bytes) result"
  | RegisterRecordResponse "(protocol_error, network_address \<times> bytes) result"
  | ChunkProofResponse "(protocol_error, chunk_proof) result"

datatype cmd =
    Replicate network_address "(network_address \<times> record_type) list"
  | QuoteVerification network_address "(network_address \<times> payment_quote) list"
  | PeerConsideredAsBad network_address network_address string

datatype cmd_response =
    ReplicateResponse "(protocol_error, unit) result"
  | QuoteVerificationResponse "(protocol_error, unit) result"
  | PeerConsideredAsBadResponse "(protocol_error, unit) result"

datatype request = RequestCmd cmd | RequestQuery query

datatype response = ResponseCmd cmd_response | ResponseQuery query_response

fun query_dst :: "query \<Rightarrow> network_address" where
  "query_dst (GetStoreCost address) = address"
| "query_dst (CheckNodeInProblem address) = address"
| "query_dst (GetReplicatedRecord _ key) = key"
| "query_dst (GetRegisterRecord _ key) = key"
| "query_dst (GetChunkExistenceProof key _) = key"

fun cmd_dst :: "cmd \<Rightarrow> network_address" where
  "cmd_dst (Replicate holder _) = holder"
| "cmd_dst (QuoteVerification target _) = target"
| "cmd_dst (PeerConsideredAsBad _ bad_peer _) = bad_peer"

fun request_dst :: "request \<Rightarrow> network_address" where
  "request_dst (RequestCmd c) = cmd_dst c"
| "request_dst (RequestQuery q) = query_dst q"

text \<open>The requests that the handlers of the driver send, as messages; an issue travels under the
  name that its debug output gives it.\<close>

fun node_issue_name :: "node_issue \<Rightarrow> string" where
  "node_issue_name ConnectionIssue = ''ConnectionIssue''"
| "node_issue_name ReplicationFailure = ''ReplicationFailure''"
| "node_issue_name CloseNodesShunning = ''CloseNodesShunning''"
| "node_issue_name BadQuoting = ''BadQuoting''"
| "node_issue_name FailedChunkProofCheck = ''FailedChunkProofCheck''"

fun request_of :: "peer_request \<Rightarrow> request" where
  "request_of (CmdReplicate holder ks) = RequestCmd (Replicate holder ks)"
| "request_of (CmdPeerConsideredAsBad by bad issue) = RequestCmd (PeerConsideredAsBad by bad (node_issue_name issue))"

section \<open>Requests in flight\<close>

type_synonym request_id = nat

datatype msg_responder = FromSelf "sender option" | FromPeer nat

datatype closest_type = DiscoveryQuery | FunctionCall sender

datatype network_cmd =
    SendRequest request_id request peer_id "sender option"
  | SendResponse response msg_responder
  | GetClosestPeersToAddressFromNetwork query_id network_address sender
  | PutRecord kad_record quorum sender "(network_error, unit) result"
  | PutRecordTo "peer_id list" kad_record quorum sender
  | Dial "peer_id option" sender "(network_error, unit) result"

text \<open>What the node behind the driver is told.\<close>

datatype node_request =
    QueryRequestReceived query msg_responder
  | ResponseReceived response
  | QuotesReceived "(peer_id \<times> payment_quote) list"

record rr_driver =
  rr_swarm :: swarm_driver
  rr_discovery :: network_discovery
  rr_bootstrap :: continuous_bootstrap
  bootstrap_peers :: "(nat, peer_id list) btree_map"
  pending_requests :: "(request_id, sender option) hash_map"
  pending_get_closest_peers :: "(query_id, closest_type \<times> peer_id list) hash_map"
  queued_cmds :: "network_cmd list"
  request_answers :: "(sender \<times> (network_error, response) result) list"
  closest_answers :: "(sender \<times> peer_id list) list"
  put_answers :: "(sender \<times> (network_error, unit) result) list"
  dial_answers :: "(sender \<times> (network_error, unit) result) list"
  dropped_calls :: "sender list"
  dropped_closest :: "sender list"
  wire_requests :: "(request_id \<times> peer_id \<times> request) list"
  wire_responses :: "(nat \<times> response) list"
  node_requests :: "node_request list"

record rr_ops =
  ro_swarm :: swarm_ops
  ro_alive :: "sender \<Rightarrow> bool"
  ro_open :: "nat \<Rightarrow> bool"

definition tell_node :: "node_request \<Rightarrow> rr_driver \<Rightarrow> rr_driver" where
  "tell_node e s = s \<lparr> node_requests := node_requests s @ [e] \<rparr>"

definition answer_call ::
    "rr_ops \<Rightarrow> sender \<Rightarrow> (network_error, response) result \<Rightarrow> rr_driver \<Rightarrow> rr_driver \<times> (network_error, unit) result" where
  "answer_call R c res s =
     (if ro_alive R c then (s \<lparr> request_answers := request_answers s @ [(c, res)] \<rparr>, Ok ())
      else (s \<lparr> dropped_calls := dropped_calls s @ [c] \<rparr>, Err InternalMsgChannelDropped))"

definition deliver_closest ::
    "rr_ops \<Rightarrow> closest_type \<Rightarrow> peer_id list \<Rightarrow> rr_driver \<Rightarrow> rr_driver \<times> (network_error, unit) result" where
  "deliver_closest R ty peers s =
     (case ty of
        DiscoveryQuery \<Rightarrow>
          (s \<lparr> rr_discovery := handle_get_closest_query (s_net (ro_swarm R)) peers (rr_discovery s) \<rparr>, Ok ())
      | FunctionCall c \<Rightarrow>
          if ro_alive R c then (s \<lparr> closest_answers := closest_answers s @ [(c, peers)] \<rparr>, Ok ())
          else (s \<lparr> dropped_closest := dropped_closest s @ [c] \<rparr>, Err InternalMsgChannelDropped))"

subsection \<open>Commands (cmd.rs)\<close>

definition add_bootstrap_peer :: "rr_ops \<Rightarrow> peer_id option \<Rightarrow> rr_driver \<Rightarrow> rr_driver" where
  "add_bootstrap_peer R peer s =
     (case Option.bind peer (\<lambda>p. map_option (Pair p)
             (ilog2 (addr_distance (s_net (ro_swarm R)) (from_peer (self_peer_id (rr_swarm s))) (from_peer p)))) of
        Some (p, i) \<Rightarrow>
          s \<lparr> bootstrap_peers := bmap_insert i (List.insert p (case_option [] id (map_of (bootstrap_peers s) i)))
                (bootstrap_peers s) \<rparr>
      | None \<Rightarrow> s)"

fun handle_network_cmd :: "rr_ops \<Rightarrow> network_cmd \<Rightarrow> rr_driver \<Rightarrow> rr_driver \<times> (network_error, unit) result" where
  "handle_network_cmd R (PutRecord r q c res) s =
     (s \<lparr> put_answers := (if ro_alive R c then put_answers s @ [(c, res)] else put_answers s) \<rparr>, Ok ())"
| "handle_network_cmd R (PutRecordTo peers r q c) s =
     (s \<lparr> put_answers := (if ro_alive R c then put_answers s @ [(c, Ok ())] else put_answers s) \<rparr>, Ok ())"
| "handle_network_cmd R (Dial peer c res) s =
     (let s1 = add_bootstrap_peer R peer s
      in (s1 \<lparr> dial_answers := (if ro_alive R c then dial_answers s1 @ [(c, res)] else dial_answers s1) \<rparr>, Ok ()))"
| "handle_network_cmd R (GetClosestPeersToAddressFromNetwork rid key c) s =
     (s \<lparr> pending_get_closest_peers := AList.update rid (FunctionCall c, []) (pending_get_closest_peers s) \<rparr>, Ok ())"
| "handle_network_cmd R (SendRequest rid req peer c) s =
     (if peer = self_peer_id (rr_swarm s)
      then (case req of
              RequestQuery q \<Rightarrow> (tell_node (QueryRequestReceived q (FromSelf c)) s, Ok ())
            | RequestCmd _ \<Rightarrow> (s, Ok ()))
      else (s \<lparr> wire_requests := wire_requests s @ [(rid, peer, req)],
                pending_requests := AList.update rid c (pending_requests s) \<rparr>, Ok ()))"
| "handle_network_cmd R (SendResponse resp (FromSelf (Some c))) s = answer_call R c (Ok resp) s"
| "handle_network_cmd R (SendResponse resp (FromSelf None)) s = (tell_node (ResponseReceived resp) s, Ok ())"
| "handle_network_cmd R (SendResponse resp (FromPeer ch)) s =
     (if ro_open R ch then (s \<lparr> wire_responses := wire_responses s @ [(ch, resp)] \<rparr>, Ok ())
      else (s, Err OutgoingResponseDropped))"

definition queue_network_swarm_cmd :: "network_cmd \<Rightarrow> rr_driver \<Rightarrow> rr_driver" where
  "queue_network_swarm_cmd c s = s \<lparr> queued_cmds := queued_cmds s @ [c] \<rparr>"

subsection \<open>Requests and responses of peers (event/request\_response.rs)\<close>

fun handle_request ::
    "rr_ops \<Rightarrow> system_time \<Rightarrow> replicate_choices \<Rightarrow> request \<Rightarrow> nat \<Rightarrow> rr_driver \<Rightarrow> rr_driver" where
  "handle_request R now rng (RequestCmd (Replicate holder ks)) ch s =
     (let s' = queue_network_swarm_cmd (SendResponse (ResponseCmd (ReplicateResponse (Ok ()))) (FromPeer ch)) s
      in s' \<lparr> rr_swarm := add_keys_to_replication_fetcher (ro_swarm R) now rng holder ks (rr_swarm s') \<rparr>)"
| "handle_request R now rng (RequestCmd (QuoteVerification target quotes)) ch s =
     (let s' = queue_network_swarm_cmd (SendResponse (ResponseCmd (QuoteVerificationResponse (Ok ()))) (FromPeer ch)) s
      in tell_node (QuotesReceived (List.map_filter (\<lambda>(a, quote).
             map_option (\<lambda>p. (p, quote)) (as_peer_id (s_net (ro_swarm R)) a)) quotes)) s')"
| "handle_request R now rng (RequestCmd (PeerConsideredAsBad detected_by bad_peer behaviour)) ch s =
     queue_network_swarm_cmd (SendResponse (ResponseCmd (PeerConsideredAsBadResponse (Ok ()))) (FromPeer ch)) s"
| "handle_request R now rng (RequestQuery q) ch s = tell_node (QueryRequestReceived q (FromPeer ch)) s"

definition handle_response ::
    "rr_ops \<Rightarrow> request_id \<Rightarrow> response \<Rightarrow> rr_driver \<Rightarrow> rr_driver \<times> (network_error, unit) result" where
  "handle_response R rid resp s =
     (case map_of (pending_requests s) rid of
        None \<Rightarrow> (s, Ok ())
      | Some c \<Rightarrow>
          let s' = s \<lparr> pending_requests := AList.delete rid (pending_requests s) \<rparr>
          in case c of
               Some c \<Rightarrow> answer_call R c (Ok resp) s'
             | None \<Rightarrow>
                 if resp = ResponseCmd (ReplicateResponse (Ok ())) then (s', Ok ())
                 else (tell_node (ResponseReceived resp) s', Ok ()))"

definition handle_outbound_failure ::
    "rr_ops \<Rightarrow> request_id \<Rightarrow> outbound_failure \<Rightarrow> rr_driver \<Rightarrow> rr_driver \<times> (network_error, unit) result" where
  "handle_outbound_failure R rid e s =
     (case map_of (pending_requests s) rid of
        None \<Rightarrow> (s, Err ReceivedResponseDropped)
      | Some c \<Rightarrow>
          let s' = s \<lparr> pending_requests := AList.delete rid (pending_requests s) \<rparr>
          in case c of
               Some c \<Rightarrow> answer_call R c (Err (OutboundError e)) s'
             | None \<Rightarrow> (s', Err ReceivedResponseDropped))"

subsection \<open>Queries for the closest peers (event/kad.rs, bootstrap.rs)\<close>

definition closest_peers_progressed ::
    "rr_ops \<Rightarrow> query_id \<Rightarrow> peer_id list \<Rightarrow> bool \<Rightarrow> rr_driver \<Rightarrow> rr_driver \<times> (network_error, unit) result" where
  "closest_peers_progressed R rid peers last_step s =
     (case map_of (pending_get_closest_peers s) rid of
        None \<Rightarrow> (s, Err ReceivedKademliaEventDropped)
      | Some (ty, current) \<Rightarrow>
          let current' = current @ peers
          in if length current' \<ge> K_VALUE \<or> last_step
             then deliver_closest R ty current'
                    (s \<lparr> pending_get_closest_peers := AList.delete rid (pending_get_closest_peers s) \<rparr>)
             else (s \<lparr> pending_get_closest_peers :=
                         AList.update rid (ty, current') (pending_get_closest_peers s) \<rparr>, Ok ()))"

definition closest_peers_failed ::
    "rr_ops \<Rightarrow> query_id \<Rightarrow> peer_id list \<Rightarrow> rr_driver \<Rightarrow> rr_driver \<times> (network_error, unit) result" where
  "closest_peers_failed R rid peers s =
     (case map_of (pending_get_closest_peers s) rid of
        None \<Rightarrow> (s, Err ReceivedKademliaEventDropped)
      | Some (ty, current) \<Rightarrow>
          deliver_closest R ty (current @ peers)
            (s \<lparr> pending_get_closest_peers := AList.delete rid (pending_get_closest_peers s) \<rparr>))"

text \<open>The random choices of a discovery and the identifiers of its queries, one for each bucket.\<close>

record discovery_choices =
  dc_batches :: "peer_id list list"
  dc_random :: "nat \<Rightarrow> usize"
  dc_ids :: "query_id list"

definition trigger_network_discovery :: "rr_ops \<Rightarrow> system_time \<Rightarrow> discovery_choices \<Rightarrow> rr_driver \<Rightarrow> rr_driver" where
  "trigger_network_discovery R now dc s =
     (case discovery_candidates (s_net (ro_swarm R)) (dc_batches dc) (dc_random dc) (rr_discovery s) of
        (d, cs) \<Rightarrow>
          s \<lparr> rr_discovery := d,
              pending_get_closest_peers :=
                fold (\<lambda>(rid, _). AList.update rid (DiscoveryQuery, [])) (zip (dc_ids dc) (case_option [] id cs))
                  (pending_get_closest_peers s),
              rr_bootstrap := bootstrap_initiated now (rr_bootstrap s) \<rparr>)"

definition run_bootstrap_continuously ::
    "rr_ops \<Rightarrow> system_time \<Rightarrow> discovery_choices \<Rightarrow> nat \<Rightarrow> nat \<Rightarrow> rr_driver \<Rightarrow> rr_driver \<times> nat option" where
  "run_bootstrap_continuously R now dc slowdown current_interval s =
     (case should_we_bootstrap now slowdown (rr_bootstrap s) (of_nat (peers_in_rt (rr_swarm s))) current_interval of
        (should, new_interval) \<Rightarrow>
          (if should then trigger_network_discovery R now dc s else s, new_interval))"

definition routing_updated ::
    "rr_ops \<Rightarrow> system_time \<Rightarrow> discovery_choices \<Rightarrow> peer_id \<Rightarrow> bool \<Rightarrow> peer_id option \<Rightarrow> rr_driver \<Rightarrow> rr_driver" where
  "routing_updated R now dc peer is_new_peer old_peer s =
     (let s1 = (if is_new_peer
                then let s' = s \<lparr> rr_swarm := update_on_peer_addition peer (rr_swarm s) \<rparr>
                     in case notify_new_peer now (rr_bootstrap s') of
                          (b, first) \<Rightarrow>
                            (if first then trigger_network_discovery R now dc (s' \<lparr> rr_bootstrap := b \<rparr>)
                             else s' \<lparr> rr_bootstrap := b \<rparr>)
                else s)
      in case old_peer of
           Some old \<Rightarrow> s1 \<lparr> rr_swarm := update_on_peer_removal old (rr_swarm s1) \<rparr>
         | None \<Rightarrow> s1)"

subsection \<open>Runs\<close>

datatype rr_event =
    NetworkCmd network_cmd
  | QueuedCmd
  | RequestFromPeer replicate_choices request nat
  | ResponseFromPeer request_id response
  | RequestFailed request_id outbound_failure
  | ClosestProgressed query_id "peer_id list" bool
  | ClosestFailed query_id "peer_id list"
  | RoutingUpdated discovery_choices peer_id bool "peer_id option"
  | BootstrapDue discovery_choices nat nat
  | SwarmEvent swarm_event

fun rr_step :: "rr_ops \<Rightarrow> system_time \<times> rr_event \<Rightarrow> rr_driver \<Rightarrow> rr_driver" where
  "rr_step R (now, NetworkCmd c) s = fst (handle_network_cmd R c s)"
| "rr_step R (now, QueuedCmd) s =
     (case queued_cmds s of [] \<Rightarrow> s | c # cs \<Rightarrow> fst (handle_network_cmd R c (s \<lparr> queued_cmds := cs \<rparr>)))"
| "rr_step R (now, RequestFromPeer rng req ch) s = handle_request R now rng req ch s"
| "rr_step R (now, ResponseFromPeer rid resp) s = fst (handle_response R rid resp s)"
| "rr_step R (now, RequestFailed rid e) s = fst (handle_outbound_failure R rid e s)"
| "rr_step R (now, ClosestProgressed rid peers last_step) s = fst (closest_peers_progressed R rid peers last_step s)"
| "rr_step R (now, ClosestFailed rid peers) s = fst (closest_peers_failed R rid peers s)"
| "rr_step R (now, RoutingUpdated dc peer is_new old) s = routing_updated R now dc peer is_new old s"
| "rr_step R (now, BootstrapDue dc slowdown interval) s = fst (run_bootstrap_continuously R now dc slowdown interval s)"
| "rr_step R (now, SwarmEvent e) s = s \<lparr> rr_swarm := sd_handle (ro_swarm R) now e (rr_swarm s) \<rparr>"

subsection \<open>Who is answered\<close>

text \<open>The callers of requests: those whose request is in flight, those whose query was handed to
  the node itself, and those that were answered or gave up. The queue of the driver holds
  responses to peers only.\<close>

fun self_caller :: "node_request \<Rightarrow> sender list" where
  "self_caller (QueryRequestReceived _ (FromSelf (Some c))) = [c]"
| "self_caller _ = []"

definition calls_waiting :: "rr_driver \<Rightarrow> sender multiset" where
  "calls_waiting s = mset (callers_of (case_option [] (\<lambda>c. [c])) (pending_requests s))
     + mset (concat (map self_caller (node_requests s)))"

definition calls_served :: "rr_driver \<Rightarrow> sender multiset" where
  "calls_served s = mset (map fst (request_answers s)) + mset (dropped_calls s)"

text \<open>A request asks once; the answer of the node to its own query is counted with the query that
  was handed to it.\<close>

fun cmd_asks :: "peer_id \<Rightarrow> network_cmd \<Rightarrow> sender multiset" where
  "cmd_asks self (SendRequest _ (RequestQuery _) peer (Some c)) = {#c#}"
| "cmd_asks self (SendRequest _ (RequestCmd _) peer (Some c)) = (if peer = self then {#} else {#c#})"
| "cmd_asks self (SendResponse _ (FromSelf (Some c))) = {#c#}"
| "cmd_asks self _ = {#}"

fun call_asks :: "peer_id \<Rightarrow> system_time \<times> rr_event \<Rightarrow> sender multiset" where
  "call_asks self (_, NetworkCmd c) = cmd_asks self c"
| "call_asks self _ = {#}"

fun request_ids :: "system_time \<times> rr_event \<Rightarrow> request_id list" where
  "request_ids (_, NetworkCmd (SendRequest rid _ _ _)) = [rid]"
| "request_ids _ = []"

fun response_to_peer :: "network_cmd \<Rightarrow> bool" where
  "response_to_peer (SendResponse _ (FromPeer _)) = True"
| "response_to_peer _ = False"

definition rr_wf :: "peer_id \<Rightarrow> rr_driver \<Rightarrow> bool" where
  "rr_wf self s \<longleftrightarrow> self_peer_id (rr_swarm s) = self \<and> list_all response_to_peer (queued_cmds s)
     \<and> hmap_inv (pending_requests s) \<and> hmap_inv (pending_get_closest_peers s)"

text \<open>The driver keeps its own identity.\<close>

lemma self_send [simp]:
  "self_peer_id (send_event e d) = self_peer_id d" "self_peer_id (send_request_to t p r d) = self_peer_id d"
  "self_peer_id (send_keys_to_fetch ks d) = self_peer_id d" "self_peer_id (remove_peer p d) = self_peer_id d"
  "self_peer_id (update_on_peer_addition p d) = self_peer_id d"
  "self_peer_id (update_on_peer_removal p d) = self_peer_id d"
  by (simp_all add: send_event_def send_request_to_def send_keys_to_fetch_def remove_peer_def
      update_on_peer_removal_def update_on_peer_addition_def Let_def)

lemma self_record_issue [simp]: "self_peer_id (record_node_issue now p i d) = self_peer_id d"
  by (simp add: record_node_issue_def Let_def split: prod.split option.split)

lemma self_verify_quote [simp]: "self_peer_id (verify_peer_quote now pq d) = self_peer_id d"
  by (simp add: verify_peer_quote_def split: prod.split option.split)

lemma self_quote_verification [simp]: "self_peer_id (quote_verification now qs d) = self_peer_id d"
  unfolding quote_verification_def
  by (induction qs arbitrary: d) (simp_all split: prod.split option.split bool.split)

lemma self_interval_replication [simp]: "self_peer_id (try_interval_replication now d) = self_peer_id d"
proof -
  have "self_peer_id (fold (\<lambda>peer d. (send_request_to now peer (CmdReplicate (from_peer (self_peer_id d)) ks) d)
      \<lparr> replication_targets := bmap_insert peer t (replication_targets d) \<rparr>) ps d) = self_peer_id d" for ps ks t d
    by (induction ps arbitrary: d) simp_all
  then show ?thesis by (simp add: try_interval_replication_def Let_def)
qed

lemma self_verify_storage [simp]: "self_peer_id (verify_peer_storage P rnd a d) = self_peer_id d"
  by (simp add: verify_peer_storage_def Let_def split: option.split)

lemma self_add_keys [simp]: "self_peer_id (add_keys_to_replication_fetcher P now rng a ks d) = self_peer_id d"
  by (simp add: add_keys_to_replication_fetcher_def Let_def split: option.split prod.split)

lemma self_local_cmd [simp]: "self_peer_id (fst (handle_local_cmd P now c d)) = self_peer_id d"
  by (cases c) (simp_all add: put_verified_local_record_def add_local_record_as_stored_def
      remove_failed_local_record_def fetch_completed_def Let_def split: sum.split prod.split)

lemma self_handle [simp]: "self_peer_id (sd_handle P now e d) = self_peer_id d"
  by (cases e) (simp_all split: unified_record_store.split list.split)

text \<open>What the handlers change of the calls.\<close>

lemma add_bootstrap_frame [simp]:
  "rr_swarm (add_bootstrap_peer R p s) = rr_swarm s" "queued_cmds (add_bootstrap_peer R p s) = queued_cmds s"
  "pending_requests (add_bootstrap_peer R p s) = pending_requests s"
  "pending_get_closest_peers (add_bootstrap_peer R p s) = pending_get_closest_peers s"
  "node_requests (add_bootstrap_peer R p s) = node_requests s"
  "request_answers (add_bootstrap_peer R p s) = request_answers s"
  "closest_answers (add_bootstrap_peer R p s) = closest_answers s"
  "dropped_calls (add_bootstrap_peer R p s) = dropped_calls s"
  "dropped_closest (add_bootstrap_peer R p s) = dropped_closest s"
  by (simp_all add: add_bootstrap_peer_def split: option.split)

lemma answer_call_calls:
  assumes "answer_call R c res s = (s', r)"
  shows "calls_served s' = add_mset c (calls_served s)" and "calls_waiting s' = calls_waiting s"
    and "pending_requests s' = pending_requests s" and "rr_wf self s' = rr_wf self s"
    and "pending_get_closest_peers s' = pending_get_closest_peers s"
    and "closest_answers s' = closest_answers s" and "dropped_closest s' = dropped_closest s"
  using assms by (auto simp: answer_call_def calls_served_def calls_waiting_def rr_wf_def split: if_splits)

lemma tell_node_calls [simp]:
  "calls_served (tell_node e s) = calls_served s"
  "calls_waiting (tell_node e s) = calls_waiting s + mset (self_caller e)"
  "pending_requests (tell_node e s) = pending_requests s" "rr_wf self (tell_node e s) = rr_wf self s"
  "pending_get_closest_peers (tell_node e s) = pending_get_closest_peers s"
  "closest_answers (tell_node e s) = closest_answers s" "dropped_closest (tell_node e s) = dropped_closest s"
  by (simp_all add: tell_node_def calls_served_def calls_waiting_def rr_wf_def)

lemma deliver_closest_calls:
  assumes "deliver_closest R ty peers s = (s', r)"
  shows "calls_served s' = calls_served s" and "calls_waiting s' = calls_waiting s"
    and "pending_requests s' = pending_requests s" and "rr_wf self s' = rr_wf self s"
    and "pending_get_closest_peers s' = pending_get_closest_peers s"
    and "mset (map fst (closest_answers s')) + mset (dropped_closest s')
       = mset (map fst (closest_answers s)) + mset (dropped_closest s)
         + (case ty of FunctionCall c \<Rightarrow> {#c#} | DiscoveryQuery \<Rightarrow> {#})"
  using assms by (auto simp: deliver_closest_def calls_served_def calls_waiting_def rr_wf_def
      split: if_splits closest_type.splits)

lemma pending_removed:
  assumes "rr_wf self s" and "map_of (pending_requests s) rid = Some c"
  shows "calls_served (s \<lparr> pending_requests := AList.delete rid (pending_requests s) \<rparr>) = calls_served s"
    and "calls_waiting s = mset (case_option [] (\<lambda>c. [c]) c)
      + calls_waiting (s \<lparr> pending_requests := AList.delete rid (pending_requests s) \<rparr>)"
    and "rr_wf self (s \<lparr> pending_requests := AList.delete rid (pending_requests s) \<rparr>)"
  using assms callers_delete [OF _ assms(2), of "case_option [] (\<lambda>c. [c])"]
  by (simp_all add: calls_served_def calls_waiting_def rr_wf_def)

lemma response_cases:
  assumes "rr_wf self s"
  shows "calls_served (fst (handle_response R rid resp s)) + calls_waiting (fst (handle_response R rid resp s))
      = calls_served s + calls_waiting s" (is ?calls)
    and "rr_wf self (fst (handle_response R rid resp s))" (is ?wf)
    and "fst ` set (pending_requests (fst (handle_response R rid resp s))) \<subseteq> fst ` set (pending_requests s)" (is ?busy)
proof -
  have "?calls \<and> ?wf \<and> ?busy"
  proof (cases "map_of (pending_requests s) rid")
    case (Some c)
    note del = pending_removed [OF assms Some]
    let ?s = "s \<lparr> pending_requests := AList.delete rid (pending_requests s) \<rparr>"
    show ?thesis
    proof (cases c)
      case None
      then show ?thesis using del Some by (auto simp: handle_response_def Let_def)
    next
      case (Some c')
      obtain s' r where "answer_call R c' (Ok resp) ?s = (s', r)" by fastforce
      moreover from this have "handle_response R rid resp s = (s', r)"
        using \<open>map_of (pending_requests s) rid = Some c\<close> Some by (simp add: handle_response_def)
      ultimately show ?thesis
        using answer_call_calls [of R c' "Ok resp" ?s s' r] del Some by auto
    qed
  qed (use assms in \<open>auto simp: handle_response_def\<close>)
  then show ?calls ?wf ?busy by blast+
qed

lemma failure_cases:
  assumes "rr_wf self s"
  shows "calls_served (fst (handle_outbound_failure R rid e s)) + calls_waiting (fst (handle_outbound_failure R rid e s))
      = calls_served s + calls_waiting s" (is ?calls)
    and "rr_wf self (fst (handle_outbound_failure R rid e s))" (is ?wf)
    and "fst ` set (pending_requests (fst (handle_outbound_failure R rid e s))) \<subseteq> fst ` set (pending_requests s)" (is ?busy)
proof -
  have "?calls \<and> ?wf \<and> ?busy"
  proof (cases "map_of (pending_requests s) rid")
    case (Some c)
    note del = pending_removed [OF assms Some]
    let ?s = "s \<lparr> pending_requests := AList.delete rid (pending_requests s) \<rparr>"
    show ?thesis
    proof (cases c)
      case None
      then show ?thesis using del Some by (auto simp: handle_outbound_failure_def Let_def)
    next
      case (Some c')
      obtain s' r where "answer_call R c' (Err (OutboundError e)) ?s = (s', r)" by fastforce
      moreover from this have "handle_outbound_failure R rid e s = (s', r)"
        using \<open>map_of (pending_requests s) rid = Some c\<close> Some by (simp add: handle_outbound_failure_def)
      ultimately show ?thesis
        using answer_call_calls [of R c' "Err (OutboundError e)" ?s s' r] del Some by auto
    qed
  qed (use assms in \<open>auto simp: handle_outbound_failure_def\<close>)
  then show ?calls ?wf ?busy by blast+
qed

lemma cmd_cases:
  assumes "rr_wf self s"
  shows "rr_wf self (fst (handle_network_cmd R c s))"
    and "fst ` set (pending_requests (fst (handle_network_cmd R c s)))
      \<subseteq> fst ` set (pending_requests s) \<union> set (request_ids (now, NetworkCmd c))"
    and "set (request_ids (now, NetworkCmd c)) \<inter> fst ` set (pending_requests s) = {}
      \<Longrightarrow> calls_served (fst (handle_network_cmd R c s)) + calls_waiting (fst (handle_network_cmd R c s))
       = calls_served s + calls_waiting s + cmd_asks self c"
proof -
  have self: "self_peer_id (rr_swarm s) = self" using assms by (simp add: rr_wf_def)
  show "rr_wf self (fst (handle_network_cmd R c s))"
    using assms by (cases "(R, c, s)" rule: handle_network_cmd.cases)
      (auto simp: rr_wf_def tell_node_def answer_call_def Let_def split: request.split)
  show "fst ` set (pending_requests (fst (handle_network_cmd R c s)))
      \<subseteq> fst ` set (pending_requests s) \<union> set (request_ids (now, NetworkCmd c))"
    by (cases "(R, c, s)" rule: handle_network_cmd.cases) (auto simp: tell_node_def answer_call_def Let_def split: request.split)
  assume fresh: "set (request_ids (now, NetworkCmd c)) \<inter> fst ` set (pending_requests s) = {}"
  show "calls_served (fst (handle_network_cmd R c s)) + calls_waiting (fst (handle_network_cmd R c s))
       = calls_served s + calls_waiting s + cmd_asks self c"
  proof (cases c)
    case (SendRequest rid req peer caller)
    have "map_of (pending_requests s) rid = None" using fresh SendRequest by (simp add: map_of_eq_None_iff)
    note ins = callers_insert [OF this, of "case_option [] (\<lambda>c. [c])"]
    show ?thesis
      using SendRequest ins self
      by (cases req; cases caller) (auto simp: calls_served_def calls_waiting_def tell_node_def)
  next
    case (SendResponse resp ch)
    show ?thesis
    proof (cases ch)
      case (FromSelf caller)
      then show ?thesis
        using SendResponse answer_call_calls(1,2) by (cases caller) (auto simp: fst_def split: prod.split)
    qed (use SendResponse in \<open>simp add: calls_served_def calls_waiting_def\<close>)
  qed (simp_all add: calls_served_def calls_waiting_def Let_def)
qed

lemma queue_wf: "rr_wf self s \<Longrightarrow> response_to_peer c \<Longrightarrow> rr_wf self (queue_network_swarm_cmd c s)"
  by (simp add: rr_wf_def queue_network_swarm_cmd_def)

lemma queue_calls [simp]:
  "calls_served (queue_network_swarm_cmd c s) = calls_served s"
  "calls_waiting (queue_network_swarm_cmd c s) = calls_waiting s"
  "pending_requests (queue_network_swarm_cmd c s) = pending_requests s"
  "pending_get_closest_peers (queue_network_swarm_cmd c s) = pending_get_closest_peers s"
  "closest_answers (queue_network_swarm_cmd c s) = closest_answers s"
  "dropped_closest (queue_network_swarm_cmd c s) = dropped_closest s"
  by (simp_all add: queue_network_swarm_cmd_def calls_served_def calls_waiting_def)

lemma swarm_calls [simp]:
  "calls_served (s \<lparr> rr_swarm := d \<rparr>) = calls_served s" "calls_waiting (s \<lparr> rr_swarm := d \<rparr>) = calls_waiting s"
  "self_peer_id d = self_peer_id (rr_swarm s) \<Longrightarrow> rr_wf self (s \<lparr> rr_swarm := d \<rparr>) = rr_wf self s"
  by (simp_all add: calls_served_def calls_waiting_def rr_wf_def)

lemma request_handled:
  assumes "rr_wf self s"
  shows "rr_wf self (handle_request R now rng req ch s)"
    and "calls_served (handle_request R now rng req ch s) = calls_served s"
    and "calls_waiting (handle_request R now rng req ch s) = calls_waiting s"
    and "pending_requests (handle_request R now rng req ch s) = pending_requests s"
    and "pending_get_closest_peers (handle_request R now rng req ch s) = pending_get_closest_peers s"
    and "closest_answers (handle_request R now rng req ch s) = closest_answers s"
    and "dropped_closest (handle_request R now rng req ch s) = dropped_closest s"
  using assms by (cases "(R, now, rng, req, ch, s)" rule: handle_request.cases; simp add: Let_def queue_wf)+

lemma fold_discovery:
  fixes ids :: "(query_id \<times> network_address) list"
  assumes "hmap_inv m"
  shows "hmap_inv (fold (\<lambda>(rid, _). AList.update rid (DiscoveryQuery, [])) ids m)"
    and "fst ` set (fold (\<lambda>(rid, _). AList.update rid (DiscoveryQuery, [])) ids m) = fst ` set ids \<union> fst ` set m"
  using assms by (induction ids arbitrary: m) (simp_all add: case_prod_unfold)

lemma trigger_calls:
  "calls_served (trigger_network_discovery R now dc s) = calls_served s"
  "calls_waiting (trigger_network_discovery R now dc s) = calls_waiting s"
  "pending_requests (trigger_network_discovery R now dc s) = pending_requests s"
  "closest_answers (trigger_network_discovery R now dc s) = closest_answers s"
  "dropped_closest (trigger_network_discovery R now dc s) = dropped_closest s"
  "rr_swarm (trigger_network_discovery R now dc s) = rr_swarm s"
  "rr_wf self s \<Longrightarrow> rr_wf self (trigger_network_discovery R now dc s)"
  by (simp_all add: trigger_network_discovery_def calls_served_def calls_waiting_def rr_wf_def fold_discovery
      split: prod.split)

lemma routing_calls:
  "calls_served (routing_updated R now dc p n old s) = calls_served s"
  "calls_waiting (routing_updated R now dc p n old s) = calls_waiting s"
  "pending_requests (routing_updated R now dc p n old s) = pending_requests s"
  "closest_answers (routing_updated R now dc p n old s) = closest_answers s"
  "dropped_closest (routing_updated R now dc p n old s) = dropped_closest s"
proof -
  have frame: "calls_served (s \<lparr> rr_bootstrap := b \<rparr>) = calls_served s"
    "calls_waiting (s \<lparr> rr_bootstrap := b \<rparr>) = calls_waiting s" for s b
    by (simp_all add: calls_served_def calls_waiting_def)
  show "calls_served (routing_updated R now dc p n old s) = calls_served s"
    "calls_waiting (routing_updated R now dc p n old s) = calls_waiting s"
    "pending_requests (routing_updated R now dc p n old s) = pending_requests s"
    "closest_answers (routing_updated R now dc p n old s) = closest_answers s"
    "dropped_closest (routing_updated R now dc p n old s) = dropped_closest s"
    by (simp_all add: routing_updated_def Let_def trigger_calls frame split: prod.split option.split)
qed

lemma routing_wf:
  assumes "rr_wf self s"
  shows "rr_wf self (routing_updated R now dc p n old s)"
proof -
  have "rr_wf self (s \<lparr> rr_bootstrap := b \<rparr>) = rr_wf self s" for s b by (simp add: rr_wf_def)
  then show ?thesis
    using assms by (simp add: routing_updated_def Let_def trigger_calls split: prod.split option.split)
qed

interpretation rq: answered_calls "rr_wf self" "rr_step R" calls_waiting calls_served "call_asks self"
    request_ids "\<lambda>s. fst ` set (pending_requests s)" for R self
proof
  fix s :: rr_driver and te :: "system_time \<times> rr_event"
  assume wf: "rr_wf self s"
  obtain now e where te: "te = (now, e)" by (cases te)
  have queue: "rr_wf self (s \<lparr> queued_cmds := cs \<rparr>)" "cmd_asks self c = {#}" "request_ids (now, NetworkCmd c) = []"
    if "queued_cmds s = c # cs" for c cs
    using that wf by (auto simp: rr_wf_def elim: response_to_peer.elims)
  have frame: "calls_served (s \<lparr> queued_cmds := cs \<rparr>) = calls_served s"
    "calls_waiting (s \<lparr> queued_cmds := cs \<rparr>) = calls_waiting s" for cs
    by (simp_all add: calls_served_def calls_waiting_def)
  have closest: "calls_served (fst (closest_peers_progressed R rid ps l s)) = calls_served s"
    "calls_waiting (fst (closest_peers_progressed R rid ps l s)) = calls_waiting s"
    "pending_requests (fst (closest_peers_progressed R rid ps l s)) = pending_requests s"
    "rr_wf self (fst (closest_peers_progressed R rid ps l s))"
    "calls_served (fst (closest_peers_failed R rid ps s)) = calls_served s"
    "calls_waiting (fst (closest_peers_failed R rid ps s)) = calls_waiting s"
    "pending_requests (fst (closest_peers_failed R rid ps s)) = pending_requests s"
    "rr_wf self (fst (closest_peers_failed R rid ps s))" for rid ps l
    using wf by (auto simp: closest_peers_progressed_def closest_peers_failed_def deliver_closest_def Let_def
        calls_served_def calls_waiting_def rr_wf_def split: option.split closest_type.split)
  show "rr_wf self (rr_step R te s)"
    using wf queue cmd_cases(1) by (cases e) (auto simp: te response_cases failure_cases closest request_handled
        routing_wf trigger_calls run_bootstrap_continuously_def split: list.split prod.split)
  have queued_busy: "fst ` set (pending_requests (fst (handle_network_cmd R c (s \<lparr> queued_cmds := cs \<rparr>))))
      \<subseteq> fst ` set (pending_requests s)" if "queued_cmds s = c # cs" for c cs
    using cmd_cases(2) [OF queue(1) [OF that], of R c now] queue(3) [OF that] by simp
  show "fst ` set (pending_requests (rr_step R te s)) \<subseteq> fst ` set (pending_requests s) \<union> set (request_ids te)"
  proof (cases e)
    case (NetworkCmd c)
    then show ?thesis using cmd_cases(2) [OF wf, of R c now] by (simp add: te)
  next
    case QueuedCmd
    then show ?thesis using queued_busy by (cases "queued_cmds s") (simp_all add: te)
  next
    case (ResponseFromPeer rid resp)
    then show ?thesis using response_cases(3) [OF wf] by (simp add: te)
  next
    case (RequestFailed rid f)
    then show ?thesis using failure_cases(3) [OF wf] by (simp add: te)
  qed (simp_all add: te closest request_handled(4) [OF wf] routing_calls trigger_calls
      run_bootstrap_continuously_def split: prod.split)
  assume fresh: "distinct (request_ids te)" "set (request_ids te) \<inter> fst ` set (pending_requests s) = {}"
  show "calls_served (rr_step R te s) + calls_waiting (rr_step R te s) = calls_served s + calls_waiting s + call_asks self te"
  proof (cases e)
    case (NetworkCmd c)
    then show ?thesis using cmd_cases(3) [OF wf, of now c R] fresh by (simp add: te)
  next
    case QueuedCmd
    show ?thesis
    proof (cases "queued_cmds s")
      case (Cons c cs)
      then show ?thesis
        using cmd_cases(3) [OF queue(1) [OF Cons], of now c R] queue(2,3) [OF Cons] QueuedCmd by (simp add: te frame)
    qed (simp add: te QueuedCmd)
  next
    case (ResponseFromPeer rid resp)
    then show ?thesis using response_cases(1) [OF wf] by (simp add: te)
  next
    case (RequestFailed rid f)
    then show ?thesis using failure_cases(1) [OF wf] by (simp add: te)
  qed (simp_all add: te closest request_handled(2,3) [OF wf] routing_calls trigger_calls
      run_bootstrap_continuously_def split: prod.split)
qed

text \<open>The callers of queries for the closest peers.\<close>

definition closest_caller :: "closest_type \<times> peer_id list \<Rightarrow> sender list" where
  "closest_caller e = (case fst e of FunctionCall c \<Rightarrow> [c] | DiscoveryQuery \<Rightarrow> [])"

lemma closest_caller_simps [simp]:
  "closest_caller (DiscoveryQuery, ps) = []" "closest_caller (FunctionCall c, ps) = [c]"
  by (simp_all add: closest_caller_def)

definition closest_waiting :: "rr_driver \<Rightarrow> sender multiset" where
  "closest_waiting s = mset (callers_of closest_caller (pending_get_closest_peers s))"

definition closest_served :: "rr_driver \<Rightarrow> sender multiset" where
  "closest_served s = mset (map fst (closest_answers s)) + mset (dropped_closest s)"

fun closest_asks :: "system_time \<times> rr_event \<Rightarrow> sender multiset" where
  "closest_asks (_, NetworkCmd (GetClosestPeersToAddressFromNetwork _ _ c)) = {#c#}"
| "closest_asks _ = {#}"

fun closest_ids :: "system_time \<times> rr_event \<Rightarrow> query_id list" where
  "closest_ids (_, NetworkCmd (GetClosestPeersToAddressFromNetwork rid _ _)) = [rid]"
| "closest_ids (_, RoutingUpdated dc _ _ _) = dc_ids dc"
| "closest_ids (_, BootstrapDue dc _ _) = dc_ids dc"
| "closest_ids _ = []"

lemma closest_cong:
  assumes "pending_get_closest_peers s' = pending_get_closest_peers s" and "closest_answers s' = closest_answers s"
    and "dropped_closest s' = dropped_closest s"
  shows "closest_waiting s' = closest_waiting s" and "closest_served s' = closest_served s"
  using assms by (simp_all add: closest_waiting_def closest_served_def)

lemma answer_call_closest [simp]:
  "pending_get_closest_peers (fst (answer_call R c res s)) = pending_get_closest_peers s"
  "closest_answers (fst (answer_call R c res s)) = closest_answers s"
  "dropped_closest (fst (answer_call R c res s)) = dropped_closest s"
  by (simp_all add: answer_call_def)

lemma requests_leave_closest [simp]:
  "closest_waiting (fst (handle_response R rid resp s)) = closest_waiting s"
  "closest_served (fst (handle_response R rid resp s)) = closest_served s"
  "pending_get_closest_peers (fst (handle_response R rid resp s)) = pending_get_closest_peers s"
  "closest_waiting (fst (handle_outbound_failure R rid e s)) = closest_waiting s"
  "closest_served (fst (handle_outbound_failure R rid e s)) = closest_served s"
  "pending_get_closest_peers (fst (handle_outbound_failure R rid e s)) = pending_get_closest_peers s"
  by (simp_all add: closest_waiting_def closest_served_def handle_response_def handle_outbound_failure_def
      Let_def split: option.split)

lemma closest_delivered:
  fixes R :: rr_ops and ps :: "peer_id list"
  assumes "hmap_inv (pending_get_closest_peers s)" and "map_of (pending_get_closest_peers s) rid = Some (ty, current)"
  defines "s' \<equiv> fst (deliver_closest R ty ps
      (s \<lparr> pending_get_closest_peers := AList.delete rid (pending_get_closest_peers s) \<rparr>))"
  shows "closest_served s' + closest_waiting s' = closest_served s + closest_waiting s"
    and "pending_get_closest_peers s' = AList.delete rid (pending_get_closest_peers s)"
proof -
  let ?s = "s \<lparr> pending_get_closest_peers := AList.delete rid (pending_get_closest_peers s) \<rparr>"
  have run: "deliver_closest R ty ps ?s = (s', snd (deliver_closest R ty ps ?s))" by (simp add: s'_def)
  note del = callers_delete [OF assms(1,2), of closest_caller]
  show "pending_get_closest_peers s' = AList.delete rid (pending_get_closest_peers s)"
    using deliver_closest_calls(5) [OF run] by simp
  then show "closest_served s' + closest_waiting s' = closest_served s + closest_waiting s"
    using deliver_closest_calls(6) [OF run] del
    by (cases ty) (simp_all add: closest_served_def closest_waiting_def closest_caller_def ac_simps)
qed

lemma closest_handled:
  assumes "hmap_inv (pending_get_closest_peers s)"
  shows "closest_served (fst (closest_peers_progressed R rid ps l s)) + closest_waiting (fst (closest_peers_progressed R rid ps l s))
      = closest_served s + closest_waiting s" (is ?progress)
    and "closest_served (fst (closest_peers_failed R rid ps s)) + closest_waiting (fst (closest_peers_failed R rid ps s))
      = closest_served s + closest_waiting s" (is ?fail)
    and "fst ` set (pending_get_closest_peers (fst (closest_peers_progressed R rid ps l s)))
      \<subseteq> fst ` set (pending_get_closest_peers s)" (is ?progress_busy)
    and "fst ` set (pending_get_closest_peers (fst (closest_peers_failed R rid ps s)))
      \<subseteq> fst ` set (pending_get_closest_peers s)" (is ?fail_busy)
proof -
  have "?progress \<and> ?fail \<and> ?progress_busy \<and> ?fail_busy"
  proof (cases "map_of (pending_get_closest_peers s) rid")
    case (Some e)
    obtain ty current where e: "e = (ty, current)" by (cases e)
    note del = closest_delivered [OF assms Some [unfolded e]]
    have "rid \<in> fst ` set (pending_get_closest_peers s)" using Some by (metis domI dom_map_of_conv_image_fst)
    moreover have "mset (callers_of closest_caller (AList.update rid (ty, current @ ps) (pending_get_closest_peers s)))
        = mset (callers_of closest_caller (pending_get_closest_peers s))"
      using callers_update [OF Some, of closest_caller "(ty, current @ ps)"] e by (simp add: closest_caller_def)
    ultimately show ?thesis
      using del Some e by (auto simp: closest_peers_progressed_def closest_peers_failed_def Let_def
          closest_waiting_def closest_served_def)
  qed (simp add: closest_peers_progressed_def closest_peers_failed_def)
  then show ?progress ?fail ?progress_busy ?fail_busy by blast+
qed

lemma fold_discovery_callers:
  fixes ids :: "(query_id \<times> network_address) list"
  assumes "distinct (map fst ids)" and "fst ` set ids \<inter> fst ` set m = {}"
  shows "mset (callers_of closest_caller (fold (\<lambda>(rid, _). AList.update rid (DiscoveryQuery, [])) ids m))
    = mset (callers_of closest_caller m)"
  using assms
proof (induction ids arbitrary: m)
  case (Cons a ids)
  have "map_of m (fst a) = None" using Cons.prems(2) by (auto simp: map_of_eq_None_iff)
  note ins = callers_insert [OF this, of closest_caller "(DiscoveryQuery, [])"]
  have "fst ` set ids \<inter> fst ` set (AList.update (fst a) (DiscoveryQuery, []) m) = {}"
    using Cons.prems by auto
  then show ?case
    using Cons.IH [of "AList.update (fst a) (DiscoveryQuery, []) m"] Cons.prems(1) ins
    by (simp add: case_prod_unfold)
qed simp

lemma trigger_closest:
  shows "closest_served (trigger_network_discovery R now dc s) = closest_served s"
    and "fst ` set (pending_get_closest_peers (trigger_network_discovery R now dc s))
      \<subseteq> fst ` set (pending_get_closest_peers s) \<union> set (dc_ids dc)"
    and "distinct (dc_ids dc) \<Longrightarrow> set (dc_ids dc) \<inter> fst ` set (pending_get_closest_peers s) = {}
      \<Longrightarrow> closest_waiting (trigger_network_discovery R now dc s) = closest_waiting s"
proof -
  obtain d cs where dcs: "discovery_candidates (s_net (ro_swarm R)) (dc_batches dc) (dc_random dc) (rr_discovery s) = (d, cs)"
    by fastforce
  define ids where "ids = zip (dc_ids dc) (case_option [] id cs)"
  have pend: "pending_get_closest_peers (trigger_network_discovery R now dc s)
      = fold (\<lambda>(rid, _). AList.update rid (DiscoveryQuery, [])) ids (pending_get_closest_peers s)"
    by (simp add: trigger_network_discovery_def dcs ids_def)
  have sub: "fst ` set ids \<subseteq> set (dc_ids dc)" and dist: "distinct (dc_ids dc) \<Longrightarrow> distinct (map fst ids)"
    unfolding ids_def by (auto dest: set_zip_leftD simp: map_fst_zip_take distinct_take)
  show "closest_served (trigger_network_discovery R now dc s) = closest_served s"
    by (simp add: closest_served_def trigger_calls)
  have keys: "fst ` set (fold (\<lambda>(rid, _). AList.update rid (DiscoveryQuery, [])) ids m) = fst ` set ids \<union> fst ` set m"
    for m :: "(query_id, closest_type \<times> peer_id list) hash_map"
    by (induction ids arbitrary: m) (simp_all add: case_prod_unfold)
  show "fst ` set (pending_get_closest_peers (trigger_network_discovery R now dc s))
      \<subseteq> fst ` set (pending_get_closest_peers s) \<union> set (dc_ids dc)"
    unfolding pend keys using sub by blast
  assume "distinct (dc_ids dc)" "set (dc_ids dc) \<inter> fst ` set (pending_get_closest_peers s) = {}"
  then show "closest_waiting (trigger_network_discovery R now dc s) = closest_waiting s"
    unfolding closest_waiting_def pend using fold_discovery_callers [OF dist] sub by blast
qed

lemma routing_closest:
  shows "closest_served (routing_updated R now dc p n old s) = closest_served s"
    and "fst ` set (pending_get_closest_peers (routing_updated R now dc p n old s))
      \<subseteq> fst ` set (pending_get_closest_peers s) \<union> set (dc_ids dc)"
    and "distinct (dc_ids dc) \<Longrightarrow> set (dc_ids dc) \<inter> fst ` set (pending_get_closest_peers s) = {}
      \<Longrightarrow> closest_waiting (routing_updated R now dc p n old s) = closest_waiting s"
proof -
  define s0 where "s0 = s \<lparr> rr_swarm := update_on_peer_addition p (rr_swarm s),
      rr_bootstrap := fst (notify_new_peer now (rr_bootstrap s)) \<rparr>"
  have s0: "pending_get_closest_peers s0 = pending_get_closest_peers s" "closest_waiting s0 = closest_waiting s"
    by (simp_all add: s0_def closest_waiting_def)
  have pend: "pending_get_closest_peers (routing_updated R now dc p n old s)
      = (if n \<and> snd (notify_new_peer now (rr_bootstrap s))
         then pending_get_closest_peers (trigger_network_discovery R now dc s0) else pending_get_closest_peers s)"
    by (simp add: routing_updated_def Let_def s0_def split: prod.split option.split)
  show "closest_served (routing_updated R now dc p n old s) = closest_served s"
    by (simp add: closest_served_def routing_calls)
  show "fst ` set (pending_get_closest_peers (routing_updated R now dc p n old s))
      \<subseteq> fst ` set (pending_get_closest_peers s) \<union> set (dc_ids dc)"
    using trigger_closest(2) [of R now dc s0] s0 by (simp add: pend)
  assume "distinct (dc_ids dc)" "set (dc_ids dc) \<inter> fst ` set (pending_get_closest_peers s) = {}"
  then show "closest_waiting (routing_updated R now dc p n old s) = closest_waiting s"
    using trigger_closest(3) [of dc s0 R now] s0 by (simp add: closest_waiting_def pend)
qed

lemma closest_cmds:
  shows "fst ` set (pending_get_closest_peers (fst (handle_network_cmd R c s)))
      \<subseteq> fst ` set (pending_get_closest_peers s) \<union> set (closest_ids (now, NetworkCmd c))"
    and "set (closest_ids (now, NetworkCmd c)) \<inter> fst ` set (pending_get_closest_peers s) = {}
      \<Longrightarrow> closest_served (fst (handle_network_cmd R c s)) + closest_waiting (fst (handle_network_cmd R c s))
       = closest_served s + closest_waiting s + closest_asks (now, NetworkCmd c)"
proof -
  show "fst ` set (pending_get_closest_peers (fst (handle_network_cmd R c s)))
      \<subseteq> fst ` set (pending_get_closest_peers s) \<union> set (closest_ids (now, NetworkCmd c))"
    by (cases "(R, c, s)" rule: handle_network_cmd.cases) (auto simp: Let_def split: request.split)
  assume fresh: "set (closest_ids (now, NetworkCmd c)) \<inter> fst ` set (pending_get_closest_peers s) = {}"
  show "closest_served (fst (handle_network_cmd R c s)) + closest_waiting (fst (handle_network_cmd R c s))
       = closest_served s + closest_waiting s + closest_asks (now, NetworkCmd c)"
  proof (cases c)
    case (GetClosestPeersToAddressFromNetwork rid key caller)
    then have "map_of (pending_get_closest_peers s) rid = None" using fresh by (simp add: map_of_eq_None_iff)
    from callers_insert [OF this, of closest_caller "(FunctionCall caller, [])"] show ?thesis
      using GetClosestPeersToAddressFromNetwork
      by (simp add: closest_served_def closest_waiting_def closest_caller_def)
  next
    case (SendRequest rid req peer caller)
    then show ?thesis by (simp add: closest_served_def closest_waiting_def split: request.split)
  next
    case (SendResponse resp ch)
    then show ?thesis
      by (cases "(R, c, s)" rule: handle_network_cmd.cases) (simp_all add: closest_served_def closest_waiting_def)
  qed (simp_all add: closest_served_def closest_waiting_def Let_def)
qed

interpretation cq: answered_calls "rr_wf self" "rr_step R" closest_waiting closest_served closest_asks
    closest_ids "\<lambda>s. fst ` set (pending_get_closest_peers s)" for R self
proof
  fix s :: rr_driver and te :: "system_time \<times> rr_event"
  assume wf: "rr_wf self s"
  then have inv: "hmap_inv (pending_get_closest_peers s)" by (simp add: rr_wf_def)
  obtain now e where te: "te = (now, e)" by (cases te)
  show "rr_wf self (rr_step R te s)" using wf by (rule rq.inv_step)
  have queue: "closest_ids (now, NetworkCmd c) = []" "closest_asks (now, NetworkCmd c) = {#}"
    if "queued_cmds s = c # cs" for c cs
    using that wf by (auto simp: rr_wf_def elim: response_to_peer.elims)
  have frame: "closest_served (s \<lparr> queued_cmds := cs \<rparr>) = closest_served s"
    "closest_waiting (s \<lparr> queued_cmds := cs \<rparr>) = closest_waiting s"
    "closest_served (s \<lparr> rr_swarm := d \<rparr>) = closest_served s"
    "closest_waiting (s \<lparr> rr_swarm := d \<rparr>) = closest_waiting s" for cs d
    by (simp_all add: closest_served_def closest_waiting_def)
  note handled = closest_cong [OF request_handled(5-7) [OF wf]] request_handled(5) [OF wf]
  show "fst ` set (pending_get_closest_peers (rr_step R te s))
      \<subseteq> fst ` set (pending_get_closest_peers s) \<union> set (closest_ids te)"
  proof (cases e)
    case (NetworkCmd c)
    then show ?thesis using closest_cmds(1) [of R c s now] by (simp add: te)
  next
    case QueuedCmd
    then show ?thesis
      using closest_cmds(1) [of R _ "s \<lparr> queued_cmds := _ \<rparr>" now] queue
      by (cases "queued_cmds s") (fastforce simp: te)+
  next
    case (RoutingUpdated dc p n old)
    then show ?thesis using routing_closest(2) by (simp add: te)
  next
    case (BootstrapDue dc slowdown interval)
    then show ?thesis
      using trigger_closest(2) [of R now dc s] by (simp add: te run_bootstrap_continuously_def split: prod.split)
  qed (use closest_handled(3,4) [OF inv] in \<open>simp_all add: te handled\<close>)
  assume fresh: "distinct (closest_ids te)" "set (closest_ids te) \<inter> fst ` set (pending_get_closest_peers s) = {}"
  show "closest_served (rr_step R te s) + closest_waiting (rr_step R te s)
      = closest_served s + closest_waiting s + closest_asks te"
  proof (cases e)
    case (NetworkCmd c)
    then show ?thesis using closest_cmds(2) [of now c s R] fresh by (simp add: te)
  next
    case QueuedCmd
    show ?thesis
    proof (cases "queued_cmds s")
      case (Cons c cs)
      then show ?thesis
        using closest_cmds(2) [of now c "s \<lparr> queued_cmds := cs \<rparr>" R] queue [OF Cons] QueuedCmd
        by (simp add: te frame)
    qed (simp add: te QueuedCmd)
  next
    case (RoutingUpdated dc p n old)
    then show ?thesis using routing_closest fresh by (simp add: te)
  next
    case (BootstrapDue dc slowdown interval)
    then show ?thesis
      using trigger_closest(1) [of R now dc s] trigger_closest(3) [of dc s R now] fresh by (simp add: te run_bootstrap_continuously_def split: prod.split)
  qed (use closest_handled(1,2) [OF inv] in \<open>simp_all add: te handled frame\<close>)
qed

definition rr_new :: "swarm_driver \<Rightarrow> network_discovery \<Rightarrow> continuous_bootstrap \<Rightarrow> rr_driver" where
  "rr_new d nd b =
     \<lparr> rr_swarm = d, rr_discovery = nd, rr_bootstrap = b, bootstrap_peers = [], pending_requests = [], pending_get_closest_peers = [],
       queued_cmds = [], request_answers = [], closest_answers = [], put_answers = [], dial_answers = [], dropped_calls = [],
       dropped_closest = [], wire_requests = [], wire_responses = [], node_requests = [] \<rparr>"

text \<open>C19: in every run of the driver whose requests and queries have different identifiers, a caller
  that awaits the response of a peer or the closest peers of an address is in flight or was
  answered (or gave up) exactly once, whatever peers answer and however requests fail. A query
  that a node sends to itself stays with the node, and the node's answer is counted with it.\<close>

theorem calls_answered_once:
  assumes "distinct (concat (map request_ids es))" and "distinct (concat (map closest_ids es))"
  shows "calls_served (fold (rr_step R) es (rr_new d nd b)) + calls_waiting (fold (rr_step R) es (rr_new d nd b))
      = sum_mset (mset (map (call_asks (self_peer_id d)) es))
    \<and> closest_served (fold (rr_step R) es (rr_new d nd b)) + closest_waiting (fold (rr_step R) es (rr_new d nd b))
      = sum_mset (mset (map closest_asks es))"
proof -
  have wf: "rr_wf (self_peer_id d) (rr_new d nd b)" by (simp add: rr_wf_def rr_new_def)
  have "calls_served (rr_new d nd b) + calls_waiting (rr_new d nd b) = {#}"
    "closest_served (rr_new d nd b) + closest_waiting (rr_new d nd b) = {#}"
    "pending_requests (rr_new d nd b) = []" "pending_get_closest_peers (rr_new d nd b) = []"
    by (simp_all add: rr_new_def calls_served_def calls_waiting_def closest_served_def closest_waiting_def)
  then show ?thesis
    using rq.calls_run [OF wf assms(1)] cq.calls_run [OF wf assms(2)] by simp
qed

subsection \<open>An example\<close>

definition example_rr_ops :: rr_ops where
  "example_rr_ops = \<lparr> ro_swarm = example_swarm_ops, ro_alive = (\<lambda>_. True), ro_open = (\<lambda>_. True) \<rparr>"

definition example_rr :: rr_driver where
  "example_rr = rr_new example_driver \<lparr> nd_self = self_peer_id example_driver, nd_candidates = [] \<rparr> (bootstrap_new 0)"

text \<open>One request is answered and one still awaited; a query for the closest peers times out.\<close>

definition example_rr_events :: "(system_time \<times> rr_event) list" where
  "example_rr_events =
     [(0, NetworkCmd (SendRequest 0 (RequestQuery (GetStoreCost (ChunkAddress 1))) [100] (Some 7))),
      (0, NetworkCmd (SendRequest 1 (RequestQuery (GetStoreCost (ChunkAddress 1))) [101] (Some 8))),
      (1, NetworkCmd (GetClosestPeersToAddressFromNetwork 0 (ChunkAddress 1) 9)),
      (2, ResponseFromPeer 1 (ResponseQuery (ChunkProofResponse (Err GetStoreCostFailed)))),
      (3, ClosestProgressed 0 [[100]] False),
      (4, ClosestFailed 0 [[101]])]"

theorem calls_answered_once_witness:
  "calls_served (fold (rr_step example_rr_ops) example_rr_events example_rr)
     + calls_waiting (fold (rr_step example_rr_ops) example_rr_events example_rr) = {#7, 8#}
   \<and> closest_served (fold (rr_step example_rr_ops) example_rr_events example_rr)
     + closest_waiting (fold (rr_step example_rr_ops) example_rr_events example_rr) = {#9#}
   \<and> closest_answers (fold (rr_step example_rr_ops) example_rr_events example_rr) = [(9, [[100], [101]])]
   \<and> map fst (request_answers (fold (rr_step example_rr_ops) example_rr_events example_rr)) = [8]"
proof -
  have self: "self_peer_id example_driver \<noteq> [100]" "self_peer_id example_driver \<noteq> [101]"
    by (simp_all add: example_driver_def)
  have "distinct (concat (map request_ids example_rr_events))" "distinct (concat (map closest_ids example_rr_events))"
    by (simp_all add: example_rr_events_def)
  note calls = calls_answered_once [OF this, of example_rr_ops example_driver
      "\<lparr> nd_self = self_peer_id example_driver, nd_candidates = [] \<rparr>" "bootstrap_new 0", folded example_rr_def]
  have asks: "sum_mset (mset (map (call_asks (self_peer_id example_driver)) example_rr_events)) = {#7, 8#}"
    "sum_mset (mset (map closest_asks example_rr_events)) = {#9#}"
    by (simp_all add: example_rr_events_def)
  have "closest_answers (fold (rr_step example_rr_ops) example_rr_events example_rr) = [(9, [[100], [101]])]"
    "map fst (request_answers (fold (rr_step example_rr_ops) example_rr_events example_rr)) = [8]"
    using self by (simp_all add: example_rr_events_def example_rr_def rr_new_def example_rr_ops_def
        handle_response_def answer_call_def closest_peers_progressed_def closest_peers_failed_def
        deliver_closest_def K_VALUE_def Let_def)
  then show ?thesis using calls asks by simp
qed

end
