(* ===== verification/Spec2Isabelle.thy ===== *)
theory Spec2Isabelle
  imports Transactions Spend_Validation Registers Payments Record_Store Replication Get_Record
    Put_Validation Swarm_Runs Requests
begin

text \<open>
  This development verifies the core of the Safe Network: the tokens and their transfers
  (crate sn\_transfers), registers (sn\_registers), the addresses, records and messages
  (sn\_protocol), the networking layer of a node (sn\_networking) and the validation of uploads by
  a node (sn\_node). File names below are relative to the \<open>src\<close> directory of the repository.

  \<^bold>\<open>The program.\<close> A client holds a wallet of cash notes. To store data it asks the nodes close to
  the address for quotes, builds transactions that spend notes of its wallet and pay the node and
  the network, and uploads the record with the payment. A node checks key, quote, payment and the
  spends behind it, which it fetches from the network, and hands the record to its swarm driver.
  The driver owns the record store, the replication fetcher and the queries and requests in
  flight; it announces its records to close peers, fetches what they announce, and shuns peers
  that misbehave. Registers are replicated data types that nodes merge; spends are kept so that a
  double spend stays visible.

  \<^bold>\<open>The theories.\<close>
  \<^item> \<open>Prelude\<close>: results, checked arithmetic on machine words, big-endian bytes, the collection
    \<open>result_simps\<close>.
  \<^item> \<open>Collections\<close>: \<open>BTreeMap\<close>, \<open>BTreeSet\<close> and \<open>HashMap\<close> as association lists with their
    invariants; the interfaces \<open>replicated_set\<close> (states that join like sets) and
    \<open>answered_calls\<close> (components that keep callers until they are answered).
  \<^item> \<open>Decimal\<close>, \<open>Nano_Tokens\<close>: printing and parsing of numbers; \<open>NanoTokens\<close> of
    sn\_transfers/cashnotes/nano.rs.
  \<^item> \<open>Keys\<close>, \<open>Spends\<close>: one-time keys, hashes and reasons (unique\_keys.rs, hash.rs,
    spend\_reason.rs), signed spends and cash notes (signed\_spend.rs, cashnote.rs). The check
    against the parents is shown equal to a closed formula on the balance.
  \<^item> \<open>Transactions\<close>: \<open>UnsignedTransaction\<close> and \<open>SignedTransaction\<close> of sn\_transfers/transfers. A
    built transaction pays the recipients, spends exactly its notes, and verifies once signed.
  \<^item> \<open>Protocol\<close>: \<open>NetworkAddress\<close>, distances, record headers and values, chunks and scratchpads.
  \<^item> \<open>Spend_Validation\<close>: transfers.rs and spends.rs of sn\_networking with the transfers of
    sn\_transfers. What a node accepts as a spend, the conservation of value in a ledger of
    accepted spends, and the redemption of transfers.
  \<^item> \<open>Registers\<close>: the register CRDT, its operations, signed registers and their merging, over a
    Merkle register given by the crdts library. Replicas converge; limits are respected.
  \<^item> \<open>Payments\<close>: quotes and payments (wallet/data\_payments.rs).
  \<^item> \<open>Record_Store\<close>: record\_store.rs and record\_store\_api.rs; the tasks that write and remove
    files, and the commands they send back, are explicit steps.
  \<^item> \<open>Replication\<close>: replication\_fetcher.rs as a state machine with its reachable states.
  \<^item> \<open>Get_Record\<close>: queries for records in progress (event/kad.rs, cmd.rs, driver.rs).
  \<^item> \<open>Wallet_Keys\<close>, \<open>Wallets\<close>, \<open>Storage_Payments\<close>: the key files, wallet files, watch-only wallet
    and hot wallet of sn\_transfers/wallet, over a record of the files of a wallet directory. A send
    conserves the balance in memory and on disk; a storage payment records a payment for each
    price.
  \<^item> \<open>Put_Validation\<close>: put\_validation.rs and quote.rs of sn\_node: what is stored, when, and which
    commands the swarm gets.
  \<^item> \<open>Swarm_Driver\<close>, \<open>Swarm_Runs\<close>: the local commands of cmd.rs and the replication lists of
    event/request\_response.rs, and the properties of whole runs of the driver.
  \<^item> \<open>Discovery\<close>, \<open>Requests\<close>: network\_discovery.rs and bootstrap.rs; the messages, the network
    commands of cmd.rs, requests and responses in flight and queries for the closest peers.
  \<^item> \<open>Spec2Isabelle\<close> (this theory) composes wallet, node and driver: a chunk that a wallet pays for
    with a quote of the node is accepted and written.

  \<^bold>\<open>Correspondence.\<close> A struct is a record, an enum a datatype, a method a function with the state
  as an argument and, where it changes, as a result. \<open>Result\<close> is \<open>('e, 'a) result\<close>, a sum whose
  left side is the error, so every early return is a branch. Integers keep their width as words
  where they can wrap; a release build wraps on overflow, and the models do. Time is an argument,
  in nanoseconds since the epoch. Random choices and the order in which spawned tasks end are
  arguments or events. Loops are structural recursions or have a termination proof; the only
  loop with a bound of its own is the one that loads a wallet file, which the code ends after ten
  attempts.

  \<^bold>\<open>Parameters.\<close> Code outside the repository is an argument: BLS keys (\<open>bls_ops\<close>), hashes and
  peer identifiers (\<open>net_ops\<close>), serialisation (\<open>codec\<close>), the Merkle register (\<open>reg_ops\<close>), ciphers,
  libp2p keys and the file system. What the proofs need of them, such as that decoding inverts
  encoding or that signatures of the own key verify, is a hypothesis of the theorem, and a witness
  instantiates it with concrete functions.

  \<^bold>\<open>What is shown.\<close> Value is conserved from the genesis note through transactions, wallets and
  accepted ledgers; payments are complete and uploads paid; stored spends and registers are
  justified and merge; the store keeps the closest records, answers what was put last and survives
  a restart; the fetcher and the driver stay well formed, in range and paced; callers of queries
  and requests are answered once. The properties of kind error state what the code does where it
  does not do what it means to: sums that wrap, spends forgotten on reload, notes counted twice,
  scratchpads that are never stored, records lost by reordered disk tasks.

  \<^bold>\<open>Not modelled.\<close> The event loop of the node and its timers, the reactions to connections, relays
  and external addresses, metrics and logging depend on libp2p and on I/O. The client crates
  (sn\_client, sn\_cli, autonomi), the EVM crates, the node manager and its services, the launchpad,
  the auditor, the faucet and the small tools are orchestration around the parts above, files,
  processes or user interfaces, and are left out. In the modelled files, random generation,
  printing, hex encodings, file locks and directory moves are left out.
\<close>

section \<open>The node and its swarm driver\<close>

text \<open>The node asks the driver about its store, and sends it the commands of a handled upload; a
  command to replicate a fresh record and the event of a stored chunk go elsewhere.\<close>

definition is_record_key_present_locally :: "swarm_ops \<Rightarrow> system_time \<Rightarrow> swarm_driver \<Rightarrow> record_key \<Rightarrow> bool" where
  "is_record_key_present_locally P now s key =
     (case handle_local_query P now (RecordStoreHasKey key) s of BoolAnswer b \<Rightarrow> b | _ \<Rightarrow> False)"

definition get_local_record :: "swarm_ops \<Rightarrow> system_time \<Rightarrow> swarm_driver \<Rightarrow> record_key \<Rightarrow> kad_record option" where
  "get_local_record P now s key =
     (case handle_local_query P now (GetLocalRecord key) s of RecordAnswer r \<Rightarrow> r | _ \<Rightarrow> None)"

definition driver_answers :: "swarm_ops \<Rightarrow> system_time \<Rightarrow> swarm_driver \<Rightarrow> local_store" where
  "driver_answers P now s =
     \<lparr> has_key = is_record_key_present_locally P now s, get_local = get_local_record P now s \<rparr>"

fun send_local_swarm_cmd :: "swarm_ops \<Rightarrow> system_time \<Rightarrow> node_cmd \<Rightarrow> swarm_driver \<Rightarrow> swarm_driver" where
  "send_local_swarm_cmd P now (PutLocalRecord r) s = fst (handle_local_cmd P now (CmdPutVerifiedLocalRecord r) s)"
| "send_local_swarm_cmd P now PaymentReceived s = fst (handle_local_cmd P now CmdPaymentReceived s)"
| "send_local_swarm_cmd P now (node_cmd.FetchCompleted key ty) s = fst (handle_local_cmd P now (CmdFetchCompleted key ty) s)"
| "send_local_swarm_cmd P now (ReplicateFresh key ty) s = s"
| "send_local_swarm_cmd P now (ChunkStored name) s = s"

definition run_node_cmds :: "swarm_ops \<Rightarrow> system_time \<Rightarrow> node_cmd list \<Rightarrow> swarm_driver \<Rightarrow> swarm_driver" where
  "run_node_cmds P now cmds s = fold (send_local_swarm_cmd P now) cmds s"

subsection \<open>An upload from the client's wallet to the node's disk\<close>

lemma payment_received_store:
  "records (payment_received st) = records st" "store_config (payment_received st) = store_config st"
  "cache_same_value (payment_received st) r = cache_same_value st r"
  by (simp_all add: payment_received_def flush_historic_quoting_metrics_def cache_same_value_def split: option.split)

lemma put_verified_room:
  assumes "length (records st) < max_records (store_config st)" and "\<not> cache_same_value st r"
  shows "\<exists>st'. put_verified N Op st r ty = (st', Ok ()) \<and> WriteRecordFile r ty \<in> set (spawned st')"
  using assms by (simp add: put_verified_def Let_def prune_records_if_needed_def)

lemma put_local_record_room:
  assumes "sd_store s = NodeStore st" and "length (records st) < max_records (store_config st)"
    and "\<not> cache_same_value st r" and "record_type_of P r = Ok ty"
  shows "\<exists>st'. sd_store (fst (put_verified_local_record P now r s)) = NodeStore st' \<and> WriteRecordFile r ty \<in> set (spawned st')"
proof -
  obtain st' where "put_verified (s_net P) (s_store P) st r ty = (st', Ok ())" "WriteRecordFile r ty \<in> set (spawned st')"
    using put_verified_room [OF assms(2,3)] by blast
  then show ?thesis
    using assms(1,4) by (simp add: put_verified_local_record_def Let_def split: prod.split)
qed

lemma price_fits:
  assumes "(name, pk, q, peer) \<in> set prices"
  shows "unat (as_nano (q_cost q)) \<le> prices_storage prices"
    and "unat (as_nano (calculate_royalties_fee (q_cost q))) \<le> prices_royalties prices"
proof -
  have member: "f x \<le> sum_list (map f xs)" if "x \<in> set xs" for f :: "_ \<Rightarrow> nat" and x xs
    using that by (simp add: member_le_sum_list)
  show "unat (as_nano (q_cost q)) \<le> prices_storage prices"
    using member [OF assms, of "\<lambda>(_, _, q, _). unat (as_nano (q_cost q))"] by (simp add: prices_storage_def)
  show "unat (as_nano (calculate_royalties_fee (q_cost q))) \<le> prices_royalties prices"
    using member [OF assms, of "\<lambda>(_, _, q, _). unat (as_nano (calculate_royalties_fee (q_cost q)))"]
    by (simp add: prices_royalties_def)
qed

text \<open>C2: a chunk that was paid for from a client's wallet with a quote of the node is stored by
  the node: the payment the wallet recorded satisfies the node, and the node's driver writes
  the chunk, when the spends of the payment are on the network, the quote is not older than
  an hour and there is room in the store.\<close>

theorem paid_chunk_is_stored:
  assumes client: "plain_wallet W (hw_key w) m d" "note_codec_correct W" "iter_permutes W" "d_unconfirmed d = None"
      "local_send_storage_payment W t0 indexes ci d w prices = (d', w', Ok (sc, rf))"
      "bmap_inv prices" "length prices \<le> length indexes"
      "distinct (new_unique_pubkey (w_bls W) (hw_address W w) ci # price_keys W prices indexes)"
      "note_file W (new_unique_pubkey (w_bls W) (hw_address W w) ci) \<notin> note_file W ` fst ` set m"
      "(chunk_address c, pk, q, peer) \<in> set prices"
    and payment: "get_recent_payment d' (chunk_address c) = Ok p"
    and node: "o_wallet V = W" "plain_wallet W key nm nd" "pk = main_pubkey_of (w_bls W) key"
      "\<forall>b. sk_decrypt (w_transfer W) key (pk_encrypt (w_transfer W) pk b) = Some b"
      "\<forall>x b. cnr_to_bytes (w_transfer W) x = Some b \<longrightarrow> cnr_from_bytes (w_transfer W) b = Some x"
      "\<forall>cn. paid_note (w_bls W) (set (hw_unconfirmed w')) (q_cost q) pk cn \<longrightarrow> cn_to_hex W cn \<noteq> None"
    and quote: "create_quote_for_storecost V quoted cost (ChunkAddress (chunk_address c)) metrics = Ok q"
      "\<forall>b s. own_sign V b = Some s \<longrightarrow> own_verify V b s"
      "quoted \<le> now" "as_secs (now - quoted) \<le> QUOTE_EXPIRATION_SECS"
    and network: "inj_on (\<lambda>s. spend_address_of (w_net W) (ss_unique_pubkey s)) (set (hw_unconfirmed w'))"
      "\<forall>s \<in> set (hw_unconfirmed w').
         get_spend (w_net W) (c_spends V) get_record (spend_address_of (w_net W) (ss_unique_pubkey s)) = Ok s"
      "\<forall>s \<in> set (hw_unconfirmed w'). \<forall>k \<in> fst ` set (sp_descendants (ss_spend s)).
         k \<notin> fst ` set nm \<and> \<not> has_confirmed_spend nd (spend_address_of (w_net W) k)"
    and upload: "header_from_record (c_chunk V) r = Ok KChunkWithPayment"
      "try_deserialize_record (c_paid_chunk V) r = Ok (to_payment p, c)"
      "rec_key r = to_record_key (w_net W) (ChunkAddress (chunk_address c))"
      "try_serialize_record (c_chunk V) c KChunk = Ok value"
    and driver: "sd_store s = NodeStore st" "length (records st) < max_records (store_config st)"
      "\<not> store_contains st (rec_key r)" "\<not> cache_same_value st \<lparr> rec_key = rec_key r, rec_value = value \<rparr>"
      "header_from_record (s_codec P) \<lparr> rec_key = rec_key r, rec_value = value \<rparr> = Ok KChunk"
  shows "\<exists>nd' cmds st'. validate_and_store_record V now get_record (driver_answers P now s) nd r = (nd', cmds, Ok ())
     \<and> sd_store (run_node_cmds P now cmds s) = NodeStore st'
     \<and> WriteRecordFile \<lparr> rec_key = rec_key r, rec_value = value \<rparr> ChunkType \<in> set (spawned st')"
proof -
  let ?S = "set (hw_unconfirmed w')" and ?r = "\<lparr> rec_key = rec_key r, rec_value = value \<rparr>"
  note sp = storage_payment_plain [OF client(1-3,5-9)]
  obtain cn rcn where p: "pd_quote p = q" "transfer_from_cash_note (w_net W) (w_transfer W) cn = Ok (fst (pd_transfer p))"
      "fst (pd_royalties p) = NetworkRoyalties [cnr_from_cash_note (w_net W) rcn]"
    and given: "paid_note (w_bls W) ?S (q_cost q) pk cn"
      "paid_note (w_bls W) ?S (calculate_royalties_fee (q_cost q)) (royalties_pk W) rcn"
    using sp(5) [OF client(10)] payment client(4) by fastforce
  have "q_cost q = cost" and qv: "verify_quote_for_storecost V now q (ChunkAddress (chunk_address c)) = Ok ()"
    using own_quote_valid [OF quote] by simp_all
  have fits: "unat (as_nano (q_cost q)) + unat (as_nano (calculate_royalties_fee (q_cost q))) < 2 ^ 64"
    using price_fits [OF client(10)] sp(2-4) by simp
  obtain nd' where pay: "payment_for_us_exists_and_is_still_valid V now get_record nd (ChunkAddress (chunk_address c))
      (to_payment p) = (nd', [PaymentReceived], Ok ())"
    using payment_accepted [of V key nm nd pk ?S q cn "fst (pd_transfer p)" rcn get_record now "ChunkAddress (chunk_address c)"]
      node given p network qv fits by (auto simp: to_payment_def)
  have new: "\<not> has_key (driver_answers P now s) (to_record_key (o_net V) (ChunkAddress (chunk_address c)))"
    using driver(1,3) upload(3) node(1) by (simp add: driver_answers_def is_record_key_present_locally_def)
  define cmds where "cmds = [PaymentReceived, PutLocalRecord ?r, ChunkStored (chunk_address c),
      ReplicateFresh (rec_key r) ChunkType, node_cmd.FetchCompleted (rec_key r) ChunkType]"
  have "validate_and_store_record V now get_record (driver_answers P now s) nd r = (nd', cmds, Ok ())"
    using upload new pay node(1)
    by (simp add: validate_and_store_record_def put_paid_chunk_def chunk_network_address_def validate_key_and_existence_def
        store_chunk_def notify_when_ok_def cmds_def)
  moreover have "record_type_of P ?r = Ok ChunkType" using driver(5) by (simp add: record_type_of_def)
  then obtain st' where "sd_store (fst (put_verified_local_record P now ?r
      (s \<lparr> sd_store := unified_payment_received (sd_store s) \<rparr>))) = NodeStore st'"
    "WriteRecordFile ?r ChunkType \<in> set (spawned st')"
    using put_local_record_room [of "s \<lparr> sd_store := unified_payment_received (sd_store s) \<rparr>" "payment_received st" ?r P]
      driver by (auto simp: payment_received_store)
  ultimately show ?thesis by (auto simp: run_node_cmds_def cmds_def)
qed


subsection \<open>Examples\<close>

definition upload_swarm_ops :: swarm_ops where
  "upload_swarm_ops = example_swarm_ops \<lparr> s_codec := table_codec [] \<rparr>"

theorem paid_chunk_is_stored_witness:
  "\<exists>nd' cmds st'. validate_and_store_record example_node 0 example_records
        (driver_answers upload_swarm_ops 0 example_driver) example_node_disk example_upload = (nd', cmds, Ok ())
     \<and> sd_store (run_node_cmds upload_swarm_ops 0 cmds example_driver) = NodeStore st'
     \<and> WriteRecordFile \<lparr> rec_key = rec_key example_upload, rec_value = [145, 1, 7] \<rparr> ChunkType \<in> set (spawned st')"
proof -
  obtain d' w' where pay: "local_send_storage_payment example_payment_ops 0 [(2, 3)] 9 example_disk
      example_hot_wallet example_prices = (d', w', Ok (NanoTokens 4, NanoTokens 1))"
    and spends: "hw_unconfirmed w' = [example_paid_spend]"
    using example_storage_payment by blast
  have keys: "distinct (new_unique_pubkey (w_bls example_payment_ops) (hw_address example_payment_ops example_hot_wallet) 9
      # price_keys example_payment_ops example_prices [(2, 3)])"
    by (simp add: example_payment_ops_simps example_prices_def new_unique_pubkey_def)
  have fresh: "note_file example_payment_ops (new_unique_pubkey (w_bls example_payment_ops)
      (hw_address example_payment_ops example_hot_wallet) 9) \<notin> note_file example_payment_ops ` fst ` set [(6, NanoTokens 5)]"
    using example_change_file by (simp add: example_payment_ops_simps new_unique_pubkey_def)
  have prices: "(chunk_address example_chunk, 20, example_quote, [8]) \<in> set example_prices" "bmap_inv example_prices"
    "length example_prices \<le> length [(2, 3)]" "q_cost example_quote = NanoTokens 4"
    by (simp_all add: example_prices_def example_chunk_def bmap_inv_def example_quote_def)
  obtain p where p: "get_recent_payment d' 1 = Ok p" and "to_payment p = example_payment"
  proof -
    from storage_payment_plain(5) [OF example_payment_wallet(2,1,4) pay prices(2,3) keys fresh prices(1)] spends
    obtain p cn rcn where p: "get_recent_payment d' 1 = Ok p" "pd_quote p = example_quote"
      and cn: "paid_note xor_bls {example_paid_spend} (NanoTokens 4) 20 cn"
        "transfer_from_cash_note example_net (w_transfer example_payment_ops) cn = Ok (fst (pd_transfer p))"
      and rcn: "paid_note xor_bls {example_paid_spend} (NanoTokens 1) 99 rcn"
        "fst (pd_royalties p) = NetworkRoyalties [cnr_from_cash_note example_net rcn]"
      by (auto simp: prices(4) example_fee example_chunk_def)
    have "to_payment p = example_payment"
      using p(2) cn(2) rcn(2) example_transfers(3)
      unfolding example_paid_unique(1) [OF cn(1)] example_paid_unique(2) [OF rcn(1)]
      by (simp add: to_payment_def example_payment_def)
    then show thesis using that p(1) by blast
  qed
  show ?thesis
  proof (rule paid_chunk_is_stored [OF example_payment_wallet(2,1,4) _ pay prices(2,3) keys fresh prices(1)])
    show "get_recent_payment d' (chunk_address example_chunk) = Ok p" using p by (simp add: example_chunk_def)
    show "plain_wallet example_payment_ops 20 [] example_node_disk" by (rule example_node_wallet)
    show "create_quote_for_storecost example_node 0 (NanoTokens 4) (ChunkAddress (chunk_address example_chunk))
        quoting_metrics_new = Ok example_quote"
      using example_quote_created by (simp add: example_chunk_def)
    show "try_deserialize_record (c_paid_chunk example_node) example_upload = Ok (to_payment p, example_chunk)"
      using \<open>to_payment p = example_payment\<close> by (simp add: example_upload_decodes)
    show "try_serialize_record (c_chunk example_node) example_chunk KChunk = Ok [145, 1, 7]"
      by (rule example_upload_decodes)
    show "sd_store example_driver = NodeStore (example_store 2 2)" by (simp add: example_driver_def)
    show "\<forall>cn. paid_note (w_bls example_payment_ops) (set (hw_unconfirmed w')) (q_cost example_quote) 20 cn
        \<longrightarrow> cn_to_hex example_payment_ops cn \<noteq> None"
      by (auto simp: spends prices(4) example_payment_hex dest!: example_paid_unique(1))
    show "header_from_record (s_codec upload_swarm_ops) \<lparr> rec_key = rec_key example_upload, rec_value = [145, 1, 7] \<rparr> = Ok KChunk"
      by (simp add: upload_swarm_ops_def header_from_record_def header_try_deserialize_def table_codec_def HEADER_SIZE_def
          kind_from_u32_def)
  qed (simp_all add: spends example_upload_decodes example_node_spends main_pubkey_of_def example_transfers
      example_chunk_def, simp_all add: example_upload_def has_confirmed_spend_def hmap_contains_def example_node_disk_def
      empty_disk_def example_store_def store_contains_def cache_same_value_def)
qed


end
